(* ===== verification/Prelude.thy ===== *)
theory Prelude
  imports Main "HOL-Library.Word"
begin

text \<open>
  What every other theory of the development shares: names for the fixed-width integers of
  \<^verbatim>\<open>src/src/base/types.h\<close>, positional reads and writes of byte buffers, the
  binary search of the C++ standard library with the lemma that says what it finds, and the
  arithmetic lemmas that carry word positions over to natural numbers.

  A \<^verbatim>\<open>std::size_t\<close> is a natural number here. Every size the code handles is the
  length of a buffer that exists, so the sums and differences the code takes of them stay far
  below the width of the type; where a difference could go below zero the lemmas of the
  component show that it does not.
\<close>

unbundle bit_operations_syntax

section \<open>Fixed-width integers\<close>

type_synonym u8 = "8 word"
type_synonym u16 = "16 word"
type_synonym u32 = "32 word"
type_synonym u64 = "64 word"
type_synonym i64 = "64 word"

type_synonym bytes = "u8 list"

text \<open>
  Collections: \<open>layout\<close> holds the rewrite rules for reads and writes at fixed positions of
  a buffer, \<open>widths\<close> those that move word arithmetic to natural numbers, and
  \<open>consts_of\<close> the numeric constants of the source.
\<close>

named_theorems layout "reads and writes at fixed positions of a byte buffer"
named_theorems widths "word arithmetic read as natural numbers"
named_theorems consts_of "numeric constants of the source"

lemma mask8_eq: "(0xFF :: 'a::len word) = mask 8"
  by (simp add: mask_numeral)

lemma mask32_eq: "(0xFFFFFFFF :: 'a::len word) = mask 32"
  by (simp add: mask_numeral)

lemma unat_u32_bound [simp]: "unat (x :: u32) < 4294967296"
  using unsigned_less [of x, where ?'a = nat] by simp

lemma unat_u64_bound [simp]: "unat (x :: u64) < 18446744073709551616"
  using unsigned_less [of x, where ?'a = nat] by simp

lemma unat_of_nat_u32 [widths]: "n < 4294967296 \<Longrightarrow> unat (of_nat n :: u32) = n"
  by (simp add: unat_of_nat take_bit_nat_eq_self)

lemma xor_cancel_right: "(a :: 'a::len word) XOR c = b XOR c \<longleftrightarrow> a = b"
  by (metis xor.assoc xor.right_neutral xor_self_eq)

lemma xor_cancel_left: "(c :: 'a::len word) XOR a = c XOR b \<longleftrightarrow> a = b"
  by (simp add: xor_cancel_right xor.commute [of c])

lemma unat_of_nat_u64 [widths]: "n < 18446744073709551616 \<Longrightarrow> unat (of_nat n :: u64) = n"
  by (simp add: unat_of_nat take_bit_nat_eq_self)

lemma unat_add_u32 [widths]:
  "unat x + unat y < 4294967296 \<Longrightarrow> unat (x + y :: u32) = unat x + unat y"
  by (simp add: unat_word_ariths)

lemma unat_add_u64 [widths]:
  "unat x + unat y < 18446744073709551616 \<Longrightarrow> unat (x + y :: u64) = unat x + unat y"
  by (simp add: unat_word_ariths)

lemma unat_diff_word [widths]: "y \<le> x \<Longrightarrow> unat (x - y :: 'a::len word) = unat x - unat y"
  by (rule unat_sub)

lemma unat_ucast_u32_u64 [simp]: "unat (ucast (x :: u32) :: u64) = unat x"
proof -
  have "unat x < 2 ^ 64" using unat_u32_bound [of x] by (simp del: unat_u32_bound)
  then show ?thesis by (simp add: unsigned_ucast_eq take_bit_nat_eq_self)
qed

lemma ucast_of_nat_u32: "n < 4294967296 \<Longrightarrow> ucast (of_nat n :: u32) = (of_nat n :: u64)"
  by (rule unsigned_word_eqI [where ?'a = nat]) (simp add: unat_of_nat_u32 unat_of_nat_u64)

lemma ucast_of_nat_minus_1:
  "n < 4294967296 \<Longrightarrow> 0 < n \<Longrightarrow> ucast (of_nat n - 1 :: u32) = (of_nat n - 1 :: u64)"
  using ucast_of_nat_u32 [of "n - 1"] by simp

lemma word_of_unat: "unat x = n \<Longrightarrow> (x :: 'a::len word) = of_nat n"
  by auto

section \<open>Byte buffers\<close>

text \<open>\<^verbatim>\<open>Slice(p + off, n)\<close>: \<open>n\<close> bytes from position \<open>off\<close>.\<close>

definition slice_at :: "'a list \<Rightarrow> nat \<Rightarrow> nat \<Rightarrow> 'a list" where
  "slice_at xs off n = take n (drop off xs)"

text \<open>\<^verbatim>\<open>memcpy(p + off, bs)\<close>, or a run of stores: the bytes from \<open>off\<close> on are replaced.\<close>

definition write_at :: "'a list \<Rightarrow> nat \<Rightarrow> 'a list \<Rightarrow> 'a list" where
  "write_at xs off bs = take off xs @ bs @ drop (off + length bs) xs"

text \<open>\<^verbatim>\<open>std::vector::resize(n, v)\<close>.\<close>

definition resize :: "nat \<Rightarrow> 'a \<Rightarrow> 'a list \<Rightarrow> 'a list" where
  "resize n v xs = take n xs @ replicate (n - length xs) v"

lemma length_resize [simp]: "length (resize n v xs) = n"
  by (simp add: resize_def)

lemma resize_id [simp]: "resize (length xs) v xs = xs"
  by (simp add: resize_def)

lemma resize_shorter: "n \<le> length xs \<Longrightarrow> resize n v xs = take n xs"
  by (simp add: resize_def)

lemma nth_resize: "i < n \<Longrightarrow> resize n v xs ! i = (if i < length xs then xs ! i else v)"
  by (auto simp: resize_def nth_append)

lemma length_slice_at [simp]: "off + n \<le> length xs \<Longrightarrow> length (slice_at xs off n) = n"
  by (simp add: slice_at_def)

lemma length_write_at [simp]:
  "off + length bs \<le> length xs \<Longrightarrow> length (write_at xs off bs) = length xs"
  by (simp add: write_at_def)

lemma slice_at_write_at_same [layout]:
  "off \<le> length xs \<Longrightarrow> n = length bs \<Longrightarrow> slice_at (write_at xs off bs) off n = bs"
  by (simp add: slice_at_def write_at_def)

lemma slice_at_write_at_before [layout]:
  "o1 + n \<le> off \<Longrightarrow> off \<le> length xs \<Longrightarrow> slice_at (write_at xs off bs) o1 n = slice_at xs o1 n"
  by (simp add: slice_at_def write_at_def drop_take)

lemma slice_at_write_at_after [layout]:
  "off + length bs \<le> o1 \<Longrightarrow> off \<le> length xs \<Longrightarrow>
   slice_at (write_at xs off bs) o1 n = slice_at xs o1 n"
  by (simp add: slice_at_def write_at_def)

lemma take_write_at_before [simp]: "off \<le> length xs \<Longrightarrow> take off (write_at xs off bs) = take off xs"
  by (simp add: write_at_def)

lemma drop_write_at [layout]:
  "off + length bs \<le> k \<Longrightarrow> off \<le> length xs \<Longrightarrow> drop k (write_at xs off bs) = drop k xs"
  by (simp add: write_at_def)

lemma slice_at_append_left: "off + n \<le> length xs \<Longrightarrow> slice_at (xs @ ys) off n = slice_at xs off n"
  by (simp add: slice_at_def)

lemma nth_write_at:
  "off + length bs \<le> length xs \<Longrightarrow> i < length xs \<Longrightarrow>
   write_at xs off bs ! i = (if off \<le> i \<and> i < off + length bs then bs ! (i - off) else xs ! i)"
  by (auto simp: write_at_def nth_append min_def)

lemma slice_at_whole [simp]: "slice_at xs 0 (length xs) = xs"
  by (simp add: slice_at_def)

lemma write_at_front: "write_at out 0 bs = bs @ drop (length bs) out"
  by (simp add: write_at_def)

lemma write_at_next: "length pre = k \<Longrightarrow> write_at (pre @ drop k out) k bs = (pre @ bs) @ drop (k + length bs) out"
  by (simp add: write_at_def add.commute)

section \<open>Binary search\<close>

text \<open>
  The loop of \<^verbatim>\<open>std::lower_bound\<close> and \<^verbatim>\<open>std::upper_bound\<close>: halve the
  range, keep the half in which the predicate stops holding.
\<close>

fun partition_loop :: "('a \<Rightarrow> bool) \<Rightarrow> 'a list \<Rightarrow> nat \<Rightarrow> nat \<Rightarrow> nat" where
  "partition_loop q xs first len =
     (if len = 0 then first
      else let half = len div 2; mid = first + half
           in if q (xs ! mid) then partition_loop q xs (mid + 1) (len - half - 1)
              else partition_loop q xs first half)"

declare partition_loop.simps [simp del]

definition lower_bound :: "('a \<Rightarrow> 'b \<Rightarrow> bool) \<Rightarrow> 'a list \<Rightarrow> 'b \<Rightarrow> nat" where
  "lower_bound cmp xs v = partition_loop (\<lambda>e. cmp e v) xs 0 (length xs)"

definition upper_bound :: "('b \<Rightarrow> 'a \<Rightarrow> bool) \<Rightarrow> 'a list \<Rightarrow> 'b \<Rightarrow> nat" where
  "upper_bound cmp xs v = partition_loop (\<lambda>e. \<not> cmp v e) xs 0 (length xs)"

text \<open>A predicate that holds on a prefix of the list and nowhere else.\<close>

definition partitioned :: "('a \<Rightarrow> bool) \<Rightarrow> 'a list \<Rightarrow> bool" where
  "partitioned q xs = sorted_wrt (\<lambda>a b. q b \<longrightarrow> q a) xs"

lemma partitioned_takeWhile:
  assumes "partitioned q xs" and "i < length xs"
  shows "q (xs ! i) \<longleftrightarrow> i < length (takeWhile q xs)"
proof
  assume qi: "q (xs ! i)"
  show "i < length (takeWhile q xs)"
  proof (rule ccontr)
    assume neg: "\<not> i < length (takeWhile q xs)"
    let ?k = "length (takeWhile q xs)"
    have k: "?k < length xs" using neg assms(2) by simp
    then have "\<not> q (xs ! ?k)" by (rule nth_length_takeWhile)
    moreover have "q (xs ! ?k)"
      using assms neg qi k
      by (cases "?k = i") (auto simp: partitioned_def sorted_wrt_iff_nth_less linorder_not_less
        dest: le_neq_implies_less)
    ultimately show False by simp
  qed
next
  assume i: "i < length (takeWhile q xs)"
  then have "q (takeWhile q xs ! i)"
    using nth_mem [OF i] by (blast dest: set_takeWhileD)
  with i show "q (xs ! i)" by (simp add: takeWhile_nth)
qed

lemma partition_loop_invar:
  assumes "partitioned q xs" and "first \<le> length (takeWhile q xs)"
    and "length (takeWhile q xs) \<le> first + len" and "first + len \<le> length xs"
  shows "partition_loop q xs first len = length (takeWhile q xs)"
  using assms
proof (induction q xs first len rule: partition_loop.induct)
  case (1 q xs first len)
  show ?case
  proof (cases "len = 0")
    case True
    with 1 show ?thesis by (simp add: partition_loop.simps)
  next
    case False
    define half where "half = len div 2"
    have mid: "first + half < length xs" using False 1 by (simp add: half_def)
    show ?thesis
    proof (cases "q (xs ! (first + half))")
      case True
      then have "first + half < length (takeWhile q xs)"
        using partitioned_takeWhile [OF 1(3) mid] by simp
      moreover have "first + half + 1 + (len - half - 1) = first + len"
        using False by (simp add: half_def)
      ultimately have "partition_loop q xs (first + half + 1) (len - half - 1)
          = length (takeWhile q xs)"
        using 1(1) [of half "first + half"] False True 1(3-) by (simp add: half_def)
      then show ?thesis using True False
        by (subst partition_loop.simps) (simp add: half_def Let_def)
    next
      case nq: False
      then have "length (takeWhile q xs) \<le> first + half"
        using partitioned_takeWhile [OF 1(3) mid] by simp
      then have "partition_loop q xs first half = length (takeWhile q xs)"
        using 1(2) [of half "first + half"] False nq 1(3-) by (simp add: half_def)
      then show ?thesis using nq False
        by (subst partition_loop.simps) (simp add: half_def Let_def)
    qed
  qed
qed

lemma partition_loop_le: "partition_loop q xs first len \<le> first + len"
proof (induction q xs first len rule: partition_loop.induct)
  case (1 q xs first len)
  define half where "half = len div 2"
  show ?case
  proof (cases "len = 0")
    case False
    have eq: "first + half + 1 + (len - half - 1) = first + len"
      using False by (simp add: half_def)
    show ?thesis
    proof (cases "q (xs ! (first + half))")
      case True
      then have "partition_loop q xs first len = partition_loop q xs (first + half + 1) (len - half - 1)"
        using False by (subst partition_loop.simps) (simp add: half_def Let_def)
      moreover have "\<dots> \<le> first + half + 1 + (len - half - 1)"
        by (rule 1(1)) (use False True in \<open>simp_all add: half_def\<close>)
      ultimately show ?thesis unfolding eq by simp
    next
      case nq: False
      then have "partition_loop q xs first len = partition_loop q xs first half"
        using False by (subst partition_loop.simps) (simp add: half_def Let_def)
      moreover have "\<dots> \<le> first + half"
        by (rule 1(2)) (use False nq in \<open>simp_all add: half_def\<close>)
      ultimately show ?thesis by (simp add: half_def)
    qed
  qed (simp add: partition_loop.simps)
qed

lemma partition_loop_below:
  "0 < len \<Longrightarrow> \<not> q (xs ! (first + len - 1)) \<Longrightarrow> partition_loop q xs first len < first + len"
proof (induction q xs first len rule: partition_loop.induct)
  case (1 q xs first len)
  define half where "half = len div 2"
  show ?case
  proof (cases "q (xs ! (first + half))")
    case True
    have "half < len" using 1(3) by (simp add: half_def)
    moreover have "len \<noteq> half + 1" using True 1(4) by auto
    ultimately have ne: "0 < len - half - 1" by simp
    have eq: "first + half + 1 + (len - half - 1) = first + len"
      using \<open>half < len\<close> by simp
    have "partition_loop q xs first len = partition_loop q xs (first + half + 1) (len - half - 1)"
      using True 1(3) by (subst partition_loop.simps) (simp add: half_def Let_def)
    moreover have "\<dots> < first + half + 1 + (len - half - 1)"
      by (rule 1(1)) (use 1(3,4) True ne eq in \<open>simp_all add: half_def\<close>)
    ultimately show ?thesis unfolding eq by simp
  next
    case False
    then have "partition_loop q xs first len = partition_loop q xs first half"
      using 1(3) by (subst partition_loop.simps) (simp add: half_def Let_def)
    moreover have "partition_loop q xs first half \<le> first + half"
      by (rule partition_loop_le)
    ultimately show ?thesis using 1(3) by (simp add: half_def)
  qed
qed

lemma lower_bound_last:
  "xs \<noteq> [] \<Longrightarrow> \<not> cmp (last xs) v \<Longrightarrow> lower_bound cmp xs v < length xs"
  using partition_loop_below [of "length xs" "\<lambda>e. cmp e v" xs 0]
  by (simp add: lower_bound_def last_conv_nth)

lemma lower_bound_eq:
  "partitioned (\<lambda>e. cmp e v) xs \<Longrightarrow> lower_bound cmp xs v = length (takeWhile (\<lambda>e. cmp e v) xs)"
  by (simp add: lower_bound_def partition_loop_invar length_takeWhile_le)

lemma upper_bound_eq:
  "partitioned (\<lambda>e. \<not> cmp v e) xs \<Longrightarrow>
   upper_bound cmp xs v = length (takeWhile (\<lambda>e. \<not> cmp v e) xs)"
  by (simp add: upper_bound_def partition_loop_invar length_takeWhile_le)

end
