(* ===== verification/Base.thy ===== *)
theory Base
  imports Prelude
begin

text \<open>
  The leaves of \<^verbatim>\<open>src/src/base\<close>: the wire-visible error codes and the
  \<^verbatim>\<open>Result\<close> type, the time constants, slices, and the little-endian loads and
  stores, with the lemmas that loads invert stores and read only the bytes in front of them.
  The growable buffer and CRC-32C have theories of their own.
\<close>

section \<open>Error codes and results (\<^verbatim>\<open>error.h\<close>, \<^verbatim>\<open>result.h\<close>)\<close>

datatype ErrorCode =
    kNone
  | kNotLeader | kRequestTimedOut | kNotEnoughReplicas | kWouldBlock
  | kOffsetOutOfRange | kCorruptRecord | kInvalidProducerEpoch | kMessageTooLarge
  | kInvalidRequest | kUnsupportedVersion | kIoError | kClosed | kNotFound | kInvalidArgument

fun code_value :: "ErrorCode \<Rightarrow> u16" where
  "code_value kNone = 0"
| "code_value kNotLeader = 1"
| "code_value kRequestTimedOut = 2"
| "code_value kNotEnoughReplicas = 3"
| "code_value kWouldBlock = 4"
| "code_value kOffsetOutOfRange = 100"
| "code_value kCorruptRecord = 101"
| "code_value kInvalidProducerEpoch = 102"
| "code_value kMessageTooLarge = 103"
| "code_value kInvalidRequest = 104"
| "code_value kUnsupportedVersion = 105"
| "code_value kIoError = 106"
| "code_value kClosed = 107"
| "code_value kNotFound = 108"
| "code_value kInvalidArgument = 109"

definition is_retryable :: "ErrorCode \<Rightarrow> bool" where
  "is_retryable code \<longleftrightarrow> code_value code > 0 \<and> code_value code < 100"

fun error_to_string :: "ErrorCode \<Rightarrow> string" where
  "error_to_string kNone = ''NONE''"
| "error_to_string kNotLeader = ''NOT_LEADER''"
| "error_to_string kRequestTimedOut = ''REQUEST_TIMED_OUT''"
| "error_to_string kNotEnoughReplicas = ''NOT_ENOUGH_REPLICAS''"
| "error_to_string kWouldBlock = ''WOULD_BLOCK''"
| "error_to_string kOffsetOutOfRange = ''OFFSET_OUT_OF_RANGE''"
| "error_to_string kCorruptRecord = ''CORRUPT_RECORD''"
| "error_to_string kInvalidProducerEpoch = ''INVALID_PRODUCER_EPOCH''"
| "error_to_string kMessageTooLarge = ''MESSAGE_TOO_LARGE''"
| "error_to_string kInvalidRequest = ''INVALID_REQUEST''"
| "error_to_string kUnsupportedVersion = ''UNSUPPORTED_VERSION''"
| "error_to_string kIoError = ''IO_ERROR''"
| "error_to_string kClosed = ''CLOSED''"
| "error_to_string kNotFound = ''NOT_FOUND''"
| "error_to_string kInvalidArgument = ''INVALID_ARGUMENT''"

text \<open>
  \<^verbatim>\<open>Result<T>\<close> carries either a value or a code that is not \<^verbatim>\<open>kNone\<close>: the
  left injection is the failure. \<^verbatim>\<open>Status\<close> is a result without a value.
\<close>

type_synonym 'a result = "ErrorCode + 'a"
type_synonym status = "unit result"

abbreviation fail :: "ErrorCode \<Rightarrow> 'a result" where
  "fail code \<equiv> Inl code"

definition result_ok :: "'a result \<Rightarrow> bool" where
  "result_ok r = (case r of Inl _ \<Rightarrow> False | Inr _ \<Rightarrow> True)"

definition result_error :: "'a result \<Rightarrow> ErrorCode" where
  "result_error r = (case r of Inl e \<Rightarrow> e | Inr _ \<Rightarrow> kNone)"

definition value_or :: "'a result \<Rightarrow> 'a \<Rightarrow> 'a" where
  "value_or r fallback = (case r of Inl _ \<Rightarrow> fallback | Inr v \<Rightarrow> v)"

section \<open>Time (\<^verbatim>\<open>types.h\<close>)\<close>

text \<open>Nanoseconds are a signed 64-bit integer; \<open>sint\<close> reads them.\<close>

type_synonym Nanos = i64

definition kNanosPerMicro :: Nanos where [consts_of]: "kNanosPerMicro = 1000"
definition kNanosPerMilli :: Nanos where [consts_of]: "kNanosPerMilli = 1000000"
definition kNanosPerSecond :: Nanos where [consts_of]: "kNanosPerSecond = 1000000000"
definition kNoTimeout :: Nanos where [consts_of]: "kNoTimeout = - 1"

definition micros :: "i64 \<Rightarrow> Nanos" where "micros n = n * kNanosPerMicro"
definition millis :: "i64 \<Rightarrow> Nanos" where "millis n = n * kNanosPerMilli"
definition seconds :: "i64 \<Rightarrow> Nanos" where "seconds n = n * kNanosPerSecond"

section \<open>Slices (\<^verbatim>\<open>slice.h\<close>)\<close>

text \<open>
  A slice is the list of the bytes it views. \<^verbatim>\<open>subslice\<close> clamps the count to what is
  there; \<open>None\<close> for the count is \<^verbatim>\<open>npos\<close>. An offset past the end violates
  the assertion of the source; here it gives the empty view.
\<close>

definition subslice :: "bytes \<Rightarrow> nat \<Rightarrow> nat option \<Rightarrow> bytes" where
  "subslice s offset count =
     (let avail = length s - offset
      in slice_at s offset (case count of None \<Rightarrow> avail
                            | Some c \<Rightarrow> (if c < avail then c else avail)))"

definition slice_eq :: "bytes \<Rightarrow> bytes \<Rightarrow> bool" where
  "slice_eq a b \<longleftrightarrow> (if length a \<noteq> length b then False
                     else if length a = 0 then True else a = b)"

lemma subslice_eq [simp]: "subslice s offset (Some c) = take c (drop offset s)"
  by (auto simp: subslice_def slice_at_def Let_def)

lemma slice_eq_iff: "slice_eq a b \<longleftrightarrow> a = b"
  by (auto simp: slice_eq_def)

section \<open>Little-endian loads and stores (\<^verbatim>\<open>endian.h\<close>)\<close>

definition store_u16_le :: "u16 \<Rightarrow> bytes" where
  "store_u16_le v = [ucast (v AND 0xFF), ucast (drop_bit 8 v AND 0xFF)]"

definition store_u32_le :: "u32 \<Rightarrow> bytes" where
  "store_u32_le v =
     [ucast (v AND 0xFF), ucast (drop_bit 8 v AND 0xFF),
      ucast (drop_bit 16 v AND 0xFF), ucast (drop_bit 24 v AND 0xFF)]"

definition store_u64_le :: "u64 \<Rightarrow> bytes" where
  "store_u64_le v =
     store_u32_le (ucast (v AND 0xFFFFFFFF)) @ store_u32_le (ucast (drop_bit 32 v AND 0xFFFFFFFF))"

definition store_i64_le :: "i64 \<Rightarrow> bytes" where
  "store_i64_le v = store_u64_le v"

text \<open>The loads read from the front of the bytes they are given, as the code does from \<^verbatim>\<open>p\<close>.\<close>

definition load_u16_le :: "bytes \<Rightarrow> u16" where
  "load_u16_le p = ucast (p ! 0) OR push_bit 8 (ucast (p ! 1))"

definition load_u32_le :: "bytes \<Rightarrow> u32" where
  "load_u32_le p =
     ucast (p ! 0) OR push_bit 8 (ucast (p ! 1)) OR
     push_bit 16 (ucast (p ! 2)) OR push_bit 24 (ucast (p ! 3))"

definition load_u64_le :: "bytes \<Rightarrow> u64" where
  "load_u64_le p = ucast (load_u32_le p) OR push_bit 32 (ucast (load_u32_le (drop 4 p)))"

definition load_i64_le :: "bytes \<Rightarrow> i64" where
  "load_i64_le p = load_u64_le p"

lemma length_store [simp]:
  "length (store_u16_le v16) = 2" "length (store_u32_le v32) = 4"
  "length (store_u64_le v64) = 8" "length (store_i64_le w64) = 8"
  by (simp_all add: store_u16_le_def store_u32_le_def store_u64_le_def store_i64_le_def)

lemma load_store_u16 [layout]: "load_u16_le (store_u16_le v @ rest) = v"
  unfolding load_u16_le_def store_u16_le_def mask8_eq
  by (rule bit_word_eqI, rename_tac n, case_tac "n < 8") (auto simp: bit_simps)

lemma load_store_u32 [layout]: "load_u32_le (store_u32_le v @ rest) = v"
  unfolding load_u32_le_def store_u32_le_def mask8_eq
  by (rule bit_word_eqI, rename_tac n, case_tac "n < 8"; case_tac "n < 16"; case_tac "n < 24")
    (auto simp: bit_simps)

lemma load_store_u64 [layout]: "load_u64_le (store_u64_le v @ rest) = v"
proof -
  have tl: "drop 4 (store_u64_le v @ rest) = store_u32_le (ucast (drop_bit 32 v AND 0xFFFFFFFF)) @ rest"
    by (simp add: store_u64_le_def)
  have hd: "load_u32_le (store_u64_le v @ rest) = ucast (v AND 0xFFFFFFFF)"
    by (simp add: store_u64_le_def load_store_u32)
  show ?thesis
    unfolding load_u64_le_def tl hd load_store_u32 mask32_eq
    by (rule bit_word_eqI, rename_tac n, case_tac "n < 32") (auto simp: bit_simps)
qed

lemma load_store_i64 [layout]: "load_i64_le (store_i64_le v @ rest) = v"
  by (simp add: load_i64_le_def store_i64_le_def load_store_u64)

lemma load_store_exact [layout]:
  "load_u16_le (store_u16_le v16) = v16" "load_u32_le (store_u32_le v32) = v32"
  "load_u64_le (store_u64_le v64) = v64" "load_i64_le (store_i64_le w64) = w64"
  using load_store_u16 [of v16 "[]"] load_store_u32 [of v32 "[]"] load_store_u64 [of v64 "[]"]
    load_store_i64 [of w64 "[]"]
  by simp_all

lemma store_load_u16: "length p = 2 \<Longrightarrow> store_u16_le (load_u16_le p) = p"
proof -
  assume "length p = 2"
  then obtain a b where p: "p = [a, b]"
    by (auto simp: numeral_eq_Suc length_Suc_conv)
  show ?thesis
    unfolding p load_u16_le_def store_u16_le_def mask8_eq
    by simp (intro conjI; rule bit_word_eqI; auto simp: bit_simps dest: bit_imp_le_length)
qed

lemma store_load_u32: "length p = 4 \<Longrightarrow> store_u32_le (load_u32_le p) = p"
proof -
  assume "length p = 4"
  then obtain a b c d where p: "p = [a, b, c, d]"
    by (auto simp: numeral_eq_Suc length_Suc_conv)
  show ?thesis
    unfolding p load_u32_le_def store_u32_le_def mask8_eq
    by simp (intro conjI; rule bit_word_eqI; auto simp: bit_simps dest: bit_imp_le_length)
qed

lemma store_load_u64: "length p = 8 \<Longrightarrow> store_u64_le (load_u64_le p) = p"
proof -
  assume len: "length p = 8"
  let ?lo = "load_u32_le p" and ?hi = "load_u32_le (drop 4 p)"
  have lo: "ucast (load_u64_le p AND 0xFFFFFFFF) = ?lo"
    unfolding load_u64_le_def mask32_eq by (rule bit_word_eqI) (auto simp: bit_simps)
  have hi: "ucast (drop_bit 32 (load_u64_le p) AND 0xFFFFFFFF) = ?hi"
    unfolding load_u64_le_def mask32_eq
    by (rule bit_word_eqI) (auto simp: bit_simps dest: bit_imp_le_length)
  have "store_u64_le (load_u64_le p) = store_u32_le ?lo @ store_u32_le ?hi"
    unfolding store_u64_le_def lo hi ..
  also have "?lo = load_u32_le (take 4 p)"
    by (simp add: load_u32_le_def)
  finally show ?thesis using len by (simp add: store_load_u32)
qed

lemma load_u32_le_take: "4 \<le> n \<Longrightarrow> load_u32_le (take n p) = load_u32_le p"
  by (simp add: load_u32_le_def)

lemma load_u16_le_take: "2 \<le> n \<Longrightarrow> load_u16_le (take n p) = load_u16_le p"
  by (simp add: load_u16_le_def)

lemma load_u64_le_take: "8 \<le> n \<Longrightarrow> load_u64_le (take n p) = load_u64_le p"
  by (simp add: load_u64_le_def load_u32_le_def drop_take)

lemmas load_take = load_u16_le_take load_u32_le_take load_u64_le_take

lemma load_u32_le_append: "4 \<le> length p \<Longrightarrow> load_u32_le (p @ q) = load_u32_le p"
  using load_u32_le_take [of "length p" "p @ q"] by simp

lemma load_u16_le_append: "2 \<le> length p \<Longrightarrow> load_u16_le (p @ q) = load_u16_le p"
  using load_u16_le_take [of "length p" "p @ q"] by simp

lemma load_u64_le_append: "8 \<le> length p \<Longrightarrow> load_u64_le (p @ q) = load_u64_le p"
  using load_u64_le_take [of "length p" "p @ q"] by simp

lemmas load_append = load_u16_le_append load_u32_le_append load_u64_le_append

end
