(* ===== verification/Buffer.thy ===== *)
theory Buffer
  imports Base
begin

text \<open>
  \<^verbatim>\<open>src/src/base/buffer.h\<close>: the growable buffer that bytes are appended to at the
  back and consumed from at the front. Its contract is a byte queue, stated as the locale
  \<open>byte_stream\<close>; the interpretation \<open>buf\<close> shows that \<^verbatim>\<open>Buffer\<close>, with
  its consumed prefix and its compaction, meets it.
\<close>

section \<open>The contract\<close>

locale byte_stream =
  fixes contents :: "'b \<Rightarrow> bytes"
    and valid :: "'b \<Rightarrow> bool"
    and fresh :: 'b
    and put :: "bytes \<Rightarrow> 'b \<Rightarrow> 'b"
    and drain :: "nat \<Rightarrow> 'b \<Rightarrow> 'b"
  assumes fresh_valid: "valid fresh"
    and fresh_contents: "contents fresh = []"
    and put_valid: "valid b \<Longrightarrow> valid (put s b)"
    and put_contents: "valid b \<Longrightarrow> contents (put s b) = contents b @ s"
    and drain_valid: "valid b \<Longrightarrow> n \<le> length (contents b) \<Longrightarrow> valid (drain n b)"
    and drain_contents: "valid b \<Longrightarrow> n \<le> length (contents b) \<Longrightarrow> contents (drain n b) = drop n (contents b)"
begin

lemma put_drain_all:
  "valid b \<Longrightarrow> contents b = [] \<Longrightarrow> contents (drain (length s) (put s b)) = []"
  by (simp add: put_valid put_contents drain_contents)

lemma fold_put_contents:
  "valid b \<Longrightarrow> valid (fold put ss b) \<and> contents (fold put ss b) = contents b @ concat ss"
  by (induction ss arbitrary: b) (simp_all add: put_valid put_contents)

lemma put_drain_commute:
  "valid b \<Longrightarrow> n \<le> length (contents b) \<Longrightarrow>
   contents (put s (drain n b)) = contents (drain n (put s b))"
  by (simp add: put_valid put_contents drain_valid drain_contents)

end

section \<open>The buffer\<close>

record Buffer =
  buf_bytes :: bytes
  buf_read_pos :: nat

definition Buffer_new :: Buffer where
  "Buffer_new = \<lparr>buf_bytes = [], buf_read_pos = 0\<rparr>"

definition Buffer_size :: "Buffer \<Rightarrow> nat" where
  "Buffer_size b = length (buf_bytes b) - buf_read_pos b"

definition Buffer_empty :: "Buffer \<Rightarrow> bool" where
  "Buffer_empty b \<longleftrightarrow> Buffer_size b = 0"

text \<open>\<^verbatim>\<open>data()\<close> and \<^verbatim>\<open>slice()\<close>: the unread bytes.\<close>

definition Buffer_slice :: "Buffer \<Rightarrow> bytes" where
  "Buffer_slice b = slice_at (buf_bytes b) (buf_read_pos b) (Buffer_size b)"

definition Buffer_clear :: "Buffer \<Rightarrow> Buffer" where
  "Buffer_clear b = b\<lparr>buf_bytes := [], buf_read_pos := 0\<rparr>"

text \<open>The \<^verbatim>\<open>memmove\<close> of the unread bytes to the front.\<close>

definition Buffer_compact :: "Buffer \<Rightarrow> Buffer" where
  "Buffer_compact b =
     (if buf_read_pos b = 0 then b
      else let remaining = length (buf_bytes b) - buf_read_pos b;
               moved = (if remaining > 0
                        then write_at (buf_bytes b) 0 (slice_at (buf_bytes b) (buf_read_pos b) remaining)
                        else buf_bytes b)
           in b\<lparr>buf_bytes := resize remaining 0 moved, buf_read_pos := 0\<rparr>)"

definition Buffer_consume :: "nat \<Rightarrow> Buffer \<Rightarrow> Buffer" where
  "Buffer_consume n b =
     (let b' = b\<lparr>buf_read_pos := buf_read_pos b + n\<rparr>
      in if buf_read_pos b' = length (buf_bytes b') then Buffer_clear b'
         else if buf_read_pos b' * 2 \<ge> length (buf_bytes b') then Buffer_compact b'
         else b')"

definition Buffer_append :: "bytes \<Rightarrow> Buffer \<Rightarrow> Buffer" where
  "Buffer_append s b = (if s = [] then b else b\<lparr>buf_bytes := buf_bytes b @ s\<rparr>)"

definition append_u8 :: "u8 \<Rightarrow> Buffer \<Rightarrow> Buffer" where
  "append_u8 v b = b\<lparr>buf_bytes := buf_bytes b @ [v]\<rparr>"

text \<open>
  \<^verbatim>\<open>append_fixed<N>\<close>: grow by \<open>N\<close> zero bytes, then store over them.
\<close>

definition append_fixed :: "nat \<Rightarrow> bytes \<Rightarrow> Buffer \<Rightarrow> Buffer" where
  "append_fixed n store b =
     (let old = length (buf_bytes b)
      in b\<lparr>buf_bytes := write_at (resize (old + n) 0 (buf_bytes b)) old store\<rparr>)"

definition append_u16_le :: "u16 \<Rightarrow> Buffer \<Rightarrow> Buffer" where
  "append_u16_le v b = append_fixed 2 (store_u16_le v) b"

definition append_u32_le :: "u32 \<Rightarrow> Buffer \<Rightarrow> Buffer" where
  "append_u32_le v b = append_fixed 4 (store_u32_le v) b"

definition append_u64_le :: "u64 \<Rightarrow> Buffer \<Rightarrow> Buffer" where
  "append_u64_le v b = append_fixed 8 (store_u64_le v) b"

definition append_i64_le :: "i64 \<Rightarrow> Buffer \<Rightarrow> Buffer" where
  "append_i64_le v b = append_fixed 8 (store_i64_le v) b"

text \<open>
  \<^verbatim>\<open>append_uninitialized\<close> hands back a writable view of the \<open>n\<close> new bytes; what the
  caller puts there is the \<open>fill\<close> argument, of length at most \<open>n\<close>, and the rest keeps
  the zeros of \<^verbatim>\<open>resize\<close>.
\<close>

definition append_uninitialized :: "nat \<Rightarrow> bytes \<Rightarrow> Buffer \<Rightarrow> Buffer" where
  "append_uninitialized n fill b =
     (let old = length (buf_bytes b)
      in b\<lparr>buf_bytes := write_at (resize (old + n) 0 (buf_bytes b)) old fill\<rparr>)"

definition shrink_by :: "nat \<Rightarrow> Buffer \<Rightarrow> Buffer" where
  "shrink_by n b = b\<lparr>buf_bytes := resize (length (buf_bytes b) - n) 0 (buf_bytes b)\<rparr>"

section \<open>The buffer meets the contract\<close>

definition Buffer_ok :: "Buffer \<Rightarrow> bool" where
  "Buffer_ok b \<longleftrightarrow> buf_read_pos b \<le> length (buf_bytes b)"

lemma Buffer_slice_eq: "Buffer_slice b = drop (buf_read_pos b) (buf_bytes b)"
  by (simp add: Buffer_slice_def slice_at_def Buffer_size_def)

lemma length_Buffer_slice: "length (Buffer_slice b) = Buffer_size b"
  by (simp add: Buffer_slice_eq Buffer_size_def)

lemma Buffer_new_simps [simp]: "Buffer_ok Buffer_new" "Buffer_slice Buffer_new = []"
  by (simp_all add: Buffer_ok_def Buffer_new_def Buffer_slice_eq)

lemma Buffer_clear_simps [simp]: "Buffer_ok (Buffer_clear b)" "Buffer_slice (Buffer_clear b) = []"
  by (simp_all add: Buffer_ok_def Buffer_clear_def Buffer_slice_eq)

lemma Buffer_compact_bytes:
  "Buffer_ok b \<Longrightarrow> buf_bytes (Buffer_compact b) = drop (buf_read_pos b) (buf_bytes b) \<and>
   buf_read_pos (Buffer_compact b) = 0"
  by (auto simp: Buffer_compact_def Buffer_ok_def Let_def resize_def write_at_def slice_at_def)

lemma Buffer_consume_ok: "Buffer_ok b \<Longrightarrow> n \<le> Buffer_size b \<Longrightarrow> Buffer_ok (Buffer_consume n b)"
  using Buffer_compact_bytes [of "b\<lparr>buf_read_pos := buf_read_pos b + n\<rparr>"]
  by (auto simp: Buffer_consume_def Buffer_ok_def Buffer_size_def Let_def Buffer_clear_def)

lemma Buffer_consume_slice:
  "Buffer_ok b \<Longrightarrow> n \<le> Buffer_size b \<Longrightarrow> Buffer_slice (Buffer_consume n b) = drop n (Buffer_slice b)"
  using Buffer_compact_bytes [of "b\<lparr>buf_read_pos := buf_read_pos b + n\<rparr>"]
  by (auto simp: Buffer_consume_def Buffer_slice_eq Buffer_ok_def Buffer_size_def Let_def
      Buffer_clear_def add.commute)

lemma Buffer_append_ok: "Buffer_ok b \<Longrightarrow> Buffer_ok (Buffer_append s b)"
  by (simp add: Buffer_append_def Buffer_ok_def)

lemma Buffer_append_slice: "Buffer_ok b \<Longrightarrow> Buffer_slice (Buffer_append s b) = Buffer_slice b @ s"
  by (auto simp: Buffer_append_def Buffer_slice_eq Buffer_ok_def)

interpretation buf: byte_stream Buffer_slice Buffer_ok Buffer_new Buffer_append Buffer_consume
  by unfold_locales
    (simp_all add: Buffer_append_ok Buffer_append_slice Buffer_consume_ok Buffer_consume_slice
      length_Buffer_slice)

text \<open>The fixed-width appends and the two-step socket read are appends.\<close>

lemma append_fixed_eq: "length store = n \<Longrightarrow> append_fixed n store b = b\<lparr>buf_bytes := buf_bytes b @ store\<rparr>"
  by (simp add: append_fixed_def Let_def write_at_def resize_def)

lemma append_fixed_Buffer_append:
  "length store = n \<Longrightarrow> 0 < n \<Longrightarrow> append_fixed n store b = Buffer_append store b"
  by (auto simp: append_fixed_eq Buffer_append_def)

lemma append_le_eq:
  "append_u16_le v16 b = Buffer_append (store_u16_le v16) b"
  "append_u32_le v32 b = Buffer_append (store_u32_le v32) b"
  "append_u64_le v64 b = Buffer_append (store_u64_le v64) b"
  "append_i64_le w64 b = Buffer_append (store_i64_le w64) b"
  by (simp_all add: append_u16_le_def append_u32_le_def append_u64_le_def append_i64_le_def
      append_fixed_Buffer_append)

lemma append_uninitialized_zero:
  "append_uninitialized n [] b = b\<lparr>buf_bytes := buf_bytes b @ replicate n 0\<rparr>"
  by (simp add: append_uninitialized_def Let_def write_at_def resize_def)

lemma append_uninitialized_shrink:
  "length fill \<le> n \<Longrightarrow> shrink_by (n - length fill) (append_uninitialized n fill b) = Buffer_append fill b"
  by (auto simp: append_uninitialized_def shrink_by_def Buffer_append_def Let_def write_at_def resize_def)

end
