(* ===== verification/Wire.thy ===== *)
theory Wire
  imports Buffer
begin

text \<open>
  \<^verbatim>\<open>src/src/wire\<close>: API keys, the frame layout, and the incremental decoder. A frame
  is a length, a key, a version, a correlation id and a payload. The lemmas: a decoder fed an
  encoded frame gives it back and consuming it leaves what follows; while bytes of a frame are
  missing the decoder asks for more and touches nothing; and however a stream of frames is cut
  into reads, the receive loop delivers exactly those frames in order.
\<close>

section \<open>API keys (\<^verbatim>\<open>api.h\<close>)\<close>

text \<open>
  The enumeration has a fixed underlying type and the decoder casts any 16-bit value into it,
  so a key is a 16-bit word with named values.
\<close>

type_synonym ApiKey = u16

definition kProduce :: ApiKey where [consts_of]: "kProduce = 0"
definition kFetch :: ApiKey where [consts_of]: "kFetch = 1"
definition kMetadata :: ApiKey where [consts_of]: "kMetadata = 2"
definition kListOffsets :: ApiKey where [consts_of]: "kListOffsets = 3"
definition kOffsetCommit :: ApiKey where [consts_of]: "kOffsetCommit = 4"
definition kApiRequestVote :: ApiKey where [consts_of]: "kApiRequestVote = 100"
definition kApiAppendEntries :: ApiKey where [consts_of]: "kApiAppendEntries = 101"
definition kInstallSnapshot :: ApiKey where [consts_of]: "kInstallSnapshot = 102"
definition kEcho :: ApiKey where [consts_of]: "kEcho = 1000"

definition kApiVersion0 :: u16 where [consts_of]: "kApiVersion0 = 0"

definition is_broker_api :: "ApiKey \<Rightarrow> bool" where
  "is_broker_api key \<longleftrightarrow> key \<ge> 100 \<and> key < 1000"

definition api_to_string :: "ApiKey \<Rightarrow> string" where
  "api_to_string key =
     (if key = kProduce then ''Produce''
      else if key = kFetch then ''Fetch''
      else if key = kMetadata then ''Metadata''
      else if key = kListOffsets then ''ListOffsets''
      else if key = kOffsetCommit then ''OffsetCommit''
      else if key = kApiRequestVote then ''RequestVote''
      else if key = kApiAppendEntries then ''AppendEntries''
      else if key = kInstallSnapshot then ''InstallSnapshot''
      else if key = kEcho then ''Echo''
      else ''Unknown'')"

section \<open>Frames (\<^verbatim>\<open>frame.h\<close>, \<^verbatim>\<open>frame.cpp\<close>)\<close>

definition kLengthFieldBytes :: nat where [consts_of]: "kLengthFieldBytes = 4"
definition kHeaderBytes :: nat where [consts_of]: "kHeaderBytes = 8"
definition kFramePrefixBytes :: nat where
  [consts_of]: "kFramePrefixBytes = kLengthFieldBytes + kHeaderBytes"
definition kDefaultMaxFrameBytes :: u32 where
  [consts_of]: "kDefaultMaxFrameBytes = 16 * 1024 * 1024"

record FrameHeader =
  api_key :: ApiKey
  api_version :: u16
  correlation_id :: u32

definition encode_frame :: "FrameHeader \<Rightarrow> bytes \<Rightarrow> Buffer \<Rightarrow> Buffer" where
  "encode_frame header payload out =
     (let len = of_nat (kHeaderBytes + length payload) :: u32
      in Buffer_append payload
           (append_u32_le (correlation_id header)
             (append_u16_le (api_version header)
               (append_u16_le (api_key header)
                 (append_u32_le len out)))))"

text \<open>The decoder's only state is its limit.\<close>

record FrameDecoder =
  max_frame_bytes :: u32

definition FrameDecoder_bytes_needed :: "FrameDecoder \<Rightarrow> Buffer \<Rightarrow> nat" where
  "FrameDecoder_bytes_needed d buf =
     (if Buffer_size buf < kLengthFieldBytes then kLengthFieldBytes - Buffer_size buf
      else let len = load_u32_le (Buffer_slice buf);
               total = kLengthFieldBytes + unat len
           in if Buffer_size buf \<ge> total then 0 else total - Buffer_size buf)"

text \<open>
  \<^verbatim>\<open>next\<close>: a failure, \<open>None\<close> for "need more bytes", or the header and the payload view.
\<close>

definition FrameDecoder_next ::
  "FrameDecoder \<Rightarrow> Buffer \<Rightarrow> (FrameHeader \<times> bytes) option result" where
  "FrameDecoder_next d buf =
     (if Buffer_size buf < kLengthFieldBytes then Inr None
      else let data = Buffer_slice buf; len = load_u32_le data
           in if unat len < kHeaderBytes then fail kInvalidRequest
              else if len > max_frame_bytes d then fail kMessageTooLarge
              else let total = kLengthFieldBytes + unat len
                   in if Buffer_size buf < total then Inr None
                      else let p = drop kLengthFieldBytes data;
                               header = \<lparr>api_key = load_u16_le p,
                                         api_version = load_u16_le (drop 2 p),
                                         correlation_id = load_u32_le (drop 4 p)\<rparr>;
                               payload_size = unat len - kHeaderBytes
                           in Inr (Some (header, slice_at data kFramePrefixBytes payload_size)))"

definition FrameDecoder_consume_frame :: "FrameDecoder \<Rightarrow> Buffer \<Rightarrow> Buffer" where
  "FrameDecoder_consume_frame d buf =
     (if Buffer_size buf < kLengthFieldBytes then buf
      else let total = kLengthFieldBytes + unat (load_u32_le (Buffer_slice buf))
           in if Buffer_size buf < total then buf else Buffer_consume total buf)"

section \<open>The bytes of a frame\<close>

definition frame_bytes :: "FrameHeader \<Rightarrow> bytes \<Rightarrow> bytes" where
  "frame_bytes h p =
     store_u32_le (of_nat (kHeaderBytes + length p)) @ store_u16_le (api_key h) @
     store_u16_le (api_version h) @ store_u32_le (correlation_id h) @ p"

text \<open>A frame a peer with limit \<open>m\<close> accepts.\<close>

definition frame_fits :: "u32 \<Rightarrow> bytes \<Rightarrow> bool" where
  "frame_fits m p \<longleftrightarrow> kHeaderBytes + length p \<le> unat m"

lemma length_frame_bytes [simp]: "length (frame_bytes h p) = 12 + length p"
  by (simp add: frame_bytes_def)

lemma frame_fits_u32: "frame_fits m p \<Longrightarrow> unat (of_nat (8 + length p) :: u32) = 8 + length p"
  using unat_u32_bound [of m] unfolding frame_fits_def consts_of
  by (intro unat_of_nat_u32) (simp del: unat_u32_bound)

lemma encode_frame_append:
  "encode_frame h p out = Buffer_append p (Buffer_append (store_u32_le (correlation_id h))
     (Buffer_append (store_u16_le (api_version h)) (Buffer_append (store_u16_le (api_key h))
       (Buffer_append (store_u32_le (of_nat (kHeaderBytes + length p))) out))))"
  by (simp add: encode_frame_def append_le_eq)

lemma encode_frame_ok: "Buffer_ok b \<Longrightarrow> Buffer_ok (encode_frame h p b)"
  by (simp add: encode_frame_append buf.put_valid)

lemma encode_frame_slice:
  "Buffer_ok b \<Longrightarrow> Buffer_slice (encode_frame h p b) = Buffer_slice b @ frame_bytes h p"
  by (simp add: encode_frame_append buf.put_valid buf.put_contents frame_bytes_def)

lemma frame_length_field:
  "frame_fits m p \<Longrightarrow> unat (load_u32_le (frame_bytes h p @ rest)) = 8 + length p"
  using frame_fits_u32 [of m p] by (simp add: frame_bytes_def layout kHeaderBytes_def)

lemma frame_fields:
  "load_u16_le (drop 4 (frame_bytes h p @ rest)) = api_key h"
  "load_u16_le (drop 6 (frame_bytes h p @ rest)) = api_version h"
  "load_u32_le (drop 8 (frame_bytes h p @ rest)) = correlation_id h"
  "take (length p) (drop 12 (frame_bytes h p @ rest)) = p"
  by (simp_all add: frame_bytes_def layout)

lemma next_frame:
  assumes "Buffer_slice buf = frame_bytes h p @ rest" and "frame_fits (max_frame_bytes d) p"
  shows "FrameDecoder_next d buf = Inr (Some (h, p))"
proof -
  have size: "Buffer_size buf = 12 + length p + length rest"
    using assms(1) length_Buffer_slice [of buf] by simp
  have len: "unat (load_u32_le (Buffer_slice buf)) = 8 + length p"
    using assms by (simp add: frame_length_field)
  then have "\<not> load_u32_le (Buffer_slice buf) > max_frame_bytes d"
    using assms(2) by (simp add: word_less_nat_alt frame_fits_def kHeaderBytes_def)
  with size len show ?thesis
    using frame_fields [where h = h and p = p and rest = rest]
    by (simp add: FrameDecoder_next_def consts_of Let_def slice_at_def assms(1))
qed

lemma consume_frame:
  assumes "Buffer_ok buf" and "Buffer_slice buf = frame_bytes h p @ rest"
    and "frame_fits m p"
  shows "Buffer_ok (FrameDecoder_consume_frame d buf) \<and>
         Buffer_slice (FrameDecoder_consume_frame d buf) = rest"
proof -
  have size: "Buffer_size buf = 12 + length p + length rest"
    using assms(2) length_Buffer_slice [of buf] by simp
  have len: "unat (load_u32_le (Buffer_slice buf)) = 8 + length p"
    using assms by (simp add: frame_length_field)
  from size len have eq: "FrameDecoder_consume_frame d buf = Buffer_consume (12 + length p) buf"
    by (simp add: FrameDecoder_consume_frame_def consts_of Let_def)
  have le: "12 + length p \<le> length (Buffer_slice buf)"
    using assms(2) by simp
  show ?thesis
    using buf.drain_valid [OF assms(1) le] buf.drain_contents [OF assms(1) le] assms(2)
    by (simp add: eq)
qed

lemma next_prefix:
  assumes "Buffer_slice buf = take n (frame_bytes h p)" and "n < 12 + length p"
    and "frame_fits (max_frame_bytes d) p"
  shows "FrameDecoder_next d buf = Inr None"
proof (cases "n < 4")
  case True
  then show ?thesis
    using assms(1,2) length_Buffer_slice [of buf]
    by (simp add: FrameDecoder_next_def kLengthFieldBytes_def)
next
  case False
  have size: "Buffer_size buf = n"
    using assms(1,2) length_Buffer_slice [of buf] by simp
  have "load_u32_le (Buffer_slice buf) = load_u32_le (frame_bytes h p @ [])"
    using False by (simp add: assms(1) load_take)
  then have len: "unat (load_u32_le (Buffer_slice buf)) = 8 + length p"
    using frame_length_field [OF assms(3), of h "[]"] by simp
  then have "\<not> load_u32_le (Buffer_slice buf) > max_frame_bytes d"
    using assms(3) by (simp add: word_less_nat_alt frame_fits_def kHeaderBytes_def)
  then show ?thesis
    using size len assms(2) False by (simp add: FrameDecoder_next_def consts_of Let_def)
qed

section \<open>Streams of frames\<close>

text \<open>
  The way a connection uses the decoder: after each read, take frames while there are whole
  ones, handing each on and consuming it. The result is the frames handed on, whether the
  stream is still sound, and the buffer.
\<close>

lemma Buffer_size_consume: "0 < n \<Longrightarrow> n \<le> Buffer_size b \<Longrightarrow> Buffer_size (Buffer_consume n b) = Buffer_size b - n"
  using Buffer_consume_slice [of b n] length_Buffer_slice [of b] length_Buffer_slice [of "Buffer_consume n b"]
  by (auto simp: Buffer_ok_def Buffer_size_def)

lemma next_Some_consume:
  "FrameDecoder_next d buf = Inr (Some f) \<Longrightarrow>
   Buffer_size (FrameDecoder_consume_frame d buf) < Buffer_size buf"
  by (auto simp: FrameDecoder_next_def FrameDecoder_consume_frame_def Let_def consts_of
      Buffer_size_consume split: if_splits)

function take_frames ::
  "FrameDecoder \<Rightarrow> Buffer \<Rightarrow> (FrameHeader \<times> bytes) list \<times> ErrorCode option \<times> Buffer" where
  "take_frames d buf =
     (case FrameDecoder_next d buf of
        Inl e \<Rightarrow> ([], Some e, buf)
      | Inr None \<Rightarrow> ([], None, buf)
      | Inr (Some f) \<Rightarrow>
          (let (fs, e, buf') = take_frames d (FrameDecoder_consume_frame d buf) in (f # fs, e, buf')))"
  by pat_completeness auto
termination
  by (relation "measure (\<lambda>(d, b). Buffer_size b)") (auto dest: next_Some_consume)

declare take_frames.simps [simp del]

fun receive_chunks ::
  "FrameDecoder \<Rightarrow> Buffer \<Rightarrow> bytes list \<Rightarrow> (FrameHeader \<times> bytes) list \<times> ErrorCode option \<times> Buffer" where
  "receive_chunks d buf [] = ([], None, buf)"
| "receive_chunks d buf (c # cs) =
     (case take_frames d (Buffer_append c buf) of
        (fs, Some e, buf') \<Rightarrow> (fs, Some e, buf')
      | (fs, None, buf') \<Rightarrow> (let (gs, e, buf'') = receive_chunks d buf' cs in (fs @ gs, e, buf'')))"

definition stream_bytes :: "(FrameHeader \<times> bytes) list \<Rightarrow> bytes" where
  "stream_bytes fs = concat (map (\<lambda>(h, p). frame_bytes h p) fs)"

lemma stream_bytes_simps [simp]:
  "stream_bytes [] = []" "stream_bytes ((h, p) # fs) = frame_bytes h p @ stream_bytes fs"
  "stream_bytes (fs @ gs) = stream_bytes fs @ stream_bytes gs"
  by (simp_all add: stream_bytes_def)

lemma stream_bytes_nonempty: "fs \<noteq> [] \<Longrightarrow> stream_bytes fs \<noteq> []"
  by (cases fs) (auto simp: frame_bytes_def store_u32_le_def)

lemma stream_bytes_member: "(h, p) \<in> set fs \<Longrightarrow> length (frame_bytes h p) \<le> length (stream_bytes fs)"
  by (induction fs) (auto simp del: length_frame_bytes)

text \<open>A buffer that holds whole frames and the beginning of another gives up exactly the whole ones.\<close>

lemma take_frames_whole:
  assumes "Buffer_ok buf" and "Buffer_slice buf = stream_bytes fs @ part"
    and "\<forall>f \<in> set fs. frame_fits (max_frame_bytes d) (snd f)"
    and "part = [] \<or> (\<exists>h p. frame_fits (max_frame_bytes d) p \<and> length part < length (frame_bytes h p)
                       \<and> part = take (length part) (frame_bytes h p))"
  shows "\<exists>buf'. take_frames d buf = (fs, None, buf') \<and> Buffer_ok buf' \<and> Buffer_slice buf' = part"
  using assms
proof (induction fs arbitrary: buf)
  case Nil
  have "FrameDecoder_next d buf = Inr None"
  proof (cases "part = []")
    case True
    with Nil length_Buffer_slice [of buf] show ?thesis
      by (simp add: FrameDecoder_next_def kLengthFieldBytes_def)
  next
    case False
    then obtain h p where "frame_fits (max_frame_bytes d) p" "length part < 12 + length p"
      "part = take (length part) (frame_bytes h p)"
      using Nil by auto
    then show ?thesis using next_prefix [of buf "length part" h p d] Nil by simp
  qed
  with Nil show ?case by (simp add: take_frames.simps [of d buf])
next
  case (Cons f fs)
  obtain h p where f: "f = (h, p)" by (cases f)
  let ?buf' = "FrameDecoder_consume_frame d buf"
  have sl: "Buffer_slice buf = frame_bytes h p @ stream_bytes fs @ part"
    using Cons.prems f by simp
  have fits: "frame_fits (max_frame_bytes d) p" using Cons.prems f by auto
  have "Buffer_ok ?buf' \<and> Buffer_slice ?buf' = stream_bytes fs @ part"
    using consume_frame [OF Cons.prems(1) sl fits] .
  then obtain buf' where "take_frames d ?buf' = (fs, None, buf')" "Buffer_ok buf'" "Buffer_slice buf' = part"
    using Cons.IH [of ?buf'] Cons.prems by auto
  then show ?case
    using next_frame [OF sl fits] f by (simp add: take_frames.simps [of d buf])
qed

text \<open>Any prefix of a stream is some whole frames and the beginning of the next.\<close>

lemma stream_prefix_split:
  assumes "x @ y = stream_bytes fs"
  shows "\<exists>gs hs part. fs = gs @ hs \<and> x = stream_bytes gs @ part \<and> part @ y = stream_bytes hs \<and>
           (part = [] \<or> (\<exists>h p. (h, p) \<in> set hs \<and> length part < length (frame_bytes h p) \<and>
                              part = take (length part) (frame_bytes h p)))"
  using assms
proof (induction fs arbitrary: x)
  case Nil
  then show ?case by simp
next
  case (Cons f fs)
  obtain h p where f: "f = (h, p)" by (cases f)
  show ?case
  proof (cases "length (frame_bytes h p) \<le> length x")
    case True
    define x' where "x' = drop (length (frame_bytes h p)) x"
    have "take (length (frame_bytes h p)) x = frame_bytes h p"
      using arg_cong [OF Cons.prems, of "take (length (frame_bytes h p))"] True f by simp
    then have x: "x = frame_bytes h p @ x'"
      unfolding x'_def by (metis append_take_drop_id)
    then have "x' @ y = stream_bytes fs"
      using Cons.prems f by simp
    then obtain gs hs part where IH: "fs = gs @ hs" "x' = stream_bytes gs @ part"
      "part @ y = stream_bytes hs"
      "part = [] \<or> (\<exists>h p. (h, p) \<in> set hs \<and> length part < length (frame_bytes h p) \<and>
         part = take (length part) (frame_bytes h p))"
      using Cons.IH by blast
    have "f # fs = (f # gs) @ hs \<and> x = stream_bytes (f # gs) @ part"
      using IH f x by simp
    with IH(3,4) show ?thesis by blast
  next
    case False
    have "x = take (length x) (frame_bytes h p)"
      using Cons.prems f False
      by (metis append_eq_conv_conj less_or_eq_imp_le linorder_le_less_linear stream_bytes_simps(2) take_append
          append_Nil2 diff_is_0_eq take_0)
    then have "f # fs = [] @ (f # fs) \<and> x = stream_bytes [] @ x \<and> x @ y = stream_bytes (f # fs) \<and>
       (h, p) \<in> set (f # fs) \<and> length x < length (frame_bytes h p) \<and> x = take (length x) (frame_bytes h p)"
      using Cons.prems f False by simp
    then show ?thesis by blast
  qed
qed

lemma receive_chunks_stream:
  assumes "Buffer_ok buf" and "Buffer_slice buf @ concat cs = stream_bytes fs"
    and "\<forall>f \<in> set fs. frame_fits (max_frame_bytes d) (snd f)"
  shows "\<exists>gs hs buf'. receive_chunks d buf cs = (gs, None, buf') \<and> fs = gs @ hs \<and> Buffer_ok buf' \<and>
           Buffer_slice buf' = stream_bytes hs \<and> (cs \<noteq> [] \<longrightarrow> hs = [])"
  using assms
proof (induction cs arbitrary: buf fs)
  case Nil
  then show ?case by auto
next
  case (Cons c cs)
  let ?buf = "Buffer_append c buf"
  have ok: "Buffer_ok ?buf" "Buffer_slice ?buf @ concat cs = stream_bytes fs"
    using Cons.prems by (simp_all add: buf.put_valid buf.put_contents)
  obtain gs hs part where sp: "fs = gs @ hs" "Buffer_slice ?buf = stream_bytes gs @ part"
    "part @ concat cs = stream_bytes hs"
    "part = [] \<or> (\<exists>h p. (h, p) \<in> set hs \<and> length part < length (frame_bytes h p) \<and>
       part = take (length part) (frame_bytes h p))"
    using stream_prefix_split [OF ok(2)] by blast
  have "part = [] \<or> (\<exists>h p. frame_fits (max_frame_bytes d) p \<and> length part < length (frame_bytes h p)
      \<and> part = take (length part) (frame_bytes h p))"
    using sp(1,4) Cons.prems(3) by fastforce
  then obtain buf' where tk: "take_frames d ?buf = (gs, None, buf')" "Buffer_ok buf'" "Buffer_slice buf' = part"
    using take_frames_whole [OF ok(1) sp(2)] Cons.prems(3) sp(1) by auto
  obtain gs' hs' buf'' where rc: "receive_chunks d buf' cs = (gs', None, buf'')" "hs = gs' @ hs'"
    "Buffer_ok buf''" "Buffer_slice buf'' = stream_bytes hs'" "cs \<noteq> [] \<longrightarrow> hs' = []"
    using Cons.IH [OF tk(2), of hs] sp(1,3) tk(3) Cons.prems(3) by auto
  have "hs' = []"
  proof (cases "cs = []")
    case True
    then have part: "part = stream_bytes hs" and hs: "hs' = hs" using sp(3) rc by auto
    with sp(4) have "part = []" using stream_bytes_member by fastforce
    with part hs show ?thesis using stream_bytes_nonempty by metis
  qed (use rc in simp)
  with tk rc sp show ?case by simp
qed

section \<open>Properties\<close>

text \<open>C7. However a stream of frames is cut into reads, the receive loop hands on exactly the
  frames that were sent, in order, reports no protocol violation, and ends with an empty
  buffer.\<close>

theorem receive_any_chunking:
  assumes "concat chunks = stream_bytes frames" and "chunks \<noteq> []"
    and "\<forall>f \<in> set frames. frame_fits (max_frame_bytes d) (snd f)"
  shows "\<exists>buf'. receive_chunks d Buffer_new chunks = (frames, None, buf') \<and>
                Buffer_ok buf' \<and> Buffer_slice buf' = []"
  using receive_chunks_stream [of Buffer_new chunks frames d] assms by auto

theorem receive_any_chunking_witness:
  "\<exists>buf'. receive_chunks \<lparr>max_frame_bytes = kDefaultMaxFrameBytes\<rparr> Buffer_new
            [[10, 0, 0], [0, 101, 0, 0, 0, 7], [0, 0, 0, 1, 2]]
          = ([(\<lparr>api_key = 101, api_version = 0, correlation_id = 7\<rparr>, [1, 2])], None, buf') \<and>
        Buffer_ok buf' \<and> Buffer_slice buf' = []"
  by (rule receive_any_chunking)
    (simp_all add: stream_bytes_def frame_bytes_def store_u16_le_def store_u32_le_def
      frame_fits_def consts_of)

text \<open>C13. The decoder on arbitrary bytes, in each of its outcomes. It asks for more bytes only when the
  length field is not there yet, or when the declared length is within the bounds and the frame is not
  all there: a length outside the bounds is refused as soon as it can be read, with the error for the
  bound it breaks. A frame it hands on lies inside the bytes received, its declared length is between
  the header size and the limit, and its payload is the run of that length after the header.\<close>

theorem FrameDecoder_next_bounds:
  "case FrameDecoder_next d buf of
     Inr (Some (h, p)) \<Rightarrow>
       kHeaderBytes + length p = unat (load_u32_le (Buffer_slice buf)) \<and>
       frame_fits (max_frame_bytes d) p \<and>
       kFramePrefixBytes + length p \<le> Buffer_size buf \<and>
       take (length p) (drop kFramePrefixBytes (Buffer_slice buf)) = p
   | Inr None \<Rightarrow>
       Buffer_size buf < kLengthFieldBytes \<or>
       kHeaderBytes \<le> unat (load_u32_le (Buffer_slice buf)) \<and> load_u32_le (Buffer_slice buf) \<le> max_frame_bytes d \<and>
       Buffer_size buf < kLengthFieldBytes + unat (load_u32_le (Buffer_slice buf))
   | Inl e \<Rightarrow>
       kLengthFieldBytes \<le> Buffer_size buf \<and>
       (e = kInvalidRequest \<and> unat (load_u32_le (Buffer_slice buf)) < kHeaderBytes \<or>
        e = kMessageTooLarge \<and> kHeaderBytes \<le> unat (load_u32_le (Buffer_slice buf)) \<and>
          max_frame_bytes d < load_u32_le (Buffer_slice buf))"
  using length_Buffer_slice [of buf]
  by (auto simp: FrameDecoder_next_def Let_def consts_of frame_fits_def slice_at_def
      word_less_nat_alt word_le_nat_alt split: if_splits)

text \<open>C14. \<^verbatim>\<open>bytes_needed\<close> on every part of a frame that fits the limit: before the length field is
  complete it asks for the rest of that field, afterwards for exactly what is missing of the frame. So
  it never asks for a byte past the frame, it is zero just when the frame is all there, which is just
  when the decoder hands it on, and the missing bytes make the frame available.\<close>

theorem FrameDecoder_bytes_needed_exact:
  assumes "Buffer_ok buf" and "Buffer_slice buf = take n (frame_bytes h p)"
    and "n \<le> length (frame_bytes h p)" and "frame_fits (max_frame_bytes d) p"
  shows "FrameDecoder_bytes_needed d buf =
           (if n < kLengthFieldBytes then kLengthFieldBytes - n else length (frame_bytes h p) - n) \<and>
         FrameDecoder_bytes_needed d buf \<le> length (frame_bytes h p) - n \<and>
         FrameDecoder_next d buf = Inr (if n = length (frame_bytes h p) then Some (h, p) else None) \<and>
         (FrameDecoder_bytes_needed d buf = 0 \<longleftrightarrow> n = length (frame_bytes h p)) \<and>
         FrameDecoder_next d (Buffer_append (drop n (frame_bytes h p)) buf) = Inr (Some (h, p))"
proof -
  have size: "Buffer_size buf = n"
    using assms(2,3) length_Buffer_slice [of buf] by simp
  have long: "12 \<le> length (frame_bytes h p)" by (simp add: frame_bytes_def)
  have "Buffer_slice (Buffer_append (drop n (frame_bytes h p)) buf) = frame_bytes h p @ []"
    using assms(1,2) by (simp add: buf.put_contents)
  then have whole: "FrameDecoder_next d (Buffer_append (drop n (frame_bytes h p)) buf) = Inr (Some (h, p))"
    using assms(4) by (rule next_frame)
  have handed: "FrameDecoder_next d buf = Inr (if n = length (frame_bytes h p) then Some (h, p) else None)"
    using next_prefix [OF assms(2) _ assms(4)] next_frame [of buf h p "[]" d] assms(2-4) by auto
  have needed: "FrameDecoder_bytes_needed d buf = (if n < 4 then 4 - n else length (frame_bytes h p) - n)"
  proof (cases "n < 4")
    case False
    then have "load_u32_le (Buffer_slice buf) = load_u32_le (frame_bytes h p @ [])"
      by (simp add: assms(2) load_take)
    then have "unat (load_u32_le (Buffer_slice buf)) = 8 + length p"
      using frame_length_field [OF assms(4), of h "[]"] by simp
    then show ?thesis using size assms(3) False by (simp add: FrameDecoder_bytes_needed_def consts_of Let_def)
  qed (simp add: FrameDecoder_bytes_needed_def size consts_of)
  then show ?thesis using handed whole long assms(3) by (simp add: consts_of) linarith
qed

theorem FrameDecoder_bytes_needed_exact_witness:
  "FrameDecoder_bytes_needed \<lparr>max_frame_bytes = 64\<rparr>
     \<lparr>buf_bytes = [9, 0, 0, 0, 1, 0], buf_read_pos = 0\<rparr> = 7 \<and>
   FrameDecoder_bytes_needed \<lparr>max_frame_bytes = 64\<rparr> \<lparr>buf_bytes = [9, 0], buf_read_pos = 0\<rparr> = 2"
  using FrameDecoder_bytes_needed_exact [of "\<lparr>buf_bytes = [9, 0, 0, 0, 1, 0], buf_read_pos = 0\<rparr>" 6
      "\<lparr>api_key = 1, api_version = 0, correlation_id = 7\<rparr>" "[5]" "\<lparr>max_frame_bytes = 64\<rparr>"]
    FrameDecoder_bytes_needed_exact [of "\<lparr>buf_bytes = [9, 0], buf_read_pos = 0\<rparr>" 2
      "\<lparr>api_key = 1, api_version = 0, correlation_id = 7\<rparr>" "[5]" "\<lparr>max_frame_bytes = 64\<rparr>"]
  by (simp add: Buffer_ok_def Buffer_slice_eq frame_bytes_def store_u16_le_def store_u32_le_def
      frame_fits_def consts_of)

end
