(* ===== verification/Crc32c.thy ===== *)
theory Crc32c
  imports Base
begin

text \<open>
  \<^verbatim>\<open>src/src/base/crc32c.cpp\<close>: the table built at compile time, the portable loop
  over it, and the hardware loop that aligns, takes eight bytes at a time and finishes byte by
  byte. The instructions themselves are parameters of the hardware loop; the locale
  \<open>crc_intrinsics\<close> states what the processor manuals promise of them.

  The reference both are compared with is the bitwise shift register: eight steps per byte.
  The step is injective, which gives the detection theorem: two inputs of the same length that
  differ in one byte have different checksums.
\<close>

section \<open>The code\<close>

definition kReflectedPoly :: u32 where
  "kReflectedPoly = 0x82F63B78"

text \<open>One round of the inner loop of \<^verbatim>\<open>make_table\<close>.\<close>

definition crc_bit :: "u32 \<Rightarrow> u32" where
  "crc_bit c = (if c AND 1 \<noteq> 0 then kReflectedPoly XOR drop_bit 1 c else drop_bit 1 c)"

definition make_table :: "u32 list" where
  "make_table = map (\<lambda>i. (crc_bit ^^ 8) (of_nat i)) [0..<256]"

definition kTable :: "u32 list" where
  "kTable = make_table"

definition crc_table_step :: "u8 \<Rightarrow> u32 \<Rightarrow> u32" where
  "crc_table_step b c = kTable ! unat ((c XOR ucast b) AND 0xFF) XOR drop_bit 8 c"

definition crc32c_software :: "u32 \<Rightarrow> bytes \<Rightarrow> u32" where
  "crc32c_software crc data = fold crc_table_step data (crc XOR 0xFFFFFFFF) XOR 0xFFFFFFFF"

text \<open>
  The hardware path. \<open>addr\<close> is the address of the first byte: only its remainder modulo
  eight matters. \<open>crc8\<close> and \<open>crc64\<close> are the two instructions; the 64-bit operand is the
  \<^verbatim>\<open>memcpy\<close> of eight bytes on a little-endian machine.
\<close>

fun crc_hw_align :: "(u32 \<Rightarrow> u8 \<Rightarrow> u32) \<Rightarrow> nat \<Rightarrow> u32 \<Rightarrow> bytes \<Rightarrow> u32 \<times> bytes" where
  "crc_hw_align crc8 addr c [] = (c, [])"
| "crc_hw_align crc8 addr c (b # bs) =
     (if addr mod 8 \<noteq> 0 then crc_hw_align crc8 (addr + 1) (crc8 c b) bs else (c, b # bs))"

function crc_hw_words :: "(u32 \<Rightarrow> u64 \<Rightarrow> u32) \<Rightarrow> u32 \<Rightarrow> bytes \<Rightarrow> u32 \<times> bytes" where
  "crc_hw_words crc64 c bs =
     (if 8 \<le> length bs then crc_hw_words crc64 (crc64 c (load_u64_le bs)) (drop 8 bs) else (c, bs))"
  by pat_completeness auto
termination
  by (relation "measure (\<lambda>(f, c, bs). length bs)") auto

declare crc_hw_words.simps [simp del]

fun crc_hw_tail :: "(u32 \<Rightarrow> u8 \<Rightarrow> u32) \<Rightarrow> u32 \<Rightarrow> bytes \<Rightarrow> u32" where
  "crc_hw_tail crc8 c [] = c"
| "crc_hw_tail crc8 c (b # bs) = crc_hw_tail crc8 (crc8 c b) bs"

definition crc32c_hw ::
  "(u32 \<Rightarrow> u8 \<Rightarrow> u32) \<Rightarrow> (u32 \<Rightarrow> u64 \<Rightarrow> u32) \<Rightarrow> nat \<Rightarrow> u32 \<Rightarrow> bytes \<Rightarrow> u32" where
  "crc32c_hw crc8 crc64 addr crc data =
     (let (c1, rest1) = crc_hw_align crc8 addr (crc XOR 0xFFFFFFFF) data;
          (c2, rest2) = crc_hw_words crc64 c1 rest1
      in crc_hw_tail crc8 c2 rest2 XOR 0xFFFFFFFF)"

text \<open>
  \<^verbatim>\<open>crc32c(Slice)\<close>, as the rest of the program calls it, started at zero. The model
  takes the portable path; \<open>crc_intrinsics.hw_eq_software\<close> below is the reason the choice
  does not matter.
\<close>

definition crc32c :: "bytes \<Rightarrow> u32" where
  "crc32c data = crc32c_software 0 data"

section \<open>The shift register\<close>

definition crc_byte :: "u8 \<Rightarrow> u32 \<Rightarrow> u32" where
  "crc_byte b c = (crc_bit ^^ 8) (c XOR ucast b)"

lemma bit_u8_high: "\<not> bit (x :: u8) (8 + n)"
  using bit_imp_le_length [of x "8 + n"] by auto

lemma bit_u32_high: "bit (x :: u32) (8 + n) \<Longrightarrow> n < 24"
  using bit_imp_le_length [of x "8 + n"] by auto

lemma and_one_bit: "(c AND 1 \<noteq> 0) \<longleftrightarrow> bit (c :: u32) 0"
  by (simp add: and_one_eq odd_iff_mod_2_eq_one bit_0)

lemma funpow_8: "(f ^^ 8) x = f (f (f (f (f (f (f (f x)))))))"
  by (simp add: eval_nat_numeral)

lemma crc_bit_alt: "crc_bit c = (if bit c 0 then kReflectedPoly else 0) XOR drop_bit 1 c"
  by (simp add: crc_bit_def and_one_bit)

lemma crc_bit_xor: "crc_bit (a XOR b) = crc_bit a XOR crc_bit b"
  by (rule bit_word_eqI) (auto simp: crc_bit_alt bit_simps)

lemma crc_bits_xor: "(crc_bit ^^ k) (a XOR b) = (crc_bit ^^ k) a XOR (crc_bit ^^ k) b"
  by (induction k) (simp_all add: crc_bit_xor)

lemma crc_bits_low_zero:
  "(\<forall>i < k. \<not> bit x i) \<Longrightarrow> (crc_bit ^^ k) x = drop_bit k x"
proof (induction k)
  case (Suc k)
  then have "(crc_bit ^^ Suc k) x = crc_bit (drop_bit k x)" by simp
  also have "\<dots> = drop_bit 1 (drop_bit k x)"
    using Suc.prems by (simp add: crc_bit_alt [of "drop_bit k x"] bit_simps)
  finally show ?case by simp
qed simp

lemma word_split_low: "(x :: u32) = (x AND 0xFF) XOR push_bit 8 (drop_bit 8 x)"
  unfolding mask8_eq by (rule bit_word_eqI) (auto simp: bit_simps)

text \<open>The table holds the register after eight rounds; the rest of the word only shifts down.\<close>

lemma unat_low_byte: "unat ((x :: u32) AND 0xFF) < 256"
proof -
  have "x AND 0xFF \<le> 0xFF" by (rule word_and_le1)
  then show ?thesis by (simp add: word_le_nat_alt)
qed

lemma kTable_nth: "kTable ! unat ((x :: u32) AND 0xFF) = (crc_bit ^^ 8) (x AND 0xFF)"
  using unat_low_byte [of x] by (simp add: kTable_def make_table_def)

lemma crc_byte_table: "crc_byte b c = crc_table_step b c"
proof -
  let ?x = "c XOR ucast b :: u32"
  have "drop_bit 8 (ucast b :: u32) = 0"
    by (rule bit_word_eqI) (simp add: bit_simps bit_u8_high)
  then have hi: "drop_bit 8 ?x = drop_bit 8 c"
    by (simp add: drop_bit_xor)
  have "(crc_bit ^^ 8) (push_bit 8 (drop_bit 8 ?x)) = drop_bit 8 (push_bit 8 (drop_bit 8 ?x))"
    by (rule crc_bits_low_zero) (simp add: bit_simps)
  also have "\<dots> = drop_bit 8 ?x"
    unfolding hi by (rule bit_word_eqI) (auto simp: bit_simps dest: bit_u32_high)
  finally have "(crc_bit ^^ 8) (push_bit 8 (drop_bit 8 ?x)) = drop_bit 8 ?x" .
  then have "(crc_bit ^^ 8) ?x = (crc_bit ^^ 8) (?x AND 0xFF) XOR drop_bit 8 ?x"
    using crc_bits_xor [of 8 "?x AND 0xFF" "push_bit 8 (drop_bit 8 ?x)"] word_split_low [of ?x]
    by simp
  then show ?thesis
    unfolding crc_byte_def crc_table_step_def kTable_nth hi .
qed

lemma crc_table_step_eq: "crc_table_step = crc_byte"
  by (intro ext) (simp add: crc_byte_table)

section \<open>Error detection\<close>

text \<open>The polynomial's top bit tells which way the branch went, so a round loses nothing.\<close>

lemma crc_bit_inj: "crc_bit a = crc_bit b \<Longrightarrow> a = b"
proof -
  assume eq: "crc_bit a = crc_bit b"
  have top: "bit (crc_bit c) 31 \<longleftrightarrow> bit c 0" for c
    using bit_imp_le_length [of c 32]
    by (auto simp: crc_bit_alt bit_simps kReflectedPoly_def)
  have b0: "bit a 0 \<longleftrightarrow> bit b 0" using top [of a] top [of b] eq by simp
  then have "drop_bit 1 a = drop_bit 1 b"
    using eq by (auto simp: crc_bit_alt xor_cancel_left split: if_splits)
  then have "bit a (Suc n) \<longleftrightarrow> bit b (Suc n)" for n
    by (metis bit_drop_bit_eq comp_apply plus_1_eq_Suc)
  with b0 show "a = b" by (intro bit_word_eqI) (metis not0_implies_Suc)
qed

lemma crc_bits_inj: "(crc_bit ^^ k) a = (crc_bit ^^ k) b \<Longrightarrow> a = b"
  by (induction k) (auto dest: crc_bit_inj)

lemma ucast_u8_u32_inj: "(ucast (x :: u8) :: u32) = ucast y \<Longrightarrow> x = y"
proof -
  assume eq: "(ucast x :: u32) = ucast y"
  have "bit x n \<longleftrightarrow> bit y n" if "n < 8" for n
    using that arg_cong [OF eq, of "\<lambda>w. bit w n"] by (simp add: bit_simps)
  then show "x = y" by (auto intro: bit_word_eqI)
qed

lemma crc_byte_inj_state: "crc_byte b c = crc_byte b c' \<Longrightarrow> c = c'"
  by (auto simp: crc_byte_def xor_cancel_right dest: crc_bits_inj)

lemma crc_byte_inj_byte: "crc_byte b c = crc_byte b' c \<Longrightarrow> b = b'"
  by (auto simp: crc_byte_def xor_cancel_left dest!: crc_bits_inj ucast_u8_u32_inj)

lemma fold_crc_byte_inj: "fold crc_byte s c = fold crc_byte s c' \<Longrightarrow> c = c'"
  by (induction s arbitrary: c c') (auto dest: crc_byte_inj_state)

lemma crc32c_alt: "crc32c data = fold crc_byte data 0xFFFFFFFF XOR 0xFFFFFFFF"
  by (simp add: crc32c_def crc32c_software_def crc_table_step_eq)

lemma crc32c_byte_change:
  assumes "b \<noteq> b'"
  shows "crc32c (pre @ b # post) \<noteq> crc32c (pre @ b' # post)"
proof
  assume "crc32c (pre @ b # post) = crc32c (pre @ b' # post)"
  then have "fold crc_byte post (crc_byte b (fold crc_byte pre 0xFFFFFFFF))
      = fold crc_byte post (crc_byte b' (fold crc_byte pre 0xFFFFFFFF))"
    by (simp add: crc32c_alt xor_cancel_right)
  then have "crc_byte b (fold crc_byte pre 0xFFFFFFFF) = crc_byte b' (fold crc_byte pre 0xFFFFFFFF)"
    by (rule fold_crc_byte_inj)
  then show False using assms by (auto dest: crc_byte_inj_byte)
qed

lemma crc32c_update:
  assumes "i < length data" and "data ! i \<noteq> b"
  shows "crc32c (data[i := b]) \<noteq> crc32c data"
proof -
  have "data = take i data @ data ! i # drop (Suc i) data"
    using assms(1) by (rule id_take_nth_drop)
  moreover have "data[i := b] = take i data @ b # drop (Suc i) data"
    using assms(1) by (rule upd_conv_take_nth_drop)
  ultimately show ?thesis using crc32c_byte_change [OF assms(2)] by metis
qed

section \<open>The hardware path\<close>

text \<open>
  The promise of the CRC32 instructions: the byte form runs the register over one byte, the
  64-bit form over the eight bytes of its operand, lowest first.
\<close>

locale crc_intrinsics =
  fixes crc8 :: "u32 \<Rightarrow> u8 \<Rightarrow> u32" and crc64 :: "u32 \<Rightarrow> u64 \<Rightarrow> u32"
  assumes crc8_spec: "crc8 c b = crc_byte b c"
    and crc64_spec: "crc64 c v = fold crc_byte (store_u64_le v) c"
begin

lemma tail_eq: "crc_hw_tail crc8 c bs = fold crc_byte bs c"
  by (induction bs arbitrary: c) (simp_all add: crc8_spec)

lemma crc64_bytes: "8 \<le> length bs \<Longrightarrow> crc64 c (load_u64_le bs) = fold crc_byte (take 8 bs) c"
  using store_load_u64 [of "take 8 bs"] load_u64_le_take [of 8 bs] by (simp add: crc64_spec)

lemma words_eq:
  "crc_hw_words crc64 c bs = (c', bs') \<Longrightarrow> fold crc_byte bs' c' = fold crc_byte bs c"
proof (induction bs arbitrary: c rule: length_induct)
  case (1 bs)
  have split: "fold crc_byte (drop 8 bs) (fold crc_byte (take 8 bs) c) = fold crc_byte bs c"
    by (metis append_take_drop_id comp_apply fold_append)
  show ?case
  proof (cases "8 \<le> length bs")
    case True
    then have "crc_hw_words crc64 (crc64 c (load_u64_le bs)) (drop 8 bs) = (c', bs')"
      using "1.prems" by (simp add: crc_hw_words.simps [of crc64 c bs])
    with True "1.IH" have "fold crc_byte bs' c' = fold crc_byte (drop 8 bs) (crc64 c (load_u64_le bs))"
      by simp
    with True split show ?thesis by (simp add: crc64_bytes)
  next
    case False
    with "1.prems" show ?thesis by (simp add: crc_hw_words.simps [of crc64 c bs])
  qed
qed

lemma align_eq:
  "crc_hw_align crc8 addr c bs = (c', bs') \<Longrightarrow> fold crc_byte bs' c' = fold crc_byte bs c"
  by (induction bs arbitrary: addr c) (auto simp: crc8_spec split: if_splits)

lemma hw_eq_software: "crc32c_hw crc8 crc64 addr crc data = crc32c_software crc data"
  by (auto simp: crc32c_hw_def crc32c_software_def crc_table_step_eq tail_eq
      dest!: words_eq align_eq split: prod.split)

end

text \<open>The register itself, over a byte and over the eight bytes of a word, is such a pair.\<close>

interpretation ref_crc: crc_intrinsics "\<lambda>c b. crc_byte b c" "\<lambda>c v. fold crc_byte (store_u64_le v) c"
  by unfold_locales simp_all

section \<open>Continuing a checksum\<close>

lemma crc32c_software_append:
  "crc32c_software (crc32c_software crc a) b = crc32c_software crc (a @ b)"
  by (simp add: crc32c_software_def xor.assoc)

section \<open>Properties\<close>

text \<open>The check value of CRC-32C that \<^verbatim>\<open>crc32c.h\<close> quotes.\<close>

lemma crc32c_check_value:
  "crc32c [0x31, 0x32, 0x33, 0x34, 0x35, 0x36, 0x37, 0x38, 0x39] = 0xE3069283"
  by (simp add: crc32c_alt crc_byte_def crc_bit_def kReflectedPoly_def funpow_8)

text \<open>C15. Whatever the alignment of the buffer, the hardware path of \<^verbatim>\<open>crc32c\<close>
  returns what the portable table-driven path returns, given instructions that run the CRC-32C
  register over the bytes of their operand.\<close>

theorem crc32c_hw_eq_software:
  assumes "\<And>c b. crc8 c b = crc_byte b c"
    and "\<And>c v. crc64 c v = fold crc_byte (store_u64_le v) c"
  shows "crc32c_hw crc8 crc64 addr crc data = crc32c_software crc data"
proof -
  have "crc_intrinsics crc8 crc64" by unfold_locales (rule assms)+
  then show ?thesis by (rule crc_intrinsics.hw_eq_software)
qed

theorem crc32c_hw_eq_software_witness:
  "crc32c_hw (\<lambda>c b. crc_byte b c) (\<lambda>c v. fold crc_byte (store_u64_le v) c) 5 0 (replicate 20 7)
   = crc32c_software 0 (replicate 20 7)"
  by (rule crc32c_hw_eq_software) simp_all

text \<open>C16. A corruption confined to one byte is always detected: replacing any single byte of
  the input by a different one changes the CRC-32C of the whole.\<close>

theorem crc32c_detects_byte_change:
  assumes "i < length data" and "data ! i \<noteq> b"
  shows "crc32c (data[i := b]) \<noteq> crc32c data"
  using assms by (rule crc32c_update)

theorem crc32c_detects_byte_change_witness:
  "crc32c ([0x31, 0x32, 0x33][1 := 0x33]) \<noteq> crc32c [0x31, 0x32, 0x33]"
  by (rule crc32c_detects_byte_change) simp_all

end
