(* ===== verification/Record_Batch.thy ===== *)
theory Record_Batch
  imports Wire Crc32c
begin

text \<open>
  \<^verbatim>\<open>src/src/storage/record_batch.h\<close> and \<^verbatim>\<open>record_batch.cpp\<close>: the 52-byte
  batch header, its encoder and decoder, the validation every byte read off a disk passes
  through, the builder and the record iterator. The lemmas: headers round trip; what the
  builder finishes validates and iterates back to the records that went in; a batch that
  validates is exactly a header followed by its framed records; validation looks at no byte
  past the batch, refuses every proper prefix of it and every change of a byte the checksum
  covers, and does not depend on the base offset.
\<close>

section \<open>Constants and headers (\<^verbatim>\<open>record_batch.h\<close>)\<close>

definition kBatchHeaderBytes :: nat where [consts_of]: "kBatchHeaderBytes = 52"
definition kBatchLengthPrefixBytes :: nat where [consts_of]: "kBatchLengthPrefixBytes = 12"
definition kCrcFieldOffset :: nat where [consts_of]: "kCrcFieldOffset = 12"
definition kCrcCoveredFrom :: nat where [consts_of]: "kCrcCoveredFrom = 16"
definition kMagicV0 :: u8 where [consts_of]: "kMagicV0 = 0"
definition kAttrCompressed :: u8 where [consts_of]: "kAttrCompressed = 1"
definition kAttrControl :: u8 where [consts_of]: "kAttrControl = 2"
definition kMaxBatchBytes :: nat where [consts_of]: "kMaxBatchBytes = 8 * 1024 * 1024"
definition kRecordLengthBytes :: nat where [consts_of]: "kRecordLengthBytes = 4"

text \<open>The \<^verbatim>\<open>static_assert\<close> of the header.\<close>

lemma batch_fits_frame: "kMaxBatchBytes + kFramePrefixBytes < unat kDefaultMaxFrameBytes"
  by (simp add: consts_of)

record BatchHeader =
  bh_base_offset :: u64
  bh_batch_length :: u32
  bh_leader_epoch :: u32
  bh_magic :: u8
  bh_attributes :: u8
  bh_crc :: u32
  bh_last_offset_delta :: u32
  bh_timestamp_ms :: i64
  bh_producer_id :: u64
  bh_producer_epoch :: u16
  bh_base_sequence :: u32
  bh_record_count :: u32

definition is_control :: "BatchHeader \<Rightarrow> bool" where
  "is_control h \<longleftrightarrow> bh_attributes h AND kAttrControl \<noteq> 0"

text \<open>The sum is taken in \<^verbatim>\<open>size_t\<close>, so it does not wrap.\<close>

definition total_bytes :: "BatchHeader \<Rightarrow> nat" where
  "total_bytes h = kBatchLengthPrefixBytes + unat (bh_batch_length h)"

definition last_offset :: "BatchHeader \<Rightarrow> u64" where
  "last_offset h = bh_base_offset h + ucast (bh_last_offset_delta h)"

definition next_offset :: "BatchHeader \<Rightarrow> u64" where
  "next_offset h = last_offset h + 1"

record BatchMeta =
  meta_leader_epoch :: u32
  meta_control :: bool
  meta_timestamp_ms :: i64
  meta_producer_id :: u64
  meta_producer_epoch :: u16
  meta_base_sequence :: u32

definition BatchMeta_new :: BatchMeta where
  "BatchMeta_new = \<lparr>meta_leader_epoch = 0, meta_control = False, meta_timestamp_ms = 0, meta_producer_id = 0,
                    meta_producer_epoch = 0, meta_base_sequence = 0\<rparr>"

section \<open>Encoding, decoding, validation (\<^verbatim>\<open>record_batch.cpp\<close>)\<close>

text \<open>The stores into the buffer \<^verbatim>\<open>out\<close>, one after the other.\<close>

definition encode_header :: "bytes \<Rightarrow> BatchHeader \<Rightarrow> bytes" where
  "encode_header out h =
     (let out = write_at out 0 (store_u64_le (bh_base_offset h));
          out = write_at out 8 (store_u32_le (bh_batch_length h));
          out = write_at out 12 (store_u32_le (bh_crc h));
          out = write_at out 16 (store_u32_le (bh_leader_epoch h));
          out = write_at out 20 [bh_magic h];
          out = write_at out 21 [bh_attributes h];
          out = write_at out 22 (store_u32_le (bh_last_offset_delta h));
          out = write_at out 26 (store_i64_le (bh_timestamp_ms h));
          out = write_at out 34 (store_u64_le (bh_producer_id h));
          out = write_at out 42 (store_u16_le (bh_producer_epoch h));
          out = write_at out 44 (store_u32_le (bh_base_sequence h));
          out = write_at out 48 (store_u32_le (bh_record_count h))
      in out)"

definition load_header :: "bytes \<Rightarrow> BatchHeader" where
  "load_header p =
     \<lparr>bh_base_offset = load_u64_le p,
      bh_batch_length = load_u32_le (drop 8 p),
      bh_leader_epoch = load_u32_le (drop 16 p),
      bh_magic = p ! 20,
      bh_attributes = p ! 21,
      bh_crc = load_u32_le (drop 12 p),
      bh_last_offset_delta = load_u32_le (drop 22 p),
      bh_timestamp_ms = load_i64_le (drop 26 p),
      bh_producer_id = load_u64_le (drop 34 p),
      bh_producer_epoch = load_u16_le (drop 42 p),
      bh_base_sequence = load_u32_le (drop 44 p),
      bh_record_count = load_u32_le (drop 48 p)\<rparr>"

definition decode_header :: "bytes \<Rightarrow> BatchHeader result" where
  "decode_header p =
     (if length p < kBatchHeaderBytes then fail kCorruptRecord
      else let h = load_header p
           in if bh_magic h \<noteq> kMagicV0 then fail kCorruptRecord
              else if total_bytes h < kBatchHeaderBytes then fail kCorruptRecord
              else if total_bytes h > kMaxBatchBytes then fail kCorruptRecord
              else Inr h)"

definition compute_crc :: "bytes \<Rightarrow> nat \<Rightarrow> u32" where
  "compute_crc framed tot = crc32c (subslice framed kCrcCoveredFrom (Some (tot - kCrcCoveredFrom)))"

text \<open>
  The structural walk: \<open>n\<close> is how many records are left to step over. It gives the
  position after the last one, or nothing when a record does not fit.
\<close>

fun walk_records :: "bytes \<Rightarrow> nat \<Rightarrow> nat \<Rightarrow> nat \<Rightarrow> nat option" where
  "walk_records framed tot pos 0 = Some pos"
| "walk_records framed tot pos (Suc n) =
     (if tot - pos < kRecordLengthBytes then None
      else let len = unat (load_u32_le (drop pos framed)); pos = pos + kRecordLengthBytes
           in if tot - pos < len then None
              else walk_records framed tot (pos + len) n)"

definition validate_batch :: "bytes \<Rightarrow> status" where
  "validate_batch framed =
     (case decode_header framed of
        Inl e \<Rightarrow> fail e
      | Inr h \<Rightarrow>
          let tot = total_bytes h
          in if length framed < tot then fail kCorruptRecord
             else if compute_crc framed tot \<noteq> bh_crc h then fail kCorruptRecord
             else if bh_record_count h = 0 then fail kCorruptRecord
             else if bh_last_offset_delta h \<noteq> bh_record_count h - 1 then fail kCorruptRecord
             else if bh_attributes h AND kAttrCompressed \<noteq> 0 then fail kCorruptRecord
             else case walk_records framed tot kBatchHeaderBytes (unat (bh_record_count h)) of
                    None \<Rightarrow> fail kCorruptRecord
                  | Some pos \<Rightarrow> if pos \<noteq> tot then fail kCorruptRecord else Inr ())"

section \<open>The builder\<close>

record BatchBuilder =
  bb_buf :: Buffer
  bb_record_count :: u32

definition BatchBuilder_clear :: "BatchBuilder \<Rightarrow> BatchBuilder" where
  "BatchBuilder_clear b =
     b\<lparr>bb_buf := append_uninitialized kBatchHeaderBytes (replicate kBatchHeaderBytes 0)
                   (Buffer_clear (bb_buf b)),
       bb_record_count := 0\<rparr>"

definition BatchBuilder_new :: BatchBuilder where
  "BatchBuilder_new = BatchBuilder_clear \<lparr>bb_buf = Buffer_new, bb_record_count = 0\<rparr>"

definition BatchBuilder_add_record :: "bytes \<Rightarrow> BatchBuilder \<Rightarrow> status \<times> BatchBuilder" where
  "BatchBuilder_add_record val b =
     (let added = kRecordLengthBytes + length val
      in if Buffer_size (bb_buf b) + added > kMaxBatchBytes then (fail kMessageTooLarge, b)
         else if length val > kMaxBatchBytes then (fail kMessageTooLarge, b)
         else (Inr (),
               b\<lparr>bb_buf := Buffer_append val (append_u32_le (of_nat (length val)) (bb_buf b)),
                 bb_record_count := bb_record_count b + 1\<rparr>))"

definition BatchBuilder_empty :: "BatchBuilder \<Rightarrow> bool" where
  "BatchBuilder_empty b \<longleftrightarrow> bb_record_count b = 0"

definition BatchBuilder_framed_bytes :: "BatchBuilder \<Rightarrow> nat" where
  "BatchBuilder_framed_bytes b = Buffer_size (bb_buf b)"

text \<open>
  \<^verbatim>\<open>finish\<close> writes through \<^verbatim>\<open>mutable_data()\<close>: the bytes from the read position
  on are replaced by the stamped ones.
\<close>

definition Buffer_stamp :: "(bytes \<Rightarrow> bytes) \<Rightarrow> Buffer \<Rightarrow> Buffer" where
  "Buffer_stamp f b = b\<lparr>buf_bytes := take (buf_read_pos b) (buf_bytes b) @ f (Buffer_slice b)\<rparr>"

definition BatchBuilder_finish :: "u64 \<Rightarrow> BatchMeta \<Rightarrow> BatchBuilder \<Rightarrow> bytes \<times> BatchBuilder" where
  "BatchBuilder_finish base_off meta b =
     (let h = \<lparr>bh_base_offset = base_off,
               bh_batch_length = of_nat (Buffer_size (bb_buf b) - kBatchLengthPrefixBytes),
               bh_leader_epoch = meta_leader_epoch meta,
               bh_magic = kMagicV0,
               bh_attributes = (if meta_control meta then kAttrControl else 0),
               bh_crc = 0,
               bh_last_offset_delta = bb_record_count b - 1,
               bh_timestamp_ms = meta_timestamp_ms meta,
               bh_producer_id = meta_producer_id meta,
               bh_producer_epoch = meta_producer_epoch meta,
               bh_base_sequence = meta_base_sequence meta,
               bh_record_count = bb_record_count b\<rparr>;
          buf = Buffer_stamp (\<lambda>p. encode_header p h) (bb_buf b);
          crc = compute_crc (Buffer_slice buf) (Buffer_size buf);
          buf = Buffer_stamp (\<lambda>p. write_at p kCrcFieldOffset (store_u32_le crc)) buf
      in (Buffer_slice buf, b\<lparr>bb_buf := buf\<rparr>))"

section \<open>The record iterator\<close>

record RecordIterator =
  it_framed :: bytes
  it_pos :: nat
  it_end :: nat

definition RecordIterator_new :: "bytes \<Rightarrow> RecordIterator" where
  "RecordIterator_new framed =
     (if length framed < kBatchHeaderBytes
      then \<lparr>it_framed = framed, it_pos = kBatchHeaderBytes, it_end = kBatchHeaderBytes\<rparr>
      else let tot = kBatchLengthPrefixBytes + unat (load_u32_le (drop 8 framed));
               tot = (if tot < kBatchHeaderBytes then kBatchHeaderBytes else tot)
           in \<lparr>it_framed = framed, it_pos = kBatchHeaderBytes,
               it_end = (if tot < length framed then tot else length framed)\<rparr>)"

definition RecordIterator_next :: "RecordIterator \<Rightarrow> bytes option \<times> RecordIterator" where
  "RecordIterator_next it =
     (if it_end it - it_pos it < kRecordLengthBytes then (None, it)
      else let len = unat (load_u32_le (drop (it_pos it) (it_framed it)));
               it = it\<lparr>it_pos := it_pos it + kRecordLengthBytes\<rparr>
           in if it_end it - it_pos it < len then (None, it)
              else (Some (subslice (it_framed it) (it_pos it) (Some len)),
                    it\<lparr>it_pos := it_pos it + len\<rparr>))"

text \<open>The loop of every caller: \<^verbatim>\<open>while (it.next(&value))\<close>.\<close>

function iterate_records :: "RecordIterator \<Rightarrow> bytes list" where
  "iterate_records it =
     (case RecordIterator_next it of
        (None, _) \<Rightarrow> []
      | (Some v, it') \<Rightarrow> v # iterate_records it')"
  by pat_completeness auto
termination
  by (relation "measure (\<lambda>it. it_end it - it_pos it)")
    (auto simp: RecordIterator_next_def consts_of Let_def split: if_splits)

declare iterate_records.simps [simp del]

section \<open>The bytes of a batch\<close>

definition header_bytes :: "BatchHeader \<Rightarrow> bytes" where
  "header_bytes h =
     store_u64_le (bh_base_offset h) @ store_u32_le (bh_batch_length h) @ store_u32_le (bh_crc h) @
     store_u32_le (bh_leader_epoch h) @ [bh_magic h] @ [bh_attributes h] @
     store_u32_le (bh_last_offset_delta h) @ store_i64_le (bh_timestamp_ms h) @
     store_u64_le (bh_producer_id h) @ store_u16_le (bh_producer_epoch h) @
     store_u32_le (bh_base_sequence h) @ store_u32_le (bh_record_count h)"

definition record_frame :: "bytes \<Rightarrow> bytes" where
  "record_frame v = store_u32_le (of_nat (length v)) @ v"

definition records_bytes :: "bytes list \<Rightarrow> bytes" where
  "records_bytes vs = concat (map record_frame vs)"

definition batch_bytes :: "BatchHeader \<Rightarrow> bytes list \<Rightarrow> bytes" where
  "batch_bytes h vs = header_bytes h @ records_bytes vs"

text \<open>What a header must say about the records that follow it.\<close>

definition batch_wf :: "BatchHeader \<Rightarrow> bytes list \<Rightarrow> bool" where
  "batch_wf h vs \<longleftrightarrow>
     bh_magic h = kMagicV0 \<and> bh_attributes h AND kAttrCompressed = 0 \<and>
     total_bytes h = length (batch_bytes h vs) \<and> total_bytes h \<le> kMaxBatchBytes \<and>
     bh_crc h = crc32c (drop kCrcCoveredFrom (batch_bytes h vs)) \<and>
     vs \<noteq> [] \<and> unat (bh_record_count h) = length vs \<and>
     bh_last_offset_delta h = bh_record_count h - 1"

lemma length_header_bytes [simp]: "length (header_bytes h) = 52"
  by (simp add: header_bytes_def)

lemma length_record_frame [simp]: "length (record_frame v) = 4 + length v"
  by (simp add: record_frame_def)

lemma records_bytes_simps [simp]:
  "records_bytes [] = []" "records_bytes (v # vs) = record_frame v @ records_bytes vs"
  "records_bytes (vs @ ws) = records_bytes vs @ records_bytes ws"
  by (simp_all add: records_bytes_def)

lemma length_batch_bytes [simp]: "length (batch_bytes h vs) = 52 + length (records_bytes vs)"
  by (simp add: batch_bytes_def)

lemma encode_header_eq: "encode_header out h = header_bytes h @ drop 52 out"
  unfolding encode_header_def Let_def header_bytes_def
  by (simp add: write_at_front write_at_next del: append_assoc)

lemma load_header_bytes [simp]: "load_header (header_bytes h @ rest) = h"
  by (simp add: load_header_def header_bytes_def nth_append layout)

lemma store_load_slices:
  "k + 8 \<le> length p \<Longrightarrow> store_u64_le (load_u64_le (drop k p)) = take 8 (drop k p)"
  "k + 4 \<le> length p \<Longrightarrow> store_u32_le (load_u32_le (drop k p)) = take 4 (drop k p)"
  "k + 2 \<le> length p \<Longrightarrow> store_u16_le (load_u16_le (drop k p)) = take 2 (drop k p)"
  using store_load_u64 [of "take 8 (drop k p)"] store_load_u32 [of "take 4 (drop k p)"]
    store_load_u16 [of "take 2 (drop k p)"]
  by (simp_all add: load_take)

lemma header_bytes_load:
  assumes "52 \<le> length p"
  shows "header_bytes (load_header p) = take 52 p"
proof -
  have cut: "take n (drop k p) @ take m (drop (k + n) p) = take (n + m) (drop k p)" for n m k
    by (simp add: take_add add.commute [of k n])
  have byte: "k < length p \<Longrightarrow> [p ! k] = take 1 (drop k p)" for k
    by (simp add: take_Suc_conv_app_nth Cons_nth_drop_Suc [symmetric])
  have "header_bytes (load_header p) =
    take 8 (drop 0 p) @ take 4 (drop 8 p) @ take 4 (drop 12 p) @ take 4 (drop 16 p) @
    take 1 (drop 20 p) @ take 1 (drop 21 p) @ take 4 (drop 22 p) @ take 8 (drop 26 p) @
    take 8 (drop 34 p) @ take 2 (drop 42 p) @ take 4 (drop 44 p) @ take 4 (drop 48 p)"
    unfolding header_bytes_def load_header_def BatchHeader.simps store_i64_le_def load_i64_le_def
    using assms by (simp only: store_load_slices byte) (use store_load_slices(1) [of 0 p] in simp)
  also have "\<dots> = take 52 p"
    using cut [of 4 44 4] cut [of 2 42 8] cut [of 8 34 10] cut [of 8 26 18] cut [of 4 22 26]
      cut [of 1 21 30] cut [of 1 20 31] cut [of 4 16 32] cut [of 4 12 36] cut [of 4 8 40]
      cut [of 8 0 44] by simp
  finally show ?thesis .
qed

section \<open>The structural walk\<close>

lemma load_record_length:
  "length v < 4294967296 \<Longrightarrow> unat (load_u32_le (record_frame v @ rest)) = length v"
  by (simp add: record_frame_def load_store_u32 unat_of_nat_u32)

lemma record_frame_load:
  assumes "pos + 4 + unat (load_u32_le (drop pos framed)) \<le> length framed"
  shows "take (4 + unat (load_u32_le (drop pos framed))) (drop pos framed) =
         record_frame (take (unat (load_u32_le (drop pos framed))) (drop (pos + 4) framed))"
  using assms store_load_slices(2) [of pos framed]
  by (simp add: record_frame_def take_add min_absorb2 add.commute)

lemma walk_records_complete:
  assumes "drop pos framed = records_bytes vs @ rest"
    and "pos + length (records_bytes vs) \<le> tot" and "\<forall>v \<in> set vs. length v < 4294967296"
  shows "walk_records framed tot pos (length vs) = Some (pos + length (records_bytes vs))"
  using assms
proof (induction vs arbitrary: pos)
  case (Cons v vs)
  have "unat (load_u32_le (drop pos framed)) = length v"
    using Cons.prems by (simp add: load_record_length)
  moreover have "drop (pos + (4 + length v)) framed = records_bytes vs @ rest"
    using arg_cong [OF Cons.prems(1), of "drop (4 + length v)"] by (simp add: add.commute)
  then have "walk_records framed tot (pos + (4 + length v)) (length vs)
      = Some (pos + (4 + length v) + length (records_bytes vs))"
    using Cons.prems by (intro Cons.IH) auto
  ultimately show ?case using Cons.prems(2)
    by (simp add: consts_of Let_def add.assoc) linarith
qed simp

lemma walk_records_sound:
  assumes "walk_records framed tot pos n = Some pos'" and "pos \<le> tot" and "tot \<le> length framed"
  shows "\<exists>vs. length vs = n \<and> drop pos framed = records_bytes vs @ drop pos' framed \<and>
              pos' = pos + length (records_bytes vs) \<and> pos' \<le> tot \<and>
              (\<forall>v \<in> set vs. length v < 4294967296)"
  using assms
proof (induction n arbitrary: pos)
  case (Suc n)
  let ?len = "unat (load_u32_le (drop pos framed))"
  let ?v = "take ?len (drop (pos + 4) framed)"
  have fits: "pos + 4 + ?len \<le> tot"
    and rest: "walk_records framed tot (pos + 4 + ?len) n = Some pos'"
    using Suc.prems by (auto simp: consts_of Let_def split: if_splits)
  obtain vs where vs: "length vs = n" "drop (pos + 4 + ?len) framed = records_bytes vs @ drop pos' framed"
    "pos' = pos + 4 + ?len + length (records_bytes vs)" "pos' \<le> tot"
    "\<forall>v \<in> set vs. length v < 4294967296"
    using Suc.IH [OF rest fits Suc.prems(3)] by blast
  have len: "length ?v = ?len" using fits Suc.prems(3) by simp
  have "drop pos framed = take (4 + ?len) (drop pos framed) @ drop (pos + 4 + ?len) framed"
    using append_take_drop_id [of "4 + ?len" "drop pos framed"] by (simp add: ac_simps)
  then have "drop pos framed = record_frame ?v @ records_bytes vs @ drop pos' framed"
    using fits Suc.prems(3) vs(2) by (simp add: record_frame_load)
  with vs len show ?case
    by (intro exI [of _ "?v # vs"]) (simp add: add.assoc)
qed simp

lemma iterate_records_complete:
  assumes "drop (it_pos it) (it_framed it) = records_bytes vs @ rest"
    and "it_end it = it_pos it + length (records_bytes vs)"
    and "\<forall>v \<in> set vs. length v < 4294967296"
  shows "iterate_records it = vs"
  using assms
proof (induction vs arbitrary: it)
  case Nil
  then show ?case
    by (subst iterate_records.simps) (simp add: RecordIterator_next_def consts_of)
next
  case (Cons v vs)
  let ?it' = "it\<lparr>it_pos := it_pos it + (4 + length v)\<rparr>"
  have "unat (load_u32_le (drop (it_pos it) (it_framed it))) = length v"
    using Cons.prems by (simp add: load_record_length)
  moreover have "drop (it_pos it + 4) (it_framed it) = v @ records_bytes vs @ rest"
    using arg_cong [OF Cons.prems(1), of "drop 4"] by (simp add: record_frame_def add.commute)
  ultimately have "RecordIterator_next it = (Some v, ?it')"
    using Cons.prems(2) by (simp add: RecordIterator_next_def consts_of Let_def add.assoc)
  moreover have "drop (it_pos ?it') (it_framed it) = records_bytes vs @ rest"
    using arg_cong [OF Cons.prems(1), of "drop (4 + length v)"] by (simp add: add.commute)
  then have "iterate_records ?it' = vs"
    using Cons.prems by (intro Cons.IH) auto
  ultimately show ?case by (subst iterate_records.simps) simp
qed

section \<open>What validation accepts\<close>

lemma records_member_length: "v \<in> set vs \<Longrightarrow> length v \<le> length (records_bytes vs)"
  by (induction vs) auto

lemma records_count_length: "length vs \<le> length (records_bytes vs)"
  by (induction vs) auto

lemma batch_wf_decode:
  assumes "batch_wf h vs"
  shows "decode_header (batch_bytes h vs @ rest) = Inr h"
  using assms by (simp add: decode_header_def batch_bytes_def batch_wf_def Let_def consts_of)

lemma batch_wf_records: "batch_wf h vs \<Longrightarrow> v \<in> set vs \<Longrightarrow> length v < 4294967296"
  using records_member_length [of v vs] by (auto simp: batch_wf_def consts_of)

lemma validate_complete:
  assumes "batch_wf h vs"
  shows "validate_batch (batch_bytes h vs @ rest) = Inr ()"
proof -
  have tot: "total_bytes h = 52 + length (records_bytes vs)"
    using assms by (simp add: batch_wf_def)
  have crc: "compute_crc (batch_bytes h vs @ rest) (total_bytes h) = bh_crc h"
    using assms by (simp add: compute_crc_def batch_wf_def consts_of)
  have nz: "bh_record_count h \<noteq> 0"
    using assms by (auto simp: batch_wf_def)
  have "walk_records (batch_bytes h vs @ rest) (total_bytes h) 52 (length vs)
      = Some (52 + length (records_bytes vs))"
    using tot assms by (intro walk_records_complete [where rest = rest])
      (auto simp: batch_bytes_def dest: batch_wf_records)
  then show ?thesis
    using assms tot crc nz
    by (simp add: validate_batch_def batch_wf_decode Let_def batch_wf_def kBatchHeaderBytes_def)
qed

lemma decode_header_Inr:
  "decode_header p = Inr h \<Longrightarrow>
   52 \<le> length p \<and> bh_magic h = kMagicV0 \<and> 52 \<le> total_bytes h \<and>
   total_bytes h \<le> kMaxBatchBytes \<and> header_bytes h = take 52 p"
  by (auto simp: decode_header_def Let_def header_bytes_load kBatchHeaderBytes_def split: if_splits)

lemma decode_header_load: "decode_header p = Inr h \<Longrightarrow> h = load_header p"
  by (auto simp: decode_header_def Let_def split: if_splits)

lemma decode_header_Inl: "decode_header p = Inl e \<Longrightarrow> e = kCorruptRecord"
  by (auto simp: decode_header_def Let_def split: if_splits)

lemma validate_sound:
  assumes "validate_batch framed = Inr ()"
  shows "\<exists>h vs rest. framed = batch_bytes h vs @ rest \<and> batch_wf h vs"
proof -
  obtain h where h: "decode_header framed = Inr h"
    using assms by (auto simp: validate_batch_def split: sum.splits)
  note d = decode_header_Inr [OF h]
  have len: "total_bytes h \<le> length framed" and crc: "compute_crc framed (total_bytes h) = bh_crc h"
    and nz: "bh_record_count h \<noteq> 0" and lod: "bh_last_offset_delta h = bh_record_count h - 1"
    and attr: "bh_attributes h AND kAttrCompressed = 0"
    and walk: "walk_records framed (total_bytes h) 52 (unat (bh_record_count h)) = Some (total_bytes h)"
    using assms by (auto simp: validate_batch_def h Let_def kBatchHeaderBytes_def
        split: if_splits option.splits)
  obtain vs where vs: "length vs = unat (bh_record_count h)"
    "drop 52 framed = records_bytes vs @ drop (total_bytes h) framed"
    "total_bytes h = 52 + length (records_bytes vs)"
    using walk_records_sound [OF walk _ len] d by blast
  have "header_bytes h = take 52 framed" using d by blast
  then have framed: "framed = batch_bytes h vs @ drop (total_bytes h) framed"
    using vs(2) append_take_drop_id [of 52 framed] by (simp add: batch_bytes_def)
  have "take (total_bytes h) framed = batch_bytes h vs"
    using arg_cong [OF framed, of "take (total_bytes h)"] vs(3) by simp
  then have "bh_crc h = crc32c (drop 16 (batch_bytes h vs))"
    using crc by (simp add: compute_crc_def consts_of drop_take [symmetric] drop_take)
  moreover have "vs \<noteq> []" using vs(1) nz by (auto simp: unsigned_eq_0_iff)
  ultimately have "batch_wf h vs"
    using d vs lod attr by (simp add: batch_wf_def consts_of)
  with framed show ?thesis by blast
qed

lemma validate_Inl: "validate_batch p = Inl e \<Longrightarrow> e = kCorruptRecord"
  by (auto simp: validate_batch_def Let_def dest: decode_header_Inl split: sum.splits if_splits option.splits)

lemma validate_cases: "validate_batch p = Inr () \<or> validate_batch p = fail kCorruptRecord"
  using validate_Inl [of p] by (cases "validate_batch p") auto

text \<open>The shape of a batch is determined by its bytes.\<close>

lemma batch_bytes_header: "load_header (batch_bytes h vs @ rest) = h"
  by (simp add: batch_bytes_def)

lemma iterate_batch:
  assumes "batch_wf h vs"
  shows "iterate_records (RecordIterator_new (batch_bytes h vs @ rest)) = vs"
proof -
  have "load_u32_le (drop 8 (batch_bytes h vs @ rest)) = bh_batch_length h"
    using arg_cong [OF batch_bytes_header [of h vs rest], of bh_batch_length]
    by (simp add: load_header_def)
  then have "RecordIterator_new (batch_bytes h vs @ rest) =
      \<lparr>it_framed = batch_bytes h vs @ rest, it_pos = 52, it_end = 52 + length (records_bytes vs)\<rparr>"
    using assms by (simp add: RecordIterator_new_def batch_wf_def total_bytes_def consts_of Let_def)
  then show ?thesis
    using assms by (auto intro!: iterate_records_complete [where rest = rest]
        simp: batch_bytes_def dest: batch_wf_records)
qed

lemma batch_prefix_refused:
  assumes "batch_wf h vs" and "n < length (batch_bytes h vs)"
  shows "validate_batch (take n (batch_bytes h vs)) = fail kCorruptRecord"
proof -
  have False if ok: "validate_batch (take n (batch_bytes h vs)) = Inr ()"
  proof -
    obtain h' vs' rest where p: "take n (batch_bytes h vs) = batch_bytes h' vs' @ rest"
      and wf: "batch_wf h' vs'"
      using validate_sound [OF ok] by blast
    have len: "length (batch_bytes h' vs') \<le> n"
      using arg_cong [OF p, of length] assms(2) by simp
    then have "take n (batch_bytes h vs) = header_bytes h @ take (n - 52) (records_bytes vs)"
      by (simp add: batch_bytes_def)
    then have "h' = h"
      using arg_cong [OF p, of load_header] batch_bytes_header [of h' vs' rest] by simp
    then show False
      using wf assms len by (simp add: batch_wf_def)
  qed
  with validate_cases show ?thesis by blast
qed

section \<open>The builder keeps its buffer framed\<close>

text \<open>The records a builder holds: 52 reserved bytes, then the framed records.\<close>

definition builds :: "BatchBuilder \<Rightarrow> bytes list \<Rightarrow> bool" where
  "builds b vs \<longleftrightarrow>
     Buffer_ok (bb_buf b) \<and>
     (\<exists>hd. length hd = 52 \<and> Buffer_slice (bb_buf b) = hd @ records_bytes vs) \<and>
     52 + length (records_bytes vs) \<le> kMaxBatchBytes \<and>
     unat (bb_record_count b) = length vs"

lemma builds_size: "builds b vs \<Longrightarrow> Buffer_size (bb_buf b) = 52 + length (records_bytes vs)"
  by (auto simp: builds_def length_Buffer_slice [symmetric])

lemma builds_clear: "builds (BatchBuilder_clear b) []"
  by (auto simp: builds_def BatchBuilder_clear_def Buffer_ok_def Buffer_slice_eq
      append_uninitialized_def Buffer_clear_def Let_def write_at_def resize_def consts_of)

lemma builds_new: "builds BatchBuilder_new []"
  unfolding BatchBuilder_new_def by (rule builds_clear)

lemma builds_add_record:
  assumes "builds b vs"
  shows "BatchBuilder_add_record v b =
           (if 52 + length (records_bytes (vs @ [v])) \<le> kMaxBatchBytes
            then (Inr (), snd (BatchBuilder_add_record v b)) else (fail kMessageTooLarge, b))"
    and "52 + length (records_bytes (vs @ [v])) \<le> kMaxBatchBytes \<Longrightarrow>
         builds (snd (BatchBuilder_add_record v b)) (vs @ [v])"
proof -
  have size: "Buffer_size (bb_buf b) = 52 + length (records_bytes vs)"
    using assms by (rule builds_size)
  show "BatchBuilder_add_record v b =
           (if 52 + length (records_bytes (vs @ [v])) \<le> kMaxBatchBytes
            then (Inr (), snd (BatchBuilder_add_record v b)) else (fail kMessageTooLarge, b))"
    using size by (auto simp: BatchBuilder_add_record_def Let_def kRecordLengthBytes_def)
  assume fits: "52 + length (records_bytes (vs @ [v])) \<le> kMaxBatchBytes"
  have "length vs \<le> length (records_bytes vs)" by (rule records_count_length)
  then have "unat (bb_record_count b + 1) = Suc (length vs)"
    using assms fits by (subst unat_add_u32) (auto simp: builds_def consts_of)
  then show "builds (snd (BatchBuilder_add_record v b)) (vs @ [v])"
    using assms fits size
    by (auto simp: BatchBuilder_add_record_def Let_def kRecordLengthBytes_def builds_def
        buf.put_valid buf.put_contents append_le_eq record_frame_def)
qed

lemma Buffer_stamp_ok: "Buffer_ok b \<Longrightarrow> Buffer_ok (Buffer_stamp f b)"
  by (simp add: Buffer_stamp_def Buffer_ok_def)

lemma Buffer_stamp_slice: "Buffer_ok b \<Longrightarrow> Buffer_slice (Buffer_stamp f b) = f (Buffer_slice b)"
  by (simp add: Buffer_stamp_def Buffer_ok_def Buffer_slice_eq)

lemma stamp_crc:
  "write_at (header_bytes h @ rest) kCrcFieldOffset (store_u32_le c) = header_bytes (h\<lparr>bh_crc := c\<rparr>) @ rest"
  by (simp add: header_bytes_def write_at_def consts_of)

lemma drop16_batch: "drop 16 (batch_bytes (h\<lparr>bh_crc := c\<rparr>) vs) = drop 16 (batch_bytes h vs)"
  by (simp add: batch_bytes_def header_bytes_def)

definition unsealed_header :: "u64 \<Rightarrow> BatchMeta \<Rightarrow> bytes list \<Rightarrow> BatchHeader" where
  "unsealed_header base_off meta vs =
     \<lparr>bh_base_offset = base_off,
      bh_batch_length = of_nat (40 + length (records_bytes vs)),
      bh_leader_epoch = meta_leader_epoch meta,
      bh_magic = kMagicV0,
      bh_attributes = (if meta_control meta then kAttrControl else 0),
      bh_crc = 0,
      bh_last_offset_delta = of_nat (length vs) - 1,
      bh_timestamp_ms = meta_timestamp_ms meta,
      bh_producer_id = meta_producer_id meta,
      bh_producer_epoch = meta_producer_epoch meta,
      bh_base_sequence = meta_base_sequence meta,
      bh_record_count = of_nat (length vs)\<rparr>"

definition finished_header :: "u64 \<Rightarrow> BatchMeta \<Rightarrow> bytes list \<Rightarrow> BatchHeader" where
  "finished_header base_off meta vs =
     (unsealed_header base_off meta vs)
       \<lparr>bh_crc := crc32c (drop 16 (batch_bytes (unsealed_header base_off meta vs) vs))\<rparr>"

lemma finish_bytes:
  assumes "builds b vs"
  shows "fst (BatchBuilder_finish base_off meta b) = batch_bytes (finished_header base_off meta vs) vs"
    and "builds (snd (BatchBuilder_finish base_off meta b)) vs"
proof -
  obtain hd where ok: "Buffer_ok (bb_buf b)" and hd: "length hd = 52"
    and slice: "Buffer_slice (bb_buf b) = hd @ records_bytes vs"
    and rc: "bb_record_count b = of_nat (length vs)"
    using assms by (auto simp: builds_def dest: word_of_unat)
  note size = builds_size [OF assms]
  have stamped: "Buffer_size (Buffer_stamp (\<lambda>p. encode_header p h) (bb_buf b)) = 52 + length (records_bytes vs)"
    "Buffer_slice (Buffer_stamp (\<lambda>p. encode_header p h) (bb_buf b)) = batch_bytes h vs" for h
    using hd by (simp_all add: length_Buffer_slice [symmetric] Buffer_stamp_slice ok slice
        encode_header_eq batch_bytes_def)
  show "fst (BatchBuilder_finish base_off meta b) = batch_bytes (finished_header base_off meta vs) vs"
    using stamped
    by (simp add: BatchBuilder_finish_def finished_header_def unsealed_header_def Let_def size rc Buffer_stamp_ok
        Buffer_stamp_slice ok compute_crc_def kCrcCoveredFrom_def kBatchLengthPrefixBytes_def
        stamp_crc batch_bytes_def)
  show "builds (snd (BatchBuilder_finish base_off meta b)) vs"
    using assms stamped
    by (auto simp: BatchBuilder_finish_def Let_def builds_def Buffer_stamp_ok Buffer_stamp_slice
        batch_bytes_def stamp_crc)
qed

lemma finished_header_wf:
  assumes "vs \<noteq> []" and "52 + length (records_bytes vs) \<le> kMaxBatchBytes"
  shows "batch_wf (finished_header base_off meta vs) vs"
proof -
  have "length vs < 4294967296" and "40 + length (records_bytes vs) < 4294967296"
    using records_count_length [of vs] assms(2) by (simp_all add: consts_of)
  then have "unat (of_nat (length vs) :: u32) = length vs"
    and "unat (of_nat (40 + length (records_bytes vs)) :: u32) = 40 + length (records_bytes vs)"
    using unat_of_nat_u32 by blast+
  then show ?thesis
    using assms drop16_batch [where h = "unsealed_header base_off meta vs"]
    by (simp add: batch_wf_def finished_header_def total_bytes_def kCrcCoveredFrom_def
        kBatchLengthPrefixBytes_def)
      (simp add: unsealed_header_def consts_of)
qed

section \<open>Single-byte damage and the base offset\<close>

lemma load_u32_le_inj: "length p = 4 \<Longrightarrow> length q = 4 \<Longrightarrow> load_u32_le p = load_u32_le q \<Longrightarrow> p = q"
  by (metis store_load_u32)

lemma load_u32_le_update:
  "k + 4 \<le> i \<Longrightarrow> load_u32_le (drop k (p[i := b])) = load_u32_le (drop k p)"
  by (simp add: load_u32_le_def drop_update_swap)

lemma validate_batch_bytes:
  assumes "validate_batch framed = Inr ()"
  obtains vs where "batch_wf (load_header framed) vs"
    and "take (total_bytes (load_header framed)) framed = batch_bytes (load_header framed) vs"
    and "total_bytes (load_header framed) \<le> length framed"
proof -
  obtain h vs rest where f: "framed = batch_bytes h vs @ rest" and wf: "batch_wf h vs"
    using validate_sound [OF assms] by blast
  have h: "load_header framed = h" unfolding f by (rule batch_bytes_header)
  have "total_bytes h = length (batch_bytes h vs)" using wf by (simp add: batch_wf_def)
  with wf show thesis
    by (intro that [of vs]; unfold h) (simp_all add: f)
qed

lemma covered_crc:
  assumes "validate_batch framed = Inr ()"
  shows "crc32c (drop 16 (take (total_bytes (load_header framed)) framed)) = bh_crc (load_header framed)"
  using assms by (rule validate_batch_bytes) (simp add: batch_wf_def consts_of)

lemma covered_byte_refused:
  assumes "validate_batch framed = Inr ()" and "16 \<le> i" and "i < total_bytes (load_header framed)"
    and "framed ! i \<noteq> b"
  shows "validate_batch (framed[i := b]) \<noteq> Inr ()"
proof
  assume ok: "validate_batch (framed[i := b]) = Inr ()"
  let ?t = "total_bytes (load_header framed)"
  have len: "?t \<le> length framed" using assms(1) by (rule validate_batch_bytes)
  have "total_bytes (load_header (framed[i := b])) = ?t"
    and "bh_crc (load_header (framed[i := b])) = bh_crc (load_header framed)"
    using assms(2) by (simp_all add: total_bytes_def load_header_def load_u32_le_update)
  then have "crc32c (drop 16 (take ?t (framed[i := b]))) = crc32c (drop 16 (take ?t framed))"
    using covered_crc [OF assms(1)] covered_crc [OF ok] by simp
  moreover have "drop 16 (take ?t (framed[i := b])) = (drop 16 (take ?t framed))[i - 16 := b]"
    using assms(2,3) by (simp add: drop_update_swap take_update_swap)
  moreover have "drop 16 (take ?t framed) ! (i - 16) = framed ! i"
    and "i - 16 < length (drop 16 (take ?t framed))"
    using assms(2,3) len by simp_all
  ultimately show False
    using crc32c_update [of "i - 16" "drop 16 (take ?t framed)" b] assms(4) by simp
qed

lemma crc_byte_refused:
  assumes "validate_batch framed = Inr ()" and "12 \<le> i" and "i < 16" and "framed ! i \<noteq> b"
  shows "validate_batch (framed[i := b]) \<noteq> Inr ()"
proof
  assume ok: "validate_batch (framed[i := b]) = Inr ()"
  let ?t = "total_bytes (load_header framed)"
  have len: "52 \<le> length framed" using validate_sound [OF assms(1)] by auto
  have "total_bytes (load_header (framed[i := b])) = ?t"
    using assms(2) by (simp add: total_bytes_def load_header_def load_u32_le_update)
  moreover have "drop 16 (take ?t (framed[i := b])) = drop 16 (take ?t framed)"
    using assms(3) by (simp add: drop_take)
  ultimately have "bh_crc (load_header (framed[i := b])) = bh_crc (load_header framed)"
    using covered_crc [OF assms(1)] covered_crc [OF ok] by simp
  then have "load_u32_le (take 4 (drop 12 (framed[i := b]))) = load_u32_le (take 4 (drop 12 framed))"
    by (simp add: load_header_def load_take)
  then have eq: "take 4 (drop 12 (framed[i := b])) = take 4 (drop 12 framed)"
    using len by (intro load_u32_le_inj) simp_all
  have "take 4 (drop 12 (framed[i := b])) ! (i - 12) = b"
    and "take 4 (drop 12 framed) ! (i - 12) = framed ! i"
    using assms(2,3) len by simp_all
  with eq assms(4) show False by simp
qed

lemma rewrite_base_offset:
  "write_at (batch_bytes h vs @ rest) 0 (store_u64_le bo) = batch_bytes (h\<lparr>bh_base_offset := bo\<rparr>) vs @ rest"
  by (simp add: batch_bytes_def header_bytes_def write_at_def)

lemma batch_wf_base_offset: "batch_wf h vs \<Longrightarrow> batch_wf (h\<lparr>bh_base_offset := bo\<rparr>) vs"
  by (simp add: batch_wf_def total_bytes_def consts_of)
    (simp add: batch_bytes_def header_bytes_def)

lemma validate_rewrite:
  "validate_batch framed = Inr () \<Longrightarrow> validate_batch (write_at framed 0 (store_u64_le bo)) = Inr ()"
  using validate_complete [OF batch_wf_base_offset]
  by (auto dest!: validate_sound simp: rewrite_base_offset)

section \<open>A concrete batch\<close>

text \<open>Two records under epoch 3, the input of the concrete instances below.\<close>

definition sample_meta :: BatchMeta where
  "sample_meta = \<lparr>meta_leader_epoch = 3, meta_control = False, meta_timestamp_ms = 0,
     meta_producer_id = 0, meta_producer_epoch = 0, meta_base_sequence = 0\<rparr>"

definition sample_builder :: BatchBuilder where
  "sample_builder = snd (BatchBuilder_add_record [9] (snd (BatchBuilder_add_record [7, 8] BatchBuilder_new)))"

definition sample_batch :: "u64 \<Rightarrow> bytes" where
  "sample_batch base_off = fst (BatchBuilder_finish base_off sample_meta sample_builder)"

lemma sample_builds: "builds sample_builder [[7, 8], [9]]"
proof -
  have "builds (snd (BatchBuilder_add_record [7, 8] BatchBuilder_new)) ([] @ [[7, 8]])"
    by (rule builds_add_record(2) [OF builds_new]) (simp add: consts_of)
  from builds_add_record(2) [OF this, of "[9]"] show ?thesis
    by (simp add: sample_builder_def consts_of)
qed

lemma sample_batch_bytes:
  "sample_batch bo = batch_bytes (finished_header bo sample_meta [[7, 8], [9]]) [[7, 8], [9]]"
  unfolding sample_batch_def by (rule finish_bytes [OF sample_builds])

lemma sample_batch_wf: "batch_wf (finished_header bo sample_meta [[7, 8], [9]]) [[7, 8], [9]]"
  by (rule finished_header_wf) (simp_all add: consts_of)

lemma sample_batch_valid: "validate_batch (sample_batch bo) = Inr ()"
  using validate_complete [OF sample_batch_wf, of bo "[]"] by (simp add: sample_batch_bytes)

lemma sample_batch_header: "load_header (sample_batch bo) = finished_header bo sample_meta [[7, 8], [9]]"
  using batch_bytes_header [where rest = "[]"] by (simp add: sample_batch_bytes)

lemma sample_batch_total: "total_bytes (load_header (sample_batch bo)) = 63"
  using sample_batch_wf [of bo] by (simp add: batch_wf_def sample_batch_header)

lemma length_sample_batch: "length (sample_batch bo) = 63"
  by (simp add: sample_batch_bytes)

section \<open>Properties\<close>

text \<open>C6. Validation accepts a view of bytes exactly when it begins with a well-formed batch:
  a header with the right magic, no compression bit, a length that covers the header and the
  framed records and stays below the cap, a checksum over everything after the checksum field,
  at least one record and a matching offset delta.\<close>

theorem validate_batch_iff:
  "validate_batch framed = Inr () \<longleftrightarrow> (\<exists>h vs rest. framed = batch_bytes h vs @ rest \<and> batch_wf h vs)"
  using validate_sound validate_complete by blast

text \<open>C17. Whatever records a builder took, the batch it finishes validates; decoding gives back the header
  that was stamped, in every field: the offset and all the metadata the caller gave, the format, the
  control bit alone among the attributes, the size, the number of records and the span of one offset per
  record; and iterating gives the records back in order, also when other bytes follow in the buffer.\<close>

theorem finish_round_trip:
  assumes "builds b vs" and "vs \<noteq> []"
  shows "let framed = fst (BatchBuilder_finish base_off meta b) @ rest
         in validate_batch framed = Inr () \<and>
            (\<exists>h. decode_header framed = Inr h \<and>
                 bh_base_offset h = base_off \<and> bh_leader_epoch h = meta_leader_epoch meta \<and>
                 bh_magic h = kMagicV0 \<and> bh_attributes h = (if meta_control meta then kAttrControl else 0) \<and>
                 is_control h = meta_control meta \<and>
                 bh_timestamp_ms h = meta_timestamp_ms meta \<and> bh_producer_id h = meta_producer_id meta \<and>
                 bh_producer_epoch h = meta_producer_epoch meta \<and> bh_base_sequence h = meta_base_sequence meta \<and>
                 unat (bh_record_count h) = length vs \<and> unat (bh_last_offset_delta h) + 1 = length vs \<and>
                 total_bytes h = BatchBuilder_framed_bytes b \<and>
                 next_offset h = base_off + of_nat (length vs)) \<and>
            iterate_records (RecordIterator_new framed) = vs"
proof -
  let ?h = "finished_header base_off meta vs"
  have wf: "batch_wf ?h vs"
    using assms by (intro finished_header_wf) (auto simp: builds_def)
  have count: "length vs < 4294967296"
    using records_count_length [of vs] assms(1) by (simp add: builds_def consts_of)
  moreover have ne: "0 < length vs" using assms(2) by simp
  ultimately have "ucast (of_nat (length vs) - 1 :: u32) = (of_nat (length vs) - 1 :: u64)"
    by (rule ucast_of_nat_minus_1)
  then have "next_offset ?h = base_off + of_nat (length vs)"
    by (simp add: next_offset_def last_offset_def finished_header_def unsealed_header_def)
  moreover have "is_control ?h = meta_control meta"
    by (simp add: is_control_def finished_header_def unsealed_header_def consts_of)
  moreover have "total_bytes ?h = BatchBuilder_framed_bytes b"
    using wf builds_size [OF assms(1)] by (simp add: batch_wf_def BatchBuilder_framed_bytes_def)
  moreover have "unat (bh_record_count ?h) = length vs"
    using count by (simp add: finished_header_def unsealed_header_def unat_of_nat_u32)
  moreover have "unat (bh_last_offset_delta ?h) + 1 = length vs"
  proof -
    obtain m where m: "length vs = Suc m" using ne by (cases "length vs") simp_all
    then have "bh_last_offset_delta ?h = of_nat m" by (simp add: finished_header_def unsealed_header_def)
    then show ?thesis using count m by (simp add: unat_of_nat_u32)
  qed
  ultimately show ?thesis
    using wf by (simp add: finish_bytes [OF assms(1)] validate_complete batch_wf_decode iterate_batch)
      (simp add: finished_header_def unsealed_header_def)
qed

theorem finish_round_trip_witness:
  "let framed = fst (BatchBuilder_finish 41 sample_meta sample_builder) @ [1, 2, 3]
   in validate_batch framed = Inr () \<and>
      (\<exists>h. decode_header framed = Inr h \<and> bh_base_offset h = 41 \<and>
           bh_timestamp_ms h = meta_timestamp_ms sample_meta \<and> bh_producer_id h = meta_producer_id sample_meta \<and>
           unat (bh_record_count h) = 2 \<and> next_offset h = 43) \<and>
      iterate_records (RecordIterator_new framed) = [[7, 8], [9]]"
  using finish_round_trip [OF sample_builds, of 41 sample_meta "[1, 2, 3]"] by (auto simp: Let_def)

text \<open>C18. Damage to any one byte from the checksum field to the end of the batch is refused as a
  corrupt record, wherever in the batch it falls and whatever follows the batch.\<close>

theorem byte_damage_refused:
  assumes "validate_batch framed = Inr ()"
    and "kCrcFieldOffset \<le> i" and "i < total_bytes (load_header framed)" and "framed ! i \<noteq> b"
  shows "validate_batch (framed[i := b]) = fail kCorruptRecord"
proof (cases "i < 16")
  case True
  then show ?thesis
    using crc_byte_refused [OF assms(1) _ True assms(4)] assms(2) validate_cases
    by (auto simp: kCrcFieldOffset_def)
next
  case False
  then show ?thesis
    using covered_byte_refused [OF assms(1) _ assms(3,4)] validate_cases by auto
qed

theorem byte_damage_refused_witness:
  "validate_batch ((sample_batch 5)[21 := 2]) = fail kCorruptRecord"
proof (rule byte_damage_refused)
  show "sample_batch 5 ! 21 \<noteq> 2"
    by (simp add: sample_batch_bytes batch_bytes_def header_bytes_def nth_append
        finished_header_def unsealed_header_def sample_meta_def)
qed (simp_all add: sample_batch_valid sample_batch_total consts_of)

text \<open>C19. A torn batch never passes: every proper prefix of a batch that validates is refused, with
  no assumption on what the checksum of the shorter run happens to be.\<close>

theorem torn_batch_refused:
  assumes "validate_batch framed = Inr ()" and "n < total_bytes (load_header framed)"
  shows "validate_batch (take n framed) = fail kCorruptRecord"
proof -
  obtain vs where wf: "batch_wf (load_header framed) vs"
    and bytes: "take (total_bytes (load_header framed)) framed = batch_bytes (load_header framed) vs"
    using validate_batch_bytes [OF assms(1)] .
  have "n < length (batch_bytes (load_header framed) vs)"
    using wf assms(2) by (simp add: batch_wf_def)
  from batch_prefix_refused [OF wf this] bytes [symmetric] assms(2) show ?thesis
    by (simp add: min_absorb1)
qed

theorem torn_batch_refused_witness:
  "validate_batch (take 60 (sample_batch 5)) = fail kCorruptRecord"
  by (rule torn_batch_refused) (simp_all add: sample_batch_valid sample_batch_total)

text \<open>C20. The base offset can be assigned after the fact: rewriting the first eight bytes neither
  makes nor breaks a batch, changes no other header field and leaves the records alone.\<close>

theorem base_offset_rewritable:
  assumes "8 \<le> length framed"
  shows "validate_batch (write_at framed 0 (store_u64_le bo)) = validate_batch framed \<and>
         load_header (write_at framed 0 (store_u64_le bo)) = (load_header framed)\<lparr>bh_base_offset := bo\<rparr>"
proof -
  let ?f = "write_at framed 0 (store_u64_le bo)"
  have undo: "framed = write_at ?f 0 (store_u64_le (load_u64_le framed))"
    using assms store_load_slices(1) [of 0 framed] by (simp add: write_at_def)
  have "validate_batch ?f = Inr () \<longleftrightarrow> validate_batch framed = Inr ()"
    using validate_rewrite [of framed bo] validate_rewrite [of ?f "load_u64_le framed"] undo by auto
  then have "validate_batch ?f = validate_batch framed"
    using validate_cases [of ?f] validate_cases [of framed] by auto
  moreover have "drop k ?f = drop k framed" if "8 \<le> k" for k
    using that by (simp add: write_at_def)
  moreover have "?f ! k = framed ! k" if "8 \<le> k" for k
    using that by (simp add: write_at_def nth_append assms)
  ultimately show ?thesis
    by (simp add: load_header_def write_at_def load_store_u64)
qed

theorem base_offset_rewritable_witness:
  "validate_batch (write_at (sample_batch 5) 0 (store_u64_le 900)) = validate_batch (sample_batch 5) \<and>
   load_header (write_at (sample_batch 5) 0 (store_u64_le 900))
   = (load_header (sample_batch 5))\<lparr>bh_base_offset := 900\<rparr>"
  by (rule base_offset_rewritable) (simp add: length_sample_batch)

end
