(* ===== verification/Sparse_Index.thy ===== *)
theory Sparse_Index
  imports Buffer
begin

text \<open>
  \<^verbatim>\<open>src/src/storage/sparse_index.h\<close> and \<^verbatim>\<open>sparse_index.cpp\<close>: the sorted
  list of (relative offset, file position) hints of a segment. The invariant is that both
  fields increase strictly. Every operation keeps it, including \<^verbatim>\<open>decode\<close> on bytes
  that a crash left in any state, so the binary searches find what they are meant to find.
\<close>

section \<open>The index\<close>

record IndexEntry =
  rel_offset :: u32
  file_pos :: u32

definition kIndexEntryBytes :: nat where [consts_of]: "kIndexEntryBytes = 8"
definition kDefaultIndexIntervalBytes :: u32 where [consts_of]: "kDefaultIndexIntervalBytes = 4096"

type_synonym SparseIndex = "IndexEntry list"

text \<open>The assertion of \<^verbatim>\<open>add\<close>, and \<^verbatim>\<open>add\<close> itself.\<close>

definition SparseIndex_add_assert :: "u32 \<Rightarrow> u32 \<Rightarrow> SparseIndex \<Rightarrow> bool" where
  "SparseIndex_add_assert rel pos es \<longleftrightarrow>
     es = [] \<or> (rel > rel_offset (last es) \<and> pos > file_pos (last es))"

definition SparseIndex_add :: "u32 \<Rightarrow> u32 \<Rightarrow> SparseIndex \<Rightarrow> SparseIndex" where
  "SparseIndex_add rel pos es = es @ [\<lparr>rel_offset = rel, file_pos = pos\<rparr>]"

definition SparseIndex_maybe_add :: "u32 \<Rightarrow> u32 \<Rightarrow> u32 \<Rightarrow> SparseIndex \<Rightarrow> SparseIndex" where
  "SparseIndex_maybe_add rel pos interval_bytes es =
     (if es \<noteq> [] \<and> rel \<le> rel_offset (last es) then es
      else if es \<noteq> [] \<and> pos \<le> file_pos (last es) then es
      else if es \<noteq> [] \<and> pos - file_pos (last es) < interval_bytes then es
      else SparseIndex_add rel pos es)"

definition SparseIndex_lookup :: "u32 \<Rightarrow> SparseIndex \<Rightarrow> IndexEntry" where
  "SparseIndex_lookup rel es =
     (let it = upper_bound (\<lambda>target e. target < rel_offset e) es rel
      in if it = 0 then \<lparr>rel_offset = 0, file_pos = 0\<rparr> else es ! (it - 1))"

definition SparseIndex_truncate_from :: "u32 \<Rightarrow> SparseIndex \<Rightarrow> SparseIndex" where
  "SparseIndex_truncate_from pos es = take (lower_bound (\<lambda>e target. file_pos e < target) es pos) es"

definition SparseIndex_encode :: "SparseIndex \<Rightarrow> Buffer \<Rightarrow> Buffer" where
  "SparseIndex_encode es out =
     fold (\<lambda>e out. append_u32_le (file_pos e) (append_u32_le (rel_offset e) out)) es out"

definition entry_at :: "bytes \<Rightarrow> nat \<Rightarrow> IndexEntry" where
  "entry_at bs i =
     (let p = drop (i * kIndexEntryBytes) bs
      in \<lparr>rel_offset = load_u32_le p, file_pos = load_u32_le (drop 4 p)\<rparr>)"

text \<open>The loop of \<^verbatim>\<open>decode\<close> from entry \<open>i\<close> on, with \<open>n\<close> entries left.\<close>

fun decode_entries :: "bytes \<Rightarrow> u32 \<Rightarrow> nat \<Rightarrow> nat \<Rightarrow> SparseIndex \<Rightarrow> SparseIndex" where
  "decode_entries bs log_size i 0 es = es"
| "decode_entries bs log_size i (Suc n) es =
     (let e = entry_at bs i
      in if file_pos e \<ge> log_size then es
         else if es \<noteq> [] \<and> (rel_offset e \<le> rel_offset (last es) \<or> file_pos e \<le> file_pos (last es))
              then es
         else decode_entries bs log_size (i + 1) n (es @ [e]))"

definition SparseIndex_decode :: "bytes \<Rightarrow> u32 \<Rightarrow> SparseIndex" where
  "SparseIndex_decode bs log_size =
     decode_entries bs log_size 0 (length bs div kIndexEntryBytes) []"

section \<open>The invariant\<close>

definition index_ok :: "SparseIndex \<Rightarrow> bool" where
  "index_ok es \<longleftrightarrow>
     sorted_wrt (\<lambda>a b. rel_offset a < rel_offset b \<and> file_pos a < file_pos b) es"

lemma index_ok_Nil [simp]: "index_ok []"
  by (simp add: index_ok_def)

lemma index_ok_snoc:
  "index_ok (es @ [e]) \<longleftrightarrow> index_ok es \<and>
     (es = [] \<or> (rel_offset (last es) < rel_offset e \<and> file_pos (last es) < file_pos e))"
proof (cases es rule: rev_exhaust)
  case (snoc fs f)
  then show ?thesis by (auto simp: index_ok_def sorted_wrt_append)
qed (simp add: index_ok_def)

lemma index_ok_take: "index_ok es \<Longrightarrow> index_ok (take n es)"
  by (simp add: index_ok_def sorted_wrt_take)

lemma index_ok_last:
  "index_ok es \<Longrightarrow> e \<in> set es \<Longrightarrow> rel_offset e \<le> rel_offset (last es) \<and> file_pos e \<le> file_pos (last es)"
  by (cases es rule: rev_exhaust) (auto simp: index_ok_def sorted_wrt_append)

lemma maybe_add_cases:
  "SparseIndex_maybe_add rel pos iv es =
     (if SparseIndex_add_assert rel pos es \<and> (es = [] \<or> iv \<le> pos - file_pos (last es))
      then es @ [\<lparr>rel_offset = rel, file_pos = pos\<rparr>] else es)"
  by (auto simp: SparseIndex_maybe_add_def SparseIndex_add_assert_def SparseIndex_add_def)

lemma maybe_add_ok: "index_ok es \<Longrightarrow> index_ok (SparseIndex_maybe_add rel pos iv es)"
  by (auto simp: maybe_add_cases index_ok_snoc SparseIndex_add_assert_def)

lemma maybe_add_set:
  "set (SparseIndex_maybe_add rel pos iv es) \<subseteq> insert \<lparr>rel_offset = rel, file_pos = pos\<rparr> (set es)"
  by (auto simp: maybe_add_cases)

lemma lookup_partitioned: "index_ok es \<Longrightarrow> partitioned (\<lambda>e. \<not> t < rel_offset e) es"
  unfolding index_ok_def partitioned_def by (erule sorted_wrt_mono_rel [rotated]) auto

lemma truncate_partitioned: "index_ok es \<Longrightarrow> partitioned (\<lambda>e. file_pos e < p) es"
  unfolding index_ok_def partitioned_def by (erule sorted_wrt_mono_rel [rotated]) auto

lemma takeWhile_eq_filter_partitioned: "partitioned q es \<Longrightarrow> takeWhile q es = filter q es"
proof (induction es)
  case (Cons e es)
  then have IH: "takeWhile q es = filter q es" and
    "\<forall>x \<in> set es. q x \<longrightarrow> q e" by (auto simp: partitioned_def)
  then show ?case by (auto simp: filter_empty_conv)
qed simp

lemma truncate_from_filter:
  "index_ok es \<Longrightarrow> SparseIndex_truncate_from p es = filter (\<lambda>e. file_pos e < p) es"
  using takeWhile_eq_filter_partitioned [OF truncate_partitioned, of es p]
    takeWhile_eq_take [of "\<lambda>e. file_pos e < p" es]
  by (simp add: SparseIndex_truncate_from_def lower_bound_eq truncate_partitioned)

lemma truncate_from_ok: "index_ok es \<Longrightarrow> index_ok (SparseIndex_truncate_from p es)"
  by (simp add: SparseIndex_truncate_from_def index_ok_take)

lemma lookup_eq:
  assumes "index_ok es"
  shows "SparseIndex_lookup t es =
           (if filter (\<lambda>e. rel_offset e \<le> t) es = [] then \<lparr>rel_offset = 0, file_pos = 0\<rparr>
            else last (filter (\<lambda>e. rel_offset e \<le> t) es))"
proof -
  let ?q = "\<lambda>e. \<not> t < rel_offset e"
  let ?n = "length (takeWhile ?q es)"
  have p: "partitioned ?q es" using assms by (rule lookup_partitioned)
  have fs: "filter (\<lambda>e. rel_offset e \<le> t) es = takeWhile ?q es"
    using takeWhile_eq_filter_partitioned [OF p] by (simp add: not_less)
  have "es ! (?n - 1) = last (takeWhile ?q es)" if "takeWhile ?q es \<noteq> []"
    using that takeWhile_nth [of "?n - 1" ?q es] by (simp add: last_conv_nth)
  then show ?thesis
    using p by (simp add: SparseIndex_lookup_def upper_bound_eq fs Let_def)
qed

lemma lookup_member:
  "index_ok es \<Longrightarrow>
   SparseIndex_lookup t es = \<lparr>rel_offset = 0, file_pos = 0\<rparr> \<or>
   (SparseIndex_lookup t es \<in> set es \<and> rel_offset (SparseIndex_lookup t es) \<le> t)"
  using last_in_set [of "filter (\<lambda>e. rel_offset e \<le> t) es"]
  by (auto simp: lookup_eq)

section \<open>Reading a sidecar back\<close>

definition raw_entries :: "bytes \<Rightarrow> IndexEntry list" where
  "raw_entries bs = map (entry_at bs) [0..<length bs div kIndexEntryBytes]"

definition entry_bytes :: "IndexEntry \<Rightarrow> bytes" where
  "entry_bytes e = store_u32_le (rel_offset e) @ store_u32_le (file_pos e)"

lemma length_entry_bytes [simp]: "length (entry_bytes e) = 8"
  by (simp add: entry_bytes_def)

lemma decode_entries_prefix:
  assumes "index_ok es" and "\<forall>e \<in> set es. file_pos e < ls"
  shows "\<exists>k \<le> n. decode_entries bs ls i n es = es @ map (entry_at bs) [i..<i + k] \<and>
                 index_ok (es @ map (entry_at bs) [i..<i + k]) \<and>
                 (\<forall>e \<in> set (map (entry_at bs) [i..<i + k]). file_pos e < ls) \<and>
                 (k < n \<longrightarrow> file_pos (entry_at bs (i + k)) \<ge> ls \<or>
                            \<not> index_ok (es @ map (entry_at bs) [i..<Suc (i + k)]))"
  using assms
proof (induction n arbitrary: i es)
  case (Suc n)
  let ?e = "entry_at bs i"
  show ?case
  proof (cases "file_pos ?e < ls \<and> index_ok (es @ [?e])")
    case True
    then obtain k where "k \<le> n"
      "decode_entries bs ls (Suc i) n (es @ [?e]) = (es @ [?e]) @ map (entry_at bs) [Suc i..<Suc i + k]"
      "index_ok ((es @ [?e]) @ map (entry_at bs) [Suc i..<Suc i + k])"
      "\<forall>e \<in> set (map (entry_at bs) [Suc i..<Suc i + k]). file_pos e < ls"
      "k < n \<longrightarrow> file_pos (entry_at bs (Suc i + k)) \<ge> ls \<or>
         \<not> index_ok ((es @ [?e]) @ map (entry_at bs) [Suc i..<Suc (Suc i + k)])"
      using Suc.IH [of "es @ [?e]" "Suc i"] Suc.prems by auto
    moreover have "[i..<i + Suc k] = i # [Suc i..<Suc i + k]"
      and "[i..<Suc (i + Suc k)] = i # [Suc i..<Suc (Suc i + k)]"
      by (simp_all add: upt_rec)
    moreover have "decode_entries bs ls i (Suc n) es = decode_entries bs ls (Suc i) n (es @ [?e])"
      using True by (auto simp: index_ok_snoc not_le Let_def)
    ultimately show ?thesis
      using True by (intro exI [of _ "Suc k"]) auto
  next
    case False
    then have "decode_entries bs ls i (Suc n) es = es"
      using Suc.prems by (auto simp: index_ok_snoc Let_def not_less)
    with False Suc.prems show ?thesis
      by (intro exI [of _ 0]) (auto simp: not_less)
  qed
qed simp

lemma decode_prefix:
  "\<exists>k \<le> length (raw_entries bs).
     SparseIndex_decode bs ls = take k (raw_entries bs) \<and>
     index_ok (take k (raw_entries bs)) \<and> (\<forall>e \<in> set (take k (raw_entries bs)). file_pos e < ls) \<and>
     (k < length (raw_entries bs) \<longrightarrow>
        file_pos (raw_entries bs ! k) \<ge> ls \<or> \<not> index_ok (take (Suc k) (raw_entries bs)))"
  using decode_entries_prefix [of "[]" ls "length bs div kIndexEntryBytes" bs 0]
  by (auto simp: SparseIndex_decode_def raw_entries_def take_map)

lemma decode_ok: "index_ok (SparseIndex_decode bs ls)"
  and decode_bounded: "e \<in> set (SparseIndex_decode bs ls) \<Longrightarrow> file_pos e < ls"
  using decode_prefix [of bs ls] by auto

lemma encode_bytes:
  "Buffer_ok out \<Longrightarrow> Buffer_ok (SparseIndex_encode es out) \<and>
   Buffer_slice (SparseIndex_encode es out) = Buffer_slice out @ concat (map entry_bytes es)"
  by (induction es arbitrary: out)
    (simp_all add: SparseIndex_encode_def append_le_eq buf.put_valid buf.put_contents entry_bytes_def)

lemma entry_at_encoded:
  "i < length es \<Longrightarrow> entry_at (concat (map entry_bytes es) @ rest) i = es ! i"
proof (induction es arbitrary: i)
  case (Cons e es)
  show ?case
  proof (cases i)
    case 0
    then show ?thesis by (simp add: entry_at_def entry_bytes_def load_store_u32)
  next
    case (Suc j)
    then show ?thesis using Cons by (simp add: entry_at_def Let_def kIndexEntryBytes_def)
  qed
qed simp

lemma length_encoded: "length (concat (map entry_bytes es)) = 8 * length es"
  by (induction es) simp_all

lemma raw_entries_encoded:
  "length part < 8 \<Longrightarrow> raw_entries (concat (map entry_bytes es) @ part) = es"
  by (rule nth_equalityI)
    (simp_all add: raw_entries_def length_encoded kIndexEntryBytes_def entry_at_encoded)

lemma decode_encoded:
  assumes "index_ok es" and "length part < 8"
  shows "SparseIndex_decode (concat (map entry_bytes es) @ part) ls = filter (\<lambda>e. file_pos e < ls) es"
proof -
  let ?q = "\<lambda>e. file_pos e < ls"
  obtain k where k: "k \<le> length es" "SparseIndex_decode (concat (map entry_bytes es) @ part) ls = take k es"
    "\<forall>e \<in> set (take k es). ?q e" "k < length es \<longrightarrow> \<not> ?q (es ! k)"
    using decode_prefix [of "concat (map entry_bytes es) @ part" ls] assms
    by (auto simp: raw_entries_encoded index_ok_take not_less)
  have "takeWhile ?q es = take k es"
    using k(3,4) by (intro takeWhile_eq_take_P_nth) (auto simp: set_conv_nth)
  with k(2) show ?thesis
    using takeWhile_eq_filter_partitioned [OF truncate_partitioned [OF assms(1)]] by simp
qed

section \<open>Properties\<close>

text \<open>C21. A lookup gives the greatest entry at or below the target; when there is none it gives the
  start of the segment, and then every entry is past the target.\<close>

theorem lookup_greatest:
  assumes "index_ok es"
  shows "let e = SparseIndex_lookup t es
         in (e = \<lparr>rel_offset = 0, file_pos = 0\<rparr> \<and> (\<forall>x \<in> set es. t < rel_offset x)) \<or>
            (e \<in> set es \<and> rel_offset e \<le> t \<and>
             (\<forall>x \<in> set es. rel_offset x \<le> t \<longrightarrow> rel_offset x \<le> rel_offset e \<and> file_pos x \<le> file_pos e))"
proof (cases "filter (\<lambda>e. rel_offset e \<le> t) es" rule: rev_exhaust)
  case Nil
  then show ?thesis
    using assms by (simp add: lookup_eq filter_empty_conv not_le)
next
  case (snoc fs f)
  have "index_ok (fs @ [f])"
    using assms by (simp add: snoc [symmetric] index_ok_def sorted_wrt_filter)
  then have last: "x \<in> set (fs @ [f]) \<Longrightarrow> rel_offset x \<le> rel_offset f \<and> file_pos x \<le> file_pos f" for x
    using index_ok_last [of "fs @ [f]" x] by simp
  have "SparseIndex_lookup t es = f"
    using assms snoc by (simp add: lookup_eq)
  moreover have "set (fs @ [f]) = {e \<in> set es. rel_offset e \<le> t}"
    using arg_cong [OF snoc, of set] by auto
  ultimately show ?thesis using last by (auto simp: Let_def)
qed

theorem lookup_greatest_witness:
  "let es = [\<lparr>rel_offset = 2, file_pos = 100\<rparr>, \<lparr>rel_offset = 9, file_pos = 5000\<rparr>];
       e = SparseIndex_lookup 7 es
   in (e = \<lparr>rel_offset = 0, file_pos = 0\<rparr> \<and> (\<forall>x \<in> set es. 7 < rel_offset x)) \<or>
      (e \<in> set es \<and> rel_offset e \<le> 7 \<and>
       (\<forall>x \<in> set es. rel_offset x \<le> 7 \<longrightarrow> rel_offset x \<le> rel_offset e \<and> file_pos x \<le> file_pos e))"
  using lookup_greatest [of "[\<lparr>rel_offset = 2, file_pos = 100\<rparr>, \<lparr>rel_offset = 9, file_pos = 5000\<rparr>]" 7]
  by (simp add: index_ok_def Let_def)

text \<open>C22. Reading back a sidecar that a crash left in any state is safe: what comes out is the longest
  leading run of entries that is strictly increasing and points below the end of the log.\<close>

theorem decode_hostile:
  "\<exists>k. SparseIndex_decode bs log_size = take k (raw_entries bs) \<and>
       index_ok (take k (raw_entries bs)) \<and>
       (\<forall>e \<in> set (take k (raw_entries bs)). file_pos e < log_size) \<and>
       (k < length (raw_entries bs) \<longrightarrow>
          file_pos (raw_entries bs ! k) \<ge> log_size \<or> \<not> index_ok (take (Suc k) (raw_entries bs)))"
  using decode_prefix [of bs log_size] by blast

theorem decode_hostile_witness:
  "\<exists>k. SparseIndex_decode [1, 0, 0, 0, 64, 0, 0, 0, 1, 0, 0, 0, 9] 90 = take k (raw_entries [1, 0, 0, 0, 64, 0, 0, 0, 1, 0, 0, 0, 9]) \<and>
       index_ok (take k (raw_entries [1, 0, 0, 0, 64, 0, 0, 0, 1, 0, 0, 0, 9])) \<and>
       (\<forall>e \<in> set (take k (raw_entries [1, 0, 0, 0, 64, 0, 0, 0, 1, 0, 0, 0, 9])). file_pos e < 90) \<and>
       (k < length (raw_entries [1, 0, 0, 0, 64, 0, 0, 0, 1, 0, 0, 0, 9]) \<longrightarrow>
          file_pos (raw_entries [1, 0, 0, 0, 64, 0, 0, 0, 1, 0, 0, 0, 9] ! k) \<ge> 90 \<or>
          \<not> index_ok (take (Suc k) (raw_entries [1, 0, 0, 0, 64, 0, 0, 0, 1, 0, 0, 0, 9])))"
  by (rule decode_hostile)

text \<open>C23. An index survives being written and read back: encoding and decoding gives exactly the
  entries that point below the end of the log, also when half an entry trails behind.\<close>

theorem index_round_trip:
  assumes "index_ok es" and "length part < kIndexEntryBytes"
  shows "SparseIndex_decode (Buffer_slice (SparseIndex_encode es Buffer_new) @ part) log_size
         = SparseIndex_truncate_from log_size es"
  using decode_encoded [OF assms(1), of part] assms
  by (simp add: encode_bytes truncate_from_filter kIndexEntryBytes_def)

theorem index_round_trip_witness:
  "SparseIndex_decode (Buffer_slice (SparseIndex_encode [\<lparr>rel_offset = 2, file_pos = 100\<rparr>] Buffer_new) @ [1, 2]) 4096
   = SparseIndex_truncate_from 4096 [\<lparr>rel_offset = 2, file_pos = 100\<rparr>]"
  by (rule index_round_trip) (simp_all add: index_ok_def consts_of)

end
