(* ===== verification/Io_Disk.thy ===== *)
theory Io_Disk
  imports Base
begin

text \<open>
  \<^verbatim>\<open>src/src/io/disk.h\<close>: the disk behind the seam. The abstract class is a record of
  its operations over a state; the code above the seam is defined for every such record.

  What that code relies on is stated against a reference file system, the type
  \<open>fs\<close>: which handle names which file, and the bytes each file holds. The locale
  \<open>disk\<close> says that an operation of an implementation either fails and leaves that view
  alone or does what the reference operation does; the locale \<open>reliable_disk\<close> adds when
  an operation does not fail. The simulated disk interprets both.
\<close>

section \<open>The interface\<close>

type_synonym FileId = u64

definition kInvalidFile :: FileId where "kInvalidFile = NOT 0"

datatype OpenMode = kRead | kReadWrite | kCreate

record 'd disk_ops =
  dk_open :: "string \<Rightarrow> OpenMode \<Rightarrow> 'd \<Rightarrow> FileId result \<times> 'd"
  dk_close :: "FileId \<Rightarrow> 'd \<Rightarrow> 'd"
  dk_pwrite :: "FileId \<Rightarrow> bytes \<Rightarrow> u64 \<Rightarrow> 'd \<Rightarrow> nat result \<times> 'd"
  dk_pread :: "FileId \<Rightarrow> nat \<Rightarrow> u64 \<Rightarrow> 'd \<Rightarrow> bytes result \<times> 'd"
  dk_fsync :: "FileId \<Rightarrow> 'd \<Rightarrow> status \<times> 'd"
  dk_truncate :: "FileId \<Rightarrow> u64 \<Rightarrow> 'd \<Rightarrow> status \<times> 'd"
  dk_size :: "FileId \<Rightarrow> 'd \<Rightarrow> u64 result \<times> 'd"
  dk_remove :: "string \<Rightarrow> 'd \<Rightarrow> status \<times> 'd"
  dk_make_directories :: "string \<Rightarrow> 'd \<Rightarrow> status \<times> 'd"
  dk_list_directory :: "string \<Rightarrow> 'd \<Rightarrow> string list result \<times> 'd"

text \<open>
  A \<^verbatim>\<open>pread\<close> is given the room it may fill and returns the bytes it put there; the count
  the code returns is their number.
\<close>

section \<open>The reference file system\<close>

text \<open>
  \<open>fs_ids\<close> is how many more files can be opened before an identifier could repeat:
  implementations count identifiers up in 64 bits.
\<close>

record fs =
  fs_handles :: "FileId \<rightharpoonup> string \<times> OpenMode"
  fs_files :: "string \<rightharpoonup> bytes"
  fs_ids :: nat

text \<open>Writing at a position: a gap past the end is filled with zeros.\<close>

definition apply_bytes :: "bytes \<Rightarrow> nat \<Rightarrow> bytes \<Rightarrow> bytes" where
  "apply_bytes img start data =
     (if data = [] then img
      else let img = (if length img < start + length data
                        then resize (start + length data) 0 img else img)
           in write_at img start data)"

definition fs_file :: "fs \<Rightarrow> FileId \<Rightarrow> bytes option" where
  "fs_file v f = (case fs_handles v f of None \<Rightarrow> None | Some (p, m) \<Rightarrow> fs_files v p)"

definition fs_put :: "FileId \<Rightarrow> bytes \<Rightarrow> fs \<Rightarrow> fs" where
  "fs_put f c v =
     (case fs_handles v f of None \<Rightarrow> v | Some (p, m) \<Rightarrow> v\<lparr>fs_files := (fs_files v)(p \<mapsto> c)\<rparr>)"

definition fs_open :: "string \<Rightarrow> OpenMode \<Rightarrow> FileId \<Rightarrow> fs \<Rightarrow> fs" where
  "fs_open p m f v =
     \<lparr>fs_handles = (fs_handles v)(f \<mapsto> (p, m)),
      fs_files = (if fs_files v p = None then (fs_files v)(p \<mapsto> []) else fs_files v),
      fs_ids = fs_ids v - 1\<rparr>"

definition fs_close :: "FileId \<Rightarrow> fs \<Rightarrow> fs" where
  "fs_close f v = v\<lparr>fs_handles := (fs_handles v)(f := None)\<rparr>"

lemma length_apply_bytes:
  "length (apply_bytes img start data) =
     (if data = [] then length img else max (length img) (start + length data))"
  by (simp add: apply_bytes_def Let_def write_at_def resize_def)

lemma apply_bytes_append [simp]: "apply_bytes img (length img) data = img @ data"
  by (simp add: apply_bytes_def Let_def write_at_def resize_def)

lemma nth_apply_bytes:
  assumes "i < length (apply_bytes img start data)"
  shows "apply_bytes img start data ! i =
           (if start \<le> i \<and> i < start + length data then data ! (i - start)
            else if i < length img then img ! i else 0)"
  using assms
  by (auto simp: apply_bytes_def Let_def nth_write_at length_apply_bytes nth_resize split: if_splits)

lemma fs_file_put:
  "fs_file v f = Some c0 \<Longrightarrow> fs_file (fs_put f c v) f = Some c"
  by (auto simp: fs_file_def fs_put_def split: option.splits)

lemma fs_handles_put [simp]: "fs_handles (fs_put f c v) = fs_handles v"
  by (auto simp: fs_put_def split: option.splits)

section \<open>What the code relies on\<close>

locale disk =
  fixes ops :: "'d disk_ops"
    and valid :: "'d \<Rightarrow> bool"
    and view :: "'d \<Rightarrow> fs"
    and canon :: "string \<Rightarrow> string"
  assumes open_ok: "valid d \<Longrightarrow> 0 < fs_ids (view d) \<Longrightarrow> dk_open ops p m d = (Inr f, d') \<Longrightarrow>
      valid d' \<and> fs_handles (view d) f = None \<and> view d' = fs_open (canon p) m f (view d) \<and>
      (m = kCreate \<or> fs_files (view d) (canon p) \<noteq> None)"
    and open_fail: "valid d \<Longrightarrow> dk_open ops p m d = (Inl e, d') \<Longrightarrow> valid d' \<and> view d' = view d"
    and close: "valid d \<Longrightarrow> valid (dk_close ops f d) \<and> view (dk_close ops f d) = fs_close f (view d)"
    and pwrite_ok: "valid d \<Longrightarrow> dk_pwrite ops f s off d = (Inr n, d') \<Longrightarrow>
      n = length s \<and> valid d' \<and>
      (\<exists>c. fs_file (view d) f = Some c \<and> view d' = fs_put f (apply_bytes c (unat off) s) (view d))"
    and pwrite_fail: "valid d \<Longrightarrow> dk_pwrite ops f s off d = (Inl e, d') \<Longrightarrow> valid d' \<and> view d' = view d"
    and pread_ok: "valid d \<Longrightarrow> dk_pread ops f n off d = (Inr s, d') \<Longrightarrow>
      valid d' \<and> view d' = view d \<and>
      (\<exists>c. fs_file (view d) f = Some c \<and> s = take n (drop (unat off) c))"
    and pread_fail: "valid d \<Longrightarrow> dk_pread ops f n off d = (Inl e, d') \<Longrightarrow> valid d' \<and> view d' = view d"
    and fsync_view: "valid d \<Longrightarrow> dk_fsync ops f d = (st, d') \<Longrightarrow> valid d' \<and> view d' = view d"
    and truncate_ok: "valid d \<Longrightarrow> dk_truncate ops f sz d = (Inr u, d') \<Longrightarrow>
      valid d' \<and> (\<exists>c. fs_file (view d) f = Some c \<and> view d' = fs_put f (resize (unat sz) 0 c) (view d))"
    and truncate_fail: "valid d \<Longrightarrow> dk_truncate ops f sz d = (Inl e, d') \<Longrightarrow> valid d' \<and> view d' = view d"
    and size_view: "valid d \<Longrightarrow> dk_size ops f d = (rs, d') \<Longrightarrow> valid d' \<and> view d' = view d"
    and size_ok: "valid d \<Longrightarrow> dk_size ops f d = (Inr sz, d') \<Longrightarrow>
      (\<exists>c. fs_file (view d) f = Some c \<and> unat sz = length c)"
    and remove_ok: "valid d \<Longrightarrow> dk_remove ops p d = (Inr u, d') \<Longrightarrow>
      valid d' \<and> view d' = (view d)\<lparr>fs_files := (fs_files (view d))(canon p := None)\<rparr>"
    and remove_fail: "valid d \<Longrightarrow> dk_remove ops p d = (Inl e, d') \<Longrightarrow> valid d' \<and> view d' = view d"
    and make_directories_view: "valid d \<Longrightarrow> dk_make_directories ops p d = (st, d') \<Longrightarrow>
      valid d' \<and> view d' = view d"
    and list_directory_view: "valid d \<Longrightarrow> dk_list_directory ops p d = (r, d') \<Longrightarrow>
      valid d' \<and> view d' = view d"
begin

lemma read_back:
  assumes "valid d" and "dk_pwrite ops f s off d = (Inr n, d')" and "dk_pread ops f (length s) off d' = (Inr s', d'')"
  shows "s' = s"
proof -
  obtain c where c: "fs_file (view d) f = Some c" and v': "valid d'"
    and view: "view d' = fs_put f (apply_bytes c (unat off) s) (view d)"
    using pwrite_ok [OF assms(1,2)] by blast
  then have "fs_file (view d') f = Some (apply_bytes c (unat off) s)"
    by (simp add: fs_file_put)
  then have "s' = take (length s) (drop (unat off) (apply_bytes c (unat off) s))"
    using pread_ok [OF v' assms(3)] by auto
  also have "\<dots> = s"
    by (auto simp: apply_bytes_def Let_def write_at_def)
  finally show ?thesis .
qed

end

text \<open>
  A disk on which the operations that make sense do succeed: \<open>healthy\<close> is kept by every
  operation and \<open>cap\<close> bounds the size a file may reach.
\<close>

locale reliable_disk = disk ops valid view canon
  for ops :: "'d disk_ops" and valid view canon +
  fixes healthy :: "'d \<Rightarrow> bool"
    and cap :: nat
  assumes healthy_valid: "healthy d \<Longrightarrow> valid d"
    and open_existing: "healthy d \<Longrightarrow> fs_files (view d) (canon p) \<noteq> None \<Longrightarrow>
      (\<exists>f d'. dk_open ops p m d = (Inr f, d'))"
    and pwrite_total: "healthy d \<Longrightarrow> fs_handles (view d) f = Some (p, m) \<Longrightarrow> m \<noteq> kRead \<Longrightarrow>
      fs_files (view d) p \<noteq> None \<Longrightarrow> unat off + length s \<le> cap \<Longrightarrow>
      (\<exists>d'. dk_pwrite ops f s off d = (Inr (length s), d'))"
    and pread_total: "healthy d \<Longrightarrow> fs_file (view d) f \<noteq> None \<Longrightarrow>
      (\<exists>s d'. dk_pread ops f n off d = (Inr s, d'))"
    and fsync_total: "healthy d \<Longrightarrow> fs_file (view d) f \<noteq> None \<Longrightarrow> (\<exists>d'. dk_fsync ops f d = (Inr (), d'))"
    and truncate_total: "healthy d \<Longrightarrow> fs_handles (view d) f = Some (p, m) \<Longrightarrow> m \<noteq> kRead \<Longrightarrow>
      fs_files (view d) p \<noteq> None \<Longrightarrow> unat sz \<le> cap \<Longrightarrow> (\<exists>d'. dk_truncate ops f sz d = (Inr (), d'))"
    and size_total: "healthy d \<Longrightarrow> fs_file (view d) f \<noteq> None \<Longrightarrow> (\<exists>sz d'. dk_size ops f d = (Inr sz, d'))"
    and healthy_open: "healthy d \<Longrightarrow> 0 < fs_ids (view d) \<Longrightarrow> healthy (snd (dk_open ops p m d))"
    and healthy_open_fail: "healthy d \<Longrightarrow> dk_open ops p m d = (Inl e, d') \<Longrightarrow> healthy d'"
    and healthy_close: "healthy d \<Longrightarrow> healthy (dk_close ops f d)"
    and healthy_pwrite: "healthy d \<Longrightarrow> healthy (snd (dk_pwrite ops f s off d))"
    and healthy_pread: "healthy d \<Longrightarrow> healthy (snd (dk_pread ops f n off d))"
    and healthy_fsync: "healthy d \<Longrightarrow> healthy (snd (dk_fsync ops f d))"
    and healthy_truncate: "healthy d \<Longrightarrow> healthy (snd (dk_truncate ops f sz d))"
    and healthy_size: "healthy d \<Longrightarrow> healthy (snd (dk_size ops f d))"
    and healthy_remove: "healthy d \<Longrightarrow> healthy (snd (dk_remove ops p d))"
    and healthy_make_directories: "healthy d \<Longrightarrow> healthy (snd (dk_make_directories ops p d))"
    and healthy_list_directory: "healthy d \<Longrightarrow> healthy (snd (dk_list_directory ops p d))"

text \<open>Health is itself a state the contract holds of, so every lemma on valid states also speaks
  of healthy ones.\<close>

sublocale reliable_disk \<subseteq> up: disk ops healthy view canon
proof unfold_locales
  fix d d' p m f s off n e sz st rs r u
  assume h: "healthy d"
  note v = healthy_valid [OF h]
  show "0 < fs_ids (view d) \<Longrightarrow> dk_open ops p m d = (Inr f, d') \<Longrightarrow>
      healthy d' \<and> fs_handles (view d) f = None \<and> view d' = fs_open (canon p) m f (view d) \<and>
      (m = kCreate \<or> fs_files (view d) (canon p) \<noteq> None)"
    using open_ok [OF v] healthy_open [OF h] by (metis snd_conv)
  show "dk_open ops p m d = (Inl e, d') \<Longrightarrow> healthy d' \<and> view d' = view d"
    using open_fail [OF v] healthy_open_fail [OF h] by blast
  show "healthy (dk_close ops f d) \<and> view (dk_close ops f d) = fs_close f (view d)"
    using close [OF v] healthy_close [OF h] by blast
  show "dk_pwrite ops f s off d = (Inr n, d') \<Longrightarrow> n = length s \<and> healthy d' \<and>
      (\<exists>c. fs_file (view d) f = Some c \<and> view d' = fs_put f (apply_bytes c (unat off) s) (view d))"
    using pwrite_ok [OF v] healthy_pwrite [OF h] by (metis snd_conv)
  show "dk_pwrite ops f s off d = (Inl e, d') \<Longrightarrow> healthy d' \<and> view d' = view d"
    using pwrite_fail [OF v] healthy_pwrite [OF h] by (metis snd_conv)
  show "dk_pread ops f n off d = (Inr s, d') \<Longrightarrow> healthy d' \<and> view d' = view d \<and>
      (\<exists>c. fs_file (view d) f = Some c \<and> s = take n (drop (unat off) c))"
    using pread_ok [OF v] healthy_pread [OF h] by (metis snd_conv)
  show "dk_pread ops f n off d = (Inl e, d') \<Longrightarrow> healthy d' \<and> view d' = view d"
    using pread_fail [OF v] healthy_pread [OF h] by (metis snd_conv)
  show "dk_fsync ops f d = (st, d') \<Longrightarrow> healthy d' \<and> view d' = view d"
    using fsync_view [OF v] healthy_fsync [OF h] by (metis snd_conv)
  show "dk_truncate ops f sz d = (Inr u, d') \<Longrightarrow> healthy d' \<and>
      (\<exists>c. fs_file (view d) f = Some c \<and> view d' = fs_put f (resize (unat sz) 0 c) (view d))"
    using truncate_ok [OF v] healthy_truncate [OF h] by (metis snd_conv)
  show "dk_truncate ops f sz d = (Inl e, d') \<Longrightarrow> healthy d' \<and> view d' = view d"
    using truncate_fail [OF v] healthy_truncate [OF h] by (metis snd_conv)
  show "dk_size ops f d = (rs, d') \<Longrightarrow> healthy d' \<and> view d' = view d"
    using size_view [OF v] healthy_size [OF h] by (metis snd_conv)
  show "dk_size ops f d = (Inr sz, d') \<Longrightarrow> \<exists>c. fs_file (view d) f = Some c \<and> unat sz = length c"
    using size_ok [OF v] .
  show "dk_remove ops p d = (Inr u, d') \<Longrightarrow> healthy d' \<and>
      view d' = (view d)\<lparr>fs_files := (fs_files (view d))(canon p := None)\<rparr>"
    using remove_ok [OF v] healthy_remove [OF h] by (metis snd_conv)
  show "dk_remove ops p d = (Inl e, d') \<Longrightarrow> healthy d' \<and> view d' = view d"
    using remove_fail [OF v] healthy_remove [OF h] by (metis snd_conv)
  show "dk_make_directories ops p d = (st, d') \<Longrightarrow> healthy d' \<and> view d' = view d"
    using make_directories_view [OF v] healthy_make_directories [OF h] by (metis snd_conv)
  show "dk_list_directory ops p d = (r, d') \<Longrightarrow> healthy d' \<and> view d' = view d"
    using list_directory_view [OF v] healthy_list_directory [OF h] by (metis snd_conv)
qed

end
