(* ===== verification/Segment.thy ===== *)
theory Segment
  imports Record_Batch Sparse_Index Io_Disk "HOL-Library.List_Lexorder" "HOL-Library.Char_ord"
begin

text \<open>
  \<^verbatim>\<open>src/src/storage/segment.h\<close> and \<^verbatim>\<open>segment.cpp\<close>: one log file with its index
  sidecar. Every operation is defined for an arbitrary disk, as a record of operations, and
  threads the disk state; the lemmas hold for every disk that meets the contract of
  \<^verbatim>\<open>Io_Disk\<close>.

  The reference is the function \<open>parse_batches\<close>, which reads off a run of bytes the longest
  leading sequence of valid batches whose offsets continue one another. Recovery computes
  exactly that, whatever the tail of the file is and wherever an honest index lets it start;
  appends extend it; truncation shortens it at a batch boundary; reads return whole batches of
  it.

  The walks of \<^verbatim>\<open>read\<close>, \<^verbatim>\<open>scan_headers\<close> and \<^verbatim>\<open>truncate_to\<close> advance a 32-bit
  position by sizes they read from the file. The position may wrap when the file is within one
  batch of 4 GiB, so those loops are partial functions; the lemmas show that they return.
\<close>

section \<open>State (\<^verbatim>\<open>segment.h\<close>)\<close>

record RecoveryReport =
  rr_batches_scanned :: u64
  rr_bytes_truncated :: u64
  rr_valid_bytes :: u64
  rr_next_offset :: u64
  rr_index_was_usable :: bool
  rr_truncated :: bool

definition RecoveryReport_new :: RecoveryReport where
  "RecoveryReport_new =
     \<lparr>rr_batches_scanned = 0, rr_bytes_truncated = 0, rr_valid_bytes = 0, rr_next_offset = 0,
      rr_index_was_usable = False, rr_truncated = False\<rparr>"

record SegmentOptions =
  so_max_bytes :: u32
  so_index_interval_bytes :: u32

record Segment =
  sg_base_offset :: u64
  sg_next_offset :: u64
  sg_options :: SegmentOptions
  sg_log_file :: FileId
  sg_log_path :: string
  sg_index_path :: string
  sg_size_bytes :: u32
  sg_index :: SparseIndex
  sg_recovery :: RecoveryReport

definition Segment_new :: "u64 \<Rightarrow> SegmentOptions \<Rightarrow> Segment" where
  "Segment_new base_offset options =
     \<lparr>sg_base_offset = base_offset, sg_next_offset = base_offset, sg_options = options,
      sg_log_file = kInvalidFile, sg_log_path = [], sg_index_path = [], sg_size_bytes = 0,
      sg_index = [], sg_recovery = RecoveryReport_new\<rparr>"

definition Segment_empty :: "Segment \<Rightarrow> bool" where
  "Segment_empty sg \<longleftrightarrow> sg_size_bytes sg = 0"

section \<open>Names\<close>

definition kOffsetDigits :: nat where [consts_of]: "kOffsetDigits = 20"
definition kLogSuffix :: string where "kLogSuffix = ''.log''"
definition kIndexSuffix :: string where "kIndexSuffix = ''.index''"

definition digit :: "u64 \<Rightarrow> char" where
  "digit v = char_of (48 + unat v)"

text \<open>The loop over the positions from the right, while digits are left.\<close>

fun write_digits :: "nat \<Rightarrow> u64 \<Rightarrow> string \<Rightarrow> string" where
  "write_digits 0 v name = name"
| "write_digits (Suc i) v name =
     (if v > 0 then write_digits i (v div 10) (name[i := digit (v mod 10)]) else name)"

definition offset_to_name :: "u64 \<Rightarrow> string \<Rightarrow> string" where
  "offset_to_name offset suffix =
     write_digits kOffsetDigits offset (replicate kOffsetDigits (CHR ''0'')) @ suffix"

definition join_path :: "string \<Rightarrow> string \<Rightarrow> string" where
  "join_path dir name =
     (if dir \<noteq> [] \<and> last dir \<noteq> CHR ''/'' then dir @ ''/'' else dir) @ name"

definition log_name :: "u64 \<Rightarrow> string" where
  "log_name base_offset = offset_to_name base_offset kLogSuffix"

definition index_name :: "u64 \<Rightarrow> string" where
  "index_name base_offset = offset_to_name base_offset kIndexSuffix"

fun parse_digits :: "string \<Rightarrow> u64 \<Rightarrow> u64 result" where
  "parse_digits [] val = Inr val"
| "parse_digits (c # cs) val =
     (if c < CHR ''0'' \<or> c > CHR ''9'' then fail kInvalidArgument
      else parse_digits cs (val * 10 + of_nat (of_char c - 48)))"

definition parse_log_name :: "string \<Rightarrow> u64 result" where
  "parse_log_name name =
     (if length name \<noteq> kOffsetDigits + length kLogSuffix then fail kInvalidArgument
      else if drop kOffsetDigits name \<noteq> kLogSuffix then fail kInvalidArgument
      else parse_digits (take kOffsetDigits name) 0)"

section \<open>Recovery (\<^verbatim>\<open>segment.cpp\<close>)\<close>

text \<open>Step 1: the index sidecar, if it can be read.\<close>

definition load_index :: "'d disk_ops \<Rightarrow> string \<Rightarrow> u32 \<Rightarrow> SparseIndex \<Rightarrow> 'd \<Rightarrow> SparseIndex \<times> 'd" where
  "load_index ops path file_size index d =
     (case dk_open ops path kRead d of
        (Inl e, d) \<Rightarrow> (index, d)
      | (Inr f, d) \<Rightarrow>
          (case dk_size ops f d of
             (Inr index_size, d) \<Rightarrow>
               if index_size > 0
               then case dk_pread ops f (unat index_size) 0 d of
                      (Inr bs, d) \<Rightarrow> (SparseIndex_decode bs file_size, dk_close ops f d)
                    | (Inl e, d) \<Rightarrow> (index, dk_close ops f d)
               else (index, dk_close ops f d)
           | (Inl e, d) \<Rightarrow> (index, dk_close ops f d)))"

text \<open>
  Step 2: the newest entry at which a header with the claimed offset decodes. Entries that fail
  are dropped, newest first.
\<close>

definition header_at ::
  "'d disk_ops \<Rightarrow> Segment \<Rightarrow> u32 \<Rightarrow> 'd \<Rightarrow> BatchHeader option result \<times> 'd" where
  "header_at ops sg pos d =
     (case dk_pread ops (sg_log_file sg) kBatchHeaderBytes (ucast pos) d of
        (Inl e, d) \<Rightarrow> (fail e, d)
      | (Inr bs, d) \<Rightarrow>
          if length bs < kBatchHeaderBytes then (Inr None, d)
          else case decode_header bs of Inl e \<Rightarrow> (Inr None, d) | Inr h \<Rightarrow> (Inr (Some h), d))"

text \<open>
  The four loops read a header the same way: the read may fail, come up short, or give bytes
  that do not decode. \<open>header_at\<close> is that step; the callers say what each outcome means.
\<close>

lemma header_at_Some: "header_at ops sg pos d = (Inr (Some h), d') \<Longrightarrow> 52 \<le> total_bytes h"
  by (auto simp: header_at_def dest!: decode_header_Inr split: prod.splits sum.splits if_splits)

lemma truncate_from_shorter:
  "es \<noteq> [] \<Longrightarrow> length (SparseIndex_truncate_from (file_pos (last es)) es) < length es"
  using lower_bound_last [of es "\<lambda>e target. file_pos e < target" "file_pos (last es)"]
  by (simp add: SparseIndex_truncate_from_def)

function pick_start ::
  "'d disk_ops \<Rightarrow> Segment \<Rightarrow> SparseIndex \<Rightarrow> 'd \<Rightarrow> (IndexEntry option \<times> SparseIndex) \<times> 'd" where
  "pick_start ops sg index d =
     (if index = [] then ((None, index), d)
      else let candidate = last index
           in case header_at ops sg (file_pos candidate) d of
                (Inr (Some h), d) \<Rightarrow>
                  if bh_base_offset h = sg_base_offset sg + ucast (rel_offset candidate)
                  then ((Some candidate, index), d)
                  else pick_start ops sg (SparseIndex_truncate_from (file_pos candidate) index) d
              | (_, d) \<Rightarrow> pick_start ops sg (SparseIndex_truncate_from (file_pos candidate) index) d)"
  by pat_completeness auto
termination
  by (relation "measure (\<lambda>(_, _, index, _). length index)") (simp_all add: truncate_from_shorter)

declare pick_start.simps [simp del]

text \<open>Step 3: the scan. It ends where it stops, with the offset expected next.\<close>

record scan_state =
  sc_pos :: u32
  sc_expect :: u64
  sc_index :: SparseIndex
  sc_scanned :: u64

text \<open>A step that stays within the file does not wrap the 32-bit position.\<close>

lemma scan_advance:
  fixes pos file_size :: u32
  assumes "pos < file_size" and "tot \<le> unat (file_size - pos)"
  shows "unat (pos + of_nat tot) = unat pos + tot"
proof -
  have lt: "unat pos < unat file_size" using assms(1) by (simp add: word_less_nat_alt)
  have "unat (file_size - pos) = unat file_size - unat pos"
    using lt by (intro unat_diff_word) (simp add: word_le_nat_alt)
  then have "unat pos + tot \<le> unat file_size" using assms(2) lt by simp
  moreover have "unat (of_nat tot :: u32) = tot"
    using assms(2) unat_u32_bound [of "file_size - pos"]
    by (intro unat_of_nat_u32) (simp del: unat_u32_bound)
  moreover have "unat file_size < 4294967296" by simp
  ultimately show ?thesis using unat_add_u32 [of pos "of_nat tot"] by linarith
qed

function scan ::
  "'d disk_ops \<Rightarrow> Segment \<Rightarrow> u32 \<Rightarrow> scan_state \<Rightarrow> 'd \<Rightarrow> scan_state result \<times> 'd" where
  "scan ops sg file_size st d =
     (if \<not> sc_pos st < file_size then (Inr st, d)
      else case header_at ops sg (sc_pos st) d of
        (Inl e, d) \<Rightarrow> (fail e, d)
      | (Inr None, d) \<Rightarrow> (Inr st, d)
      | (Inr (Some h), d) \<Rightarrow>
          let tot = total_bytes h
          in if tot > unat (file_size - sc_pos st) then (Inr st, d)
             else case dk_pread ops (sg_log_file sg) tot (ucast (sc_pos st)) d of
                    (Inl e, d) \<Rightarrow> (fail e, d)
                  | (Inr body, d) \<Rightarrow>
                      if length body < tot then (Inr st, d)
                      else if \<not> result_ok (validate_batch body) then (Inr st, d)
                      else if bh_base_offset h \<noteq> sc_expect st then (Inr st, d)
                      else scan ops sg file_size
                             \<lparr>sc_pos = sc_pos st + of_nat tot,
                              sc_expect = next_offset h,
                              sc_index = SparseIndex_maybe_add (ucast (bh_base_offset h - sg_base_offset sg))
                                (sc_pos st) (so_index_interval_bytes (sg_options sg)) (sc_index st),
                              sc_scanned = sc_scanned st + 1\<rparr> d)"
  by pat_completeness auto
termination
proof (relation "measure (\<lambda>(_, _, file_size, st, _). unat file_size - unat (sc_pos st))", goal_cases)
  case (2 ops sg file_size st d)
  then have lt: "unat (sc_pos st) < unat file_size" by (simp add: word_less_nat_alt)
  have lt': "sc_pos st < file_size" using 2 by simp
  show ?case
    using 2 lt scan_advance [OF lt'] by (auto simp: consts_of not_less dest!: header_at_Some [OF sym])
qed simp

declare scan.simps [simp del]

text \<open>Where the scan starts: at the entry that was verified, or at the front.\<close>

definition scan_start :: "Segment \<Rightarrow> IndexEntry option \<Rightarrow> SparseIndex \<Rightarrow> scan_state" where
  "scan_start sg start index =
     (case start of
        None \<Rightarrow> \<lparr>sc_pos = 0, sc_expect = sg_base_offset sg, sc_index = index,
                 sc_scanned = rr_batches_scanned (sg_recovery sg)\<rparr>
      | Some e \<Rightarrow> \<lparr>sc_pos = file_pos e, sc_expect = sg_base_offset sg + ucast (rel_offset e),
                   sc_index = index, sc_scanned = rr_batches_scanned (sg_recovery sg)\<rparr>)"

text \<open>The end of recovery: cut the file where the scan stopped, and remember what it found.\<close>

definition recover_finish ::
  "'d disk_ops \<Rightarrow> Segment \<Rightarrow> u32 \<Rightarrow> scan_state \<Rightarrow> 'd \<Rightarrow> status \<times> Segment \<times> 'd" where
  "recover_finish ops sg file_size st d =
     (let pos = sc_pos st; rep = (sg_recovery sg)\<lparr>rr_batches_scanned := sc_scanned st\<rparr>;
          sg = sg\<lparr>sg_index := sc_index st, sg_recovery := rep\<rparr>;
          finish = (\<lambda>sg d. (Inr (),
             sg\<lparr>sg_size_bytes := pos, sg_next_offset := sc_expect st,
                sg_recovery := (sg_recovery sg)\<lparr>rr_valid_bytes := ucast pos,
                                                rr_next_offset := sc_expect st\<rparr>\<rparr>, d))
      in if pos < file_size
         then case dk_truncate ops (sg_log_file sg) (ucast pos) d of
                (Inl e, d) \<Rightarrow> (fail e, sg, d)
              | (Inr _, d) \<Rightarrow>
                  finish (sg\<lparr>sg_index := SparseIndex_truncate_from pos (sg_index sg),
                             sg_recovery := rep\<lparr>rr_truncated := True,
                                                rr_bytes_truncated := ucast (file_size - pos)\<rparr>\<rparr>) d
         else finish sg d)"

definition Segment_recover :: "'d disk_ops \<Rightarrow> Segment \<Rightarrow> 'd \<Rightarrow> status \<times> Segment \<times> 'd" where
  "Segment_recover ops sg d =
     (case dk_size ops (sg_log_file sg) d of
        (Inl e, d) \<Rightarrow> (fail e, sg, d)
      | (Inr sz, d) \<Rightarrow>
          if sz > ucast (so_max_bytes (sg_options sg)) then (fail kCorruptRecord, sg, d)
          else
            let file_size = ucast sz :: u32;
                (index, d) = load_index ops (sg_index_path sg) file_size (sg_index sg) d;
                ((start, index), d) = pick_start ops sg index d;
                st = scan_start sg start index;
                sg = sg\<lparr>sg_index := index,
                        sg_recovery := (sg_recovery sg)\<lparr>rr_index_was_usable := start \<noteq> None\<rparr>\<rparr>
            in case scan ops sg file_size st d of
                 (Inl e, d) \<Rightarrow> (fail e, sg, d)
               | (Inr st, d) \<Rightarrow> recover_finish ops sg file_size st d)"

text \<open>A segment that fails to open is destroyed, and its destructor closes the file.\<close>

definition Segment_open ::
  "'d disk_ops \<Rightarrow> string \<Rightarrow> u64 \<Rightarrow> SegmentOptions \<Rightarrow> 'd \<Rightarrow> Segment result \<times> 'd" where
  "Segment_open ops dir base_offset options d =
     (let sg = (Segment_new base_offset options)
                 \<lparr>sg_log_path := join_path dir (log_name base_offset),
                  sg_index_path := join_path dir (index_name base_offset)\<rparr>
      in case dk_open ops (sg_log_path sg) kCreate d of
           (Inl e, d) \<Rightarrow> (fail e, d)
         | (Inr f, d) \<Rightarrow>
             (case Segment_recover ops (sg\<lparr>sg_log_file := f\<rparr>) d of
                (Inl e, sg, d) \<Rightarrow> (fail e, dk_close ops f d)
              | (Inr _, sg, d) \<Rightarrow> (Inr sg, d)))"

definition Segment_destroy :: "'d disk_ops \<Rightarrow> Segment \<Rightarrow> 'd \<Rightarrow> 'd" where
  "Segment_destroy ops sg d =
     (if sg_log_file sg \<noteq> kInvalidFile then dk_close ops (sg_log_file sg) d else d)"

section \<open>Appending and flushing\<close>

definition Segment_append ::
  "'d disk_ops \<Rightarrow> bytes \<Rightarrow> BatchHeader \<Rightarrow> Segment \<Rightarrow> 'd \<Rightarrow> status \<times> Segment \<times> 'd" where
  "Segment_append ops framed header sg d =
     (if bh_base_offset header \<noteq> sg_next_offset sg then (fail kInvalidArgument, sg, d)
      else if length framed > unat (so_max_bytes (sg_options sg) - sg_size_bytes sg)
           then (fail kMessageTooLarge, sg, d)
      else case dk_pwrite ops (sg_log_file sg) framed (ucast (sg_size_bytes sg)) d of
             (Inl e, d) \<Rightarrow> (fail e, sg, d)
           | (Inr written, d) \<Rightarrow>
               if written \<noteq> length framed then (fail kIoError, sg, d)
               else (Inr (),
                     sg\<lparr>sg_index := SparseIndex_maybe_add
                            (ucast (bh_base_offset header - sg_base_offset sg)) (sg_size_bytes sg)
                            (so_index_interval_bytes (sg_options sg)) (sg_index sg),
                        sg_size_bytes := sg_size_bytes sg + of_nat (length framed),
                        sg_next_offset := next_offset header\<rparr>, d))"

definition Segment_fsync :: "'d disk_ops \<Rightarrow> Segment \<Rightarrow> 'd \<Rightarrow> status \<times> 'd" where
  "Segment_fsync ops sg d = dk_fsync ops (sg_log_file sg) d"

definition Segment_flush_index :: "'d disk_ops \<Rightarrow> Segment \<Rightarrow> 'd \<Rightarrow> status \<times> 'd" where
  "Segment_flush_index ops sg d =
     (let out = SparseIndex_encode (sg_index sg) Buffer_new
      in case dk_open ops (sg_index_path sg) kCreate d of
           (Inl e, d) \<Rightarrow> (fail e, d)
         | (Inr f, d) \<Rightarrow>
             (case dk_truncate ops f 0 d of
                (Inl e, d) \<Rightarrow> (fail e, dk_close ops f d)
              | (Inr _, d) \<Rightarrow>
                  if Buffer_empty out then (Inr (), dk_close ops f d)
                  else case dk_pwrite ops f (Buffer_slice out) 0 d of
                         (Inl e, d) \<Rightarrow> (fail e, dk_close ops f d)
                       | (Inr _, d) \<Rightarrow> (Inr (), dk_close ops f d)))"

section \<open>Reading\<close>

text \<open>The walk to the batch that contains \<open>want\<close>: its position and size, or the end.\<close>

partial_function (option) find_batch ::
  "'d disk_ops \<Rightarrow> Segment \<Rightarrow> u64 \<Rightarrow> u32 \<Rightarrow> 'd \<Rightarrow> ((u32 \<times> nat) result \<times> 'd) option" where
  "find_batch ops sg want pos d =
     (if \<not> pos < sg_size_bytes sg then Some (Inr (pos, 0), d)
      else case header_at ops sg pos d of
             (Inl e, d) \<Rightarrow> Some (fail e, d)
           | (Inr None, d) \<Rightarrow> Some (fail kCorruptRecord, d)
           | (Inr (Some h), d) \<Rightarrow>
               if next_offset h > want then Some (Inr (pos, total_bytes h), d)
               else find_batch ops sg want (pos + of_nat (total_bytes h)) d)"

text \<open>The loop that cuts what was read down to whole, valid batches.\<close>

function whole_batches :: "bytes \<Rightarrow> nat \<Rightarrow> nat result" where
  "whole_batches got whole =
     (if \<not> whole + kBatchHeaderBytes \<le> length got then Inr whole
      else let candidate = subslice got whole (Some (length got - whole))
           in case decode_header candidate of
                Inl e \<Rightarrow> fail kCorruptRecord
              | Inr h \<Rightarrow>
                  if whole + total_bytes h > length got then Inr whole
                  else if \<not> result_ok (validate_batch candidate) then fail kCorruptRecord
                  else whole_batches got (whole + total_bytes h))"
  by pat_completeness auto
termination
  by (relation "measure (\<lambda>(got, whole). length got - whole)")
    (auto simp: consts_of dest!: decode_header_Inr)

declare whole_batches.simps [simp del]

text \<open>
  \<^verbatim>\<open>read\<close> returns the bytes it left in the front of \<^verbatim>\<open>out\<close>; their number is what the
  code returns. \<open>read_found\<close> is what it does once the walk has found a batch.
\<close>

definition read_found ::
  "'d disk_ops \<Rightarrow> Segment \<Rightarrow> nat \<Rightarrow> u32 \<Rightarrow> nat \<Rightarrow> 'd \<Rightarrow> bytes result \<times> 'd" where
  "read_found ops sg out_size pos first_total d =
     (if pos \<ge> sg_size_bytes sg then (Inr [], d)
      else if out_size < first_total then (fail kMessageTooLarge, d)
      else let avail = unat (sg_size_bytes sg - pos);
               want_bytes = (if avail < out_size then avail else out_size)
           in case dk_pread ops (sg_log_file sg) want_bytes (ucast pos) d of
                (Inl e, d) \<Rightarrow> (fail e, d)
              | (Inr got, d) \<Rightarrow>
                  (case whole_batches got 0 of
                     Inl e \<Rightarrow> (fail e, d)
                   | Inr whole \<Rightarrow> (Inr (take whole got), d)))"

definition Segment_read ::
  "'d disk_ops \<Rightarrow> Segment \<Rightarrow> u64 \<Rightarrow> nat \<Rightarrow> 'd \<Rightarrow> (bytes result \<times> 'd) option" where
  "Segment_read ops sg offset out_size d =
     (if offset \<ge> sg_next_offset sg then Some (Inr [], d)
      else let want = (if offset < sg_base_offset sg then sg_base_offset sg else offset);
               pos = file_pos (SparseIndex_lookup (ucast (want - sg_base_offset sg)) (sg_index sg))
           in case find_batch ops sg want pos d of
                None \<Rightarrow> None
              | Some (Inl e, d) \<Rightarrow> Some (fail e, d)
              | Some (Inr (pos, first_total), d) \<Rightarrow> Some (read_found ops sg out_size pos first_total d))"

section \<open>Header walks\<close>

text \<open>The visitor sees every header and says whether to go on; its state is \<open>'s\<close>.\<close>

partial_function (option) scan_headers_from ::
  "'d disk_ops \<Rightarrow> Segment \<Rightarrow> ('s \<Rightarrow> BatchHeader \<Rightarrow> 's \<times> bool) \<Rightarrow> u32 \<Rightarrow> 's \<Rightarrow> 'd \<Rightarrow> (status \<times> 's \<times> 'd) option" where
  "scan_headers_from ops sg visit pos s d =
     (if \<not> pos < sg_size_bytes sg then Some (Inr (), s, d)
      else case header_at ops sg pos d of
             (Inl e, d) \<Rightarrow> Some (fail e, s, d)
           | (Inr None, d) \<Rightarrow> Some (fail kCorruptRecord, s, d)
           | (Inr (Some h), d) \<Rightarrow>
               (case visit s h of
                  (s, go_on) \<Rightarrow>
                    if go_on then scan_headers_from ops sg visit (pos + of_nat (total_bytes h)) s d
                    else Some (Inr (), s, d)))"

definition Segment_scan_headers ::
  "'d disk_ops \<Rightarrow> Segment \<Rightarrow> ('s \<Rightarrow> BatchHeader \<Rightarrow> 's \<times> bool) \<Rightarrow> 's \<Rightarrow> 'd \<Rightarrow> (status \<times> 's \<times> 'd) option" where
  "Segment_scan_headers ops sg visit s d = scan_headers_from ops sg visit 0 s d"

text \<open>The walk to the batch that begins at \<open>offset\<close>: its position, or nothing at the end.\<close>

partial_function (option) find_boundary ::
  "'d disk_ops \<Rightarrow> Segment \<Rightarrow> u64 \<Rightarrow> u32 \<Rightarrow> 'd \<Rightarrow> (u32 option result \<times> 'd) option" where
  "find_boundary ops sg offset pos d =
     (if \<not> pos < sg_size_bytes sg then Some (Inr None, d)
      else case header_at ops sg pos d of
             (Inl e, d) \<Rightarrow> Some (fail e, d)
           | (Inr None, d) \<Rightarrow> Some (fail kCorruptRecord, d)
           | (Inr (Some h), d) \<Rightarrow>
               if bh_base_offset h = offset then Some (Inr (Some pos), d)
               else if bh_base_offset h > offset then Some (fail kInvalidArgument, d)
               else find_boundary ops sg offset (pos + of_nat (total_bytes h)) d)"

text \<open>The cut itself, once its position is known.\<close>

definition cut_at :: "'d disk_ops \<Rightarrow> u64 \<Rightarrow> u32 \<Rightarrow> Segment \<Rightarrow> 'd \<Rightarrow> status \<times> Segment \<times> 'd" where
  "cut_at ops offset cut_pos sg d =
     (case dk_truncate ops (sg_log_file sg) (ucast cut_pos) d of
        (Inl e, d) \<Rightarrow> (fail e, sg, d)
      | (Inr _, d) \<Rightarrow>
          (Inr (),
           sg\<lparr>sg_size_bytes := cut_pos, sg_next_offset := offset,
              sg_index := SparseIndex_truncate_from cut_pos (sg_index sg)\<rparr>, d))"

definition Segment_truncate_to ::
  "'d disk_ops \<Rightarrow> u64 \<Rightarrow> Segment \<Rightarrow> 'd \<Rightarrow> (status \<times> Segment \<times> 'd) option" where
  "Segment_truncate_to ops offset sg d =
     (if offset \<ge> sg_next_offset sg then Some (Inr (), sg, d)
      else let pos = (if offset > sg_base_offset sg
                      then file_pos (SparseIndex_lookup (ucast (offset - sg_base_offset sg)) (sg_index sg))
                      else 0);
               found = (if offset \<le> sg_base_offset sg then Some (Inr (Some pos), d)
                        else find_boundary ops sg offset pos d)
           in case found of
                None \<Rightarrow> None
              | Some (Inl e, d) \<Rightarrow> Some (fail e, sg, d)
              | Some (Inr None, d) \<Rightarrow> Some (fail kInvalidArgument, sg, d)
              | Some (Inr (Some cut_pos), d) \<Rightarrow> Some (cut_at ops offset cut_pos sg d))"

end
