(* ===== verification/Batch_Log.thy ===== *)
theory Batch_Log
  imports Record_Batch
begin

text \<open>
  The abstract content of a log: a chain of batches, each starting at the offset the one before
  it ends at. \<open>parse_batches\<close> reads the longest chain off the front of a run of bytes and is
  what recovery is compared with. The lemmas: parsing what a chain writes gives the chain back,
  whatever follows; a run of bytes cut anywhere parses to the batches that are whole before the
  cut; and boundaries of a chain, the positions where a batch may begin.
\<close>

type_synonym batch = "BatchHeader \<times> bytes list"

definition batch_enc :: "batch \<Rightarrow> bytes" where
  "batch_enc b = batch_bytes (fst b) (snd b)"

definition log_bytes :: "batch list \<Rightarrow> bytes" where
  "log_bytes bs = concat (map batch_enc bs)"

fun chain :: "u64 \<Rightarrow> batch list \<Rightarrow> bool" where
  "chain off [] = True"
| "chain off ((h, vs) # bs) \<longleftrightarrow> batch_wf h vs \<and> bh_base_offset h = off \<and> chain (next_offset h) bs"

definition nrecs :: "batch list \<Rightarrow> nat" where
  "nrecs bs = sum_list (map (\<lambda>b. length (snd b)) bs)"

definition chain_end :: "u64 \<Rightarrow> batch list \<Rightarrow> u64" where
  "chain_end off bs = off + of_nat (nrecs bs)"

function parse_batches :: "u64 \<Rightarrow> bytes \<Rightarrow> batch list" where
  "parse_batches off c =
     (if validate_batch c \<noteq> Inr () \<or> bh_base_offset (load_header c) \<noteq> off then []
      else (load_header c, iterate_records (RecordIterator_new c)) #
           parse_batches (next_offset (load_header c)) (drop (total_bytes (load_header c)) c))"
  by pat_completeness auto
termination
proof (relation "measure (\<lambda>(off, c). length c)", goal_cases)
  case (2 off c)
  then have "validate_batch c = Inr ()" by simp
  then obtain vs where "batch_wf (load_header c) vs" "total_bytes (load_header c) \<le> length c"
    using validate_batch_bytes by metis
  then show ?case by (simp add: batch_wf_def)
qed simp

declare parse_batches.simps [simp del]

section \<open>Sizes and offsets\<close>

lemma log_bytes_simps [simp]:
  "log_bytes [] = []" "log_bytes (b # bs) = batch_enc b @ log_bytes bs"
  "log_bytes (bs @ cs) = log_bytes bs @ log_bytes cs"
  by (simp_all add: log_bytes_def)

lemma nrecs_simps [simp]:
  "nrecs [] = 0" "nrecs (b # bs) = length (snd b) + nrecs bs" "nrecs (bs @ cs) = nrecs bs + nrecs cs"
  by (simp_all add: nrecs_def)

lemma chain_end_Nil [simp]: "chain_end off [] = off"
  by (simp add: chain_end_def)

lemma length_records_bytes: "4 * length vs \<le> length (records_bytes vs)"
  by (induction vs) auto

lemma length_batch_enc: "52 + 4 * length (snd b) \<le> length (batch_enc b)"
  using length_records_bytes [of "snd b"] by (simp add: batch_enc_def)

lemma nrecs_bytes: "4 * nrecs bs \<le> length (log_bytes bs)"
proof (induction bs)
  case (Cons b bs)
  then show ?case using length_batch_enc [of b] by simp
qed simp

lemma batch_wf_next_offset:
  assumes "batch_wf h vs"
  shows "next_offset h = bh_base_offset h + of_nat (length vs)"
proof -
  have rc: "bh_record_count h = of_nat (length vs)" and pos: "0 < length vs"
    and lod: "bh_last_offset_delta h = bh_record_count h - 1"
    using assms by (auto simp: batch_wf_def dest: word_of_unat)
  have "length vs < 4294967296"
    using assms unat_u32_bound [of "bh_record_count h"] by (simp add: batch_wf_def del: unat_u32_bound)
  then have "ucast (of_nat (length vs) - 1 :: u32) = (of_nat (length vs) - 1 :: u64)"
    using pos by (rule ucast_of_nat_minus_1)
  then show ?thesis by (simp add: next_offset_def last_offset_def lod rc)
qed

lemma chain_Cons_end:
  "chain off ((h, vs) # bs) \<Longrightarrow> next_offset h = off + of_nat (length vs) \<and>
   chain_end (next_offset h) bs = chain_end off ((h, vs) # bs)"
  using batch_wf_next_offset [of h vs] by (auto simp: chain_end_def add.assoc)

lemma chain_end_append: "chain_end off (bs @ cs) = chain_end (chain_end off bs) cs"
  by (simp add: chain_end_def add.assoc)

lemma chain_append:
  "chain off (bs @ cs) \<longleftrightarrow> chain off bs \<and> chain (chain_end off bs) cs"
proof (induction bs arbitrary: off)
  case (Cons b bs)
  obtain h vs where b: "b = (h, vs)" by force
  show ?case
  proof (cases "batch_wf h vs \<and> bh_base_offset h = off")
    case True
    then have "chain_end (next_offset h) bs = chain_end off (b # bs)"
      using batch_wf_next_offset [of h vs] by (simp add: b chain_end_def add.assoc)
    with True Cons show ?thesis by (simp add: b)
  qed (auto simp: b)
qed simp

lemma chain_batch_wf: "chain off bs \<Longrightarrow> b \<in> set bs \<Longrightarrow> batch_wf (fst b) (snd b)"
  by (induction off bs rule: chain.induct) auto

lemma total_bytes_enc: "batch_wf (fst b) (snd b) \<Longrightarrow> total_bytes (fst b) = length (batch_enc b)"
  by (simp add: batch_wf_def batch_enc_def)

section \<open>Parsing\<close>

lemma parse_batches_Cons:
  assumes "batch_wf h vs" and "bh_base_offset h = off"
  shows "parse_batches off (batch_bytes h vs @ rest) = (h, vs) # parse_batches (next_offset h) rest"
proof -
  have "total_bytes h = length (batch_bytes h vs)" using assms(1) by (simp add: batch_wf_def)
  then show ?thesis
    using assms
    by (subst parse_batches.simps)
      (simp add: batch_bytes_header validate_complete iterate_batch del: length_batch_bytes)
qed

lemma parse_batches_append:
  "chain off bs \<Longrightarrow> parse_batches off (log_bytes bs @ tail) = bs @ parse_batches (chain_end off bs) tail"
proof (induction bs arbitrary: off)
  case (Cons b bs)
  obtain h vs where b: "b = (h, vs)" by force
  have "chain (next_offset h) bs" "batch_wf h vs" "bh_base_offset h = off"
    and "chain_end (next_offset h) bs = chain_end off (b # bs)"
    using Cons.prems chain_Cons_end [of off h vs bs] unfolding b by auto
  then show ?case
    using Cons.IH [of "next_offset h"] by (simp add: b batch_enc_def parse_batches_Cons)
qed simp

lemma parse_batches_stop: "validate_batch c \<noteq> Inr () \<Longrightarrow> parse_batches off c = []"
  by (simp add: parse_batches.simps)

lemma parse_batches_chain:
  "chain off (parse_batches off c) \<and>
   (\<exists>tail. c = log_bytes (parse_batches off c) @ tail \<and>
           parse_batches (chain_end off (parse_batches off c)) tail = [])"
proof (induction off c rule: parse_batches.induct)
  case (1 off c)
  show ?case
  proof (cases "validate_batch c = Inr () \<and> bh_base_offset (load_header c) = off")
    case False
    then have "parse_batches off c = []" by (subst parse_batches.simps) auto
    then show ?thesis by simp
  next
    case True
    obtain h vs rest where c: "c = batch_bytes h vs @ rest" and wf: "batch_wf h vs"
      using validate_sound True by blast
    have h: "load_header c = h" unfolding c by (rule batch_bytes_header)
    have off: "bh_base_offset h = off" using True h by simp
    have p: "parse_batches off c = (h, vs) # parse_batches (next_offset h) rest"
      unfolding c by (rule parse_batches_Cons [OF wf off])
    have "drop (total_bytes h) c = rest"
      using wf by (simp add: c batch_wf_def)
    then have IH: "chain (next_offset h) (parse_batches (next_offset h) rest)"
      "\<exists>tail. rest = log_bytes (parse_batches (next_offset h) rest) @ tail \<and>
         parse_batches (chain_end (next_offset h) (parse_batches (next_offset h) rest)) tail = []"
      using 1 [unfolded h] True h by auto
    then have "chain off ((h, vs) # parse_batches (next_offset h) rest)" using wf off by simp
    from chain_Cons_end [OF this] this IH(2) show ?thesis
      unfolding p by (auto simp: c batch_enc_def)
  qed
qed

lemma parse_batches_log: "chain off bs \<Longrightarrow> parse_batches off (log_bytes bs) = bs"
  using parse_batches_append [of off bs "[]"] parse_batches_stop [of "[]"]
  by (simp add: validate_batch_def decode_header_def consts_of)

section \<open>A log cut anywhere\<close>

text \<open>The batches that lie wholly in the first \<open>n\<close> bytes.\<close>

fun whole_within :: "nat \<Rightarrow> batch list \<Rightarrow> batch list" where
  "whole_within n [] = []"
| "whole_within n (b # bs) =
     (if length (batch_enc b) \<le> n then b # whole_within (n - length (batch_enc b)) bs else [])"

lemma whole_within_prefix: "\<exists>ds. bs = whole_within n bs @ ds"
  by (induction n bs rule: whole_within.induct) auto

lemma whole_within_append:
  "length (log_bytes bs) \<le> n \<Longrightarrow> whole_within n (bs @ cs) = bs @ whole_within (n - length (log_bytes bs)) cs"
  by (induction bs arbitrary: n) auto

lemma parse_batches_cut:
  "chain off bs \<Longrightarrow> parse_batches off (take n (log_bytes bs)) = whole_within n bs"
proof (induction bs arbitrary: off n)
  case Nil
  then show ?case using parse_batches_log [of off "[]"] by simp
next
  case (Cons b bs)
  obtain h vs where b: "b = (h, vs)" by force
  have wf: "batch_wf h vs" and rest: "chain (next_offset h) bs" and off: "bh_base_offset h = off"
    using Cons.prems by (simp_all add: b)
  show ?case
  proof (cases "length (batch_enc b) \<le> n")
    case True
    then have "take n (log_bytes (b # bs)) = batch_bytes h vs @ take (n - length (batch_enc b)) (log_bytes bs)"
      by (simp add: b batch_enc_def)
    then show ?thesis
      using True Cons.IH [OF rest] by (simp add: b parse_batches_Cons [OF wf off])
  next
    case False
    then have "take n (log_bytes (b # bs)) = take n (batch_bytes h vs)" by (simp add: b batch_enc_def)
    moreover have "validate_batch (take n (batch_bytes h vs)) \<noteq> Inr ()"
      using batch_prefix_refused [OF wf, of n] False by (simp add: b batch_enc_def)
    ultimately show ?thesis using False by (simp add: parse_batches_stop)
  qed
qed

section \<open>Boundaries\<close>

text \<open>Position \<open>p\<close> of the chain \<open>bs\<close> is where the batch at offset \<open>off\<close> begins, or the end.\<close>

definition boundary :: "u64 \<Rightarrow> batch list \<Rightarrow> nat \<Rightarrow> u64 \<Rightarrow> bool" where
  "boundary start bs p off \<longleftrightarrow>
     (\<exists>ps qs. bs = ps @ qs \<and> p = length (log_bytes ps) \<and> off = chain_end start ps)"

lemma boundary_end: "boundary start bs (length (log_bytes bs)) (chain_end start bs)"
  unfolding boundary_def by (intro exI [of _ bs] exI [of _ "[]"]) simp

lemma boundary_append: "boundary start bs p off \<Longrightarrow> boundary start (bs @ cs) p off"
  unfolding boundary_def by (metis append_assoc)

lemma boundary_le: "boundary start bs p off \<Longrightarrow> p \<le> length (log_bytes bs)"
  by (auto simp: boundary_def)

lemma batch_enc_nonempty: "0 < length (batch_enc b)"
  using length_batch_enc [of b] by linarith

lemma boundary_inside:
  assumes "boundary start (bs @ cs) p off" and "p \<le> length (log_bytes bs)"
  shows "boundary start bs p off"
proof -
  obtain ps qs where eq: "bs @ cs = ps @ qs" and p: "p = length (log_bytes ps)" and off: "off = chain_end start ps"
    using assms(1) by (auto simp: boundary_def)
  then consider rs where "bs = ps @ rs" | rs where "ps = bs @ rs"
    by (auto simp: append_eq_append_conv2)
  then show ?thesis
  proof cases
    case 1
    then show ?thesis using p off by (auto simp: boundary_def)
  next
    case 2
    then have "length (log_bytes rs) = 0" using p assms(2) by simp
    then have "rs = []" using batch_enc_nonempty by (cases rs) auto
    with 2 p off show ?thesis by (simp add: boundary_end)
  qed
qed

lemma boundary_cut:
  assumes "boundary start bs p off" and "p < n"
  shows "boundary start (whole_within n bs) p off"
  using assms
proof -
  obtain ps qs where bs: "bs = ps @ qs" and p: "p = length (log_bytes ps)" and off: "off = chain_end start ps"
    using assms(1) by (auto simp: boundary_def)
  then have "whole_within n bs = ps @ whole_within (n - length (log_bytes ps)) qs"
    using assms(2) by (simp add: whole_within_append)
  then show ?thesis using p off by (auto simp: boundary_def)
qed

end
