(* ===== verification/Io_Random.thy ===== *)
theory Io_Random
  imports Complex_Main Prelude
begin

text \<open>
  \<^verbatim>\<open>src/src/io/random.h\<close> and \<^verbatim>\<open>seeded_random.h\<close>: the source of randomness
  behind the seam and its one implementation, xoshiro256** seeded through SplitMix64. The
  interface is a record of operations; what its users rely on is the locale
  \<open>random_source\<close>, interpreted by the generator. The lemmas: bounded draws stay in their
  bounds, the rejection threshold leaves every residue equally many accepted draws, and the
  rejection loop returns as soon as a draw is accepted.

  A \<^verbatim>\<open>double\<close> is the rational number it denotes; a rounding operation of the machine
  is \<open>round_double\<close>, to nearest with ties to even at 53 bits. Probabilities are neither
  subnormal nor infinite, so the exponent is not bounded.
\<close>

section \<open>Doubles\<close>

type_synonym double = rat

fun bit_length :: "nat \<Rightarrow> nat" where
  "bit_length n = (if n = 0 then 0 else Suc (bit_length (n div 2)))"

definition log2_floor :: "rat \<Rightarrow> int" where
  "log2_floor x =
     (let (n, d) = quotient_of x; k = int (bit_length (nat n)) - int (bit_length (nat d))
      in if x < 2 powi k then k - 1 else k)"

definition round_half_even :: "rat \<Rightarrow> int" where
  "round_half_even m =
     (let f = \<lfloor>m\<rfloor>; r = m - of_int f
      in if r < 1 / 2 then f else if r > 1 / 2 then f + 1 else if even f then f else f + 1)"

definition round_double :: "rat \<Rightarrow> double" where
  "round_double x =
     (if x = 0 then 0
      else let e = log2_floor \<bar>x\<bar> - 52
           in sgn x * of_int (round_half_even (\<bar>x\<bar> * 2 powi (- e))) * 2 powi e)"

section \<open>The interface (\<^verbatim>\<open>random.h\<close>)\<close>

text \<open>
  The two virtual functions. A bounded draw may loop, so it is partial: nothing means that it
  does not return.
\<close>

record 'r random_ops =
  rnd_next_u64 :: "'r \<Rightarrow> u64 \<times> 'r"
  rnd_next_below :: "u64 \<Rightarrow> 'r \<Rightarrow> (u64 \<times> 'r) option"

definition next_in_range :: "'r random_ops \<Rightarrow> i64 \<Rightarrow> i64 \<Rightarrow> 'r \<Rightarrow> (i64 \<times> 'r) option" where
  "next_in_range ops lo hi r =
     (if sint hi \<le> sint lo then Some (lo, r)
      else let span = (hi - lo) + 1
           in map_option (\<lambda>(x, r'). (lo + x, r')) (rnd_next_below ops span r))"

definition next_bool_with_probability :: "'r random_ops \<Rightarrow> double \<Rightarrow> 'r \<Rightarrow> bool \<times> 'r" where
  "next_bool_with_probability ops p r =
     (if p \<le> 0 then (False, r)
      else if p \<ge> 1 then (True, r)
      else let (x, r') = rnd_next_u64 ops r;
               u = of_nat (unat (drop_bit 11 x)) / 9007199254740992
           in (u < p, r'))"

locale random_source =
  fixes ops :: "'r random_ops"
  assumes below_bound: "rnd_next_below ops b r = Some (v, r') \<Longrightarrow> 0 < b \<Longrightarrow> v < b"
begin

lemma in_range:
  assumes "next_in_range ops lo hi r = Some (v, r')" and "sint lo \<le> sint hi"
    and "sint hi - sint lo < 2 ^ 63 - 1"
  shows "sint lo \<le> sint v \<and> sint v \<le> sint hi"
proof (cases "sint hi = sint lo")
  case True
  with assms(1) show ?thesis by (simp add: next_in_range_def)
next
  case False
  with assms(2) have lt: "sint lo < sint hi" by simp
  then obtain x where x: "rnd_next_below ops (hi - lo + 1) r = Some (x, r')" and v: "v = lo + x"
    using assms(1) by (auto simp: next_in_range_def Let_def)
  have span: "uint (hi - lo + 1) = sint hi - sint lo + 1"
  proof -
    have "hi - lo + 1 = word_of_int (sint hi - sint lo + 1)" by simp
    then show ?thesis using lt assms(3)
      by (simp only: uint_word_of_int) (simp add: take_bit_int_eq_self)
  qed
  then have "0 < hi - lo + 1" using lt by (simp add: word_less_def)
  with x have "x < hi - lo + 1" by (rule below_bound)
  then have ux: "uint x \<le> sint hi - sint lo" using span by (simp add: word_less_def)
  have "v = word_of_int (sint lo + uint x)" using v by simp
  moreover obtain k where k: "uint x = k" "0 \<le> k" by simp
  moreover have "signed_take_bit 63 (sint lo + uint x) = sint lo + uint x"
    using sint_greater_eq [of lo] sint_less [of hi] ux k
    by (intro signed_take_bit_int_eq_self) simp_all
  ultimately have "sint v = sint lo + uint x"
    by (simp only: sint_sbintrunc') simp
  with ux show ?thesis by simp
qed

end

section \<open>The generator (\<^verbatim>\<open>seeded_random.h\<close>)\<close>

record SeededRandom =
  rs0 :: u64
  rs1 :: u64
  rs2 :: u64
  rs3 :: u64

definition rotl :: "u64 \<Rightarrow> nat \<Rightarrow> u64" where
  "rotl x k = push_bit k x OR drop_bit (64 - k) x"

text \<open>One round of SplitMix64: the advanced seed and the state word.\<close>

definition splitmix :: "u64 \<Rightarrow> u64 \<times> u64" where
  "splitmix seed =
     (let seed = seed + 0x9E3779B97F4A7C15;
          z = seed;
          z = (z XOR drop_bit 30 z) * 0xBF58476D1CE4E5B9;
          z = (z XOR drop_bit 27 z) * 0x94D049BB133111EB
      in (seed, z XOR drop_bit 31 z))"

definition reseed :: "u64 \<Rightarrow> SeededRandom" where
  "reseed seed =
     (let (seed, w0) = splitmix seed; (seed, w1) = splitmix seed;
          (seed, w2) = splitmix seed; (seed, w3) = splitmix seed
      in \<lparr>rs0 = w0, rs1 = w1, rs2 = w2, rs3 = w3\<rparr>)"

definition next_u64 :: "SeededRandom \<Rightarrow> u64 \<times> SeededRandom" where
  "next_u64 s =
     (let res = rotl (rs1 s * 5) 7 * 9;
          t = push_bit 17 (rs1 s);
          s2 = rs2 s XOR rs0 s;
          s3 = rs3 s XOR rs1 s;
          s1 = rs1 s XOR s2;
          s0 = rs0 s XOR s3;
          s2 = s2 XOR t;
          s3 = rotl s3 45
      in (res, \<lparr>rs0 = s0, rs1 = s1, rs2 = s2, rs3 = s3\<rparr>))"

definition lemire_threshold :: "u64 \<Rightarrow> u64" where
  "lemire_threshold b = (NOT b + 1) mod b"

partial_function (option) lemire_loop :: "u64 \<Rightarrow> u64 \<Rightarrow> SeededRandom \<Rightarrow> (u64 \<times> SeededRandom) option" where
  "lemire_loop thr b s =
     (case next_u64 s of
        (r, s') \<Rightarrow> if r \<ge> thr then Some (r mod b, s') else lemire_loop thr b s')"

definition next_below :: "u64 \<Rightarrow> SeededRandom \<Rightarrow> (u64 \<times> SeededRandom) option" where
  "next_below b s = (if b \<le> 1 then Some (0, s) else lemire_loop (lemire_threshold b) b s)"

definition seeded_ops :: "SeededRandom random_ops" where
  "seeded_ops = \<lparr>rnd_next_u64 = next_u64, rnd_next_below = next_below\<rparr>"

lemma lemire_loop_mod:
  assumes "lemire_loop thr b s = Some y"
  shows "\<exists>r \<ge> thr. fst y = r mod b"
  by (rule lemire_loop.raw_induct [OF _ assms]) (auto split: prod.splits if_splits)

lemma next_below_bound: "next_below b s = Some (v, s') \<Longrightarrow> 0 < b \<Longrightarrow> v < b"
  by (auto simp: next_below_def dest!: lemire_loop_mod split: if_splits
      simp: word_less_nat_alt word_le_nat_alt unat_mod)

interpretation seeded: random_source seeded_ops
  by unfold_locales (simp add: seeded_ops_def next_below_bound)

text \<open>The draws that follow a state.\<close>

definition draw :: "nat \<Rightarrow> SeededRandom \<Rightarrow> u64" where
  "draw n s = fst (next_u64 (((\<lambda>s. snd (next_u64 s)) ^^ n) s))"

lemma lemire_loop_returns:
  "thr \<le> draw n s \<Longrightarrow> \<exists>v s'. lemire_loop thr b s = Some (v, s')"
proof (induction n arbitrary: s)
  case 0
  then show ?case
    by (subst lemire_loop.simps) (auto simp: draw_def split: prod.splits)
next
  case (Suc n)
  then have "thr \<le> draw n (snd (next_u64 s))"
    by (simp add: draw_def funpow_Suc_right del: funpow.simps)
  then have "\<exists>v s'. lemire_loop thr b (snd (next_u64 s)) = Some (v, s')" by (rule Suc.IH)
  then show ?case
    by (subst lemire_loop.simps) (auto split: prod.splits)
qed

section \<open>Bounded draws are unbiased\<close>

lemma residue_exists:
  assumes "v < (b :: nat)"
  shows "\<exists>x. a \<le> x \<and> x < a + b \<and> x mod b = v"
proof -
  let ?x = "a + (v + b - a mod b) mod b"
  have "a mod b \<le> v + b" using assms by (simp add: trans_le_add2 less_imp_le)
  then have "(a mod b + (v + b - a mod b)) mod b = v" using assms by simp
  then have "?x mod b = v" by (simp add: mod_add_left_eq mod_add_right_eq)
  moreover have "(v + b - a mod b) mod b < b" using assms by simp
  ultimately show ?thesis by (intro exI [of _ ?x]) simp
qed

lemma residue_unique:
  assumes "x mod b = y mod b" and "a \<le> x" and "x < a + b" and "a \<le> y" and "y < a + (b :: nat)"
    and "x \<le> y"
  shows "x = y"
proof -
  have "b dvd y - x" using assms(1,6) mod_eq_dvd_iff_nat [of x y b] by simp
  moreover have "y - x < b" using assms by simp
  ultimately have "y - x = 0" by (auto dest: dvd_imp_le)
  with assms(6) show ?thesis by simp
qed

lemma residue_window:
  assumes "v < (b :: nat)"
  shows "card {r. a \<le> r \<and> r < a + b \<and> r mod b = v} = 1"
proof -
  obtain x where x: "a \<le> x" "x < a + b" "x mod b = v"
    using residue_exists [OF assms, of a] by blast
  have "y = x" if y: "a \<le> y" "y < a + b" "y mod b = v" for y
  proof (cases "x \<le> y")
    case True
    show ?thesis by (rule residue_unique [symmetric, OF _ x(1,2) y(1,2) True]) (simp only: x y)
  next
    case False
    then have "y \<le> x" by simp
    show ?thesis by (rule residue_unique [OF _ y(1,2) x(1,2) \<open>y \<le> x\<close>]) (simp only: x y)
  qed
  with x have "{r. a \<le> r \<and> r < a + b \<and> r mod b = v} = {x}" by blast
  then show ?thesis by simp
qed

lemma residue_windows:
  assumes "v < (b :: nat)"
  shows "card {r. a \<le> r \<and> r < a + q * b \<and> r mod b = v} = q"
proof (induction q)
  case (Suc q)
  define c where "c = a + q * b"
  let ?A = "{r. a \<le> r \<and> r < c \<and> r mod b = v}" and ?B = "{r. c \<le> r \<and> r < c + b \<and> r mod b = v}"
  have "a \<le> c" by (simp add: c_def)
  then have "{r. a \<le> r \<and> r < c + b \<and> r mod b = v} = ?A \<union> ?B" by auto
  moreover have "?A \<inter> ?B = {}" by auto
  moreover have "card ?A = q" using Suc by (simp add: c_def)
  moreover have "card ?B = 1" by (rule residue_window [OF assms])
  ultimately have "card {r. a \<le> r \<and> r < c + b \<and> r mod b = v} = Suc q"
    by (simp add: card_Un_disjoint)
  then show ?case by (simp add: c_def add.assoc add.commute [of b])
qed simp

lemma lemire_threshold_nat:
  assumes "0 < b"
  shows "unat (lemire_threshold b) = 2 ^ 64 mod unat b"
proof -
  define m u where "m = unat b" and "u = unat (NOT b + 1)"
  have m: "0 < m" "m < 2 ^ 64" and u: "u < 2 ^ 64"
    using assms unat_u64_bound [of b] unat_u64_bound [of "NOT b + 1"]
    by (simp_all add: m_def u_def word_less_nat_alt)
  have "b + (NOT b + 1) = 0" by (simp add: minus_eq_not_plus_1 [symmetric])
  then have "(m + u) mod 2 ^ 64 = 0"
    using unat_word_ariths(1) [of b "NOT b + 1"] by (simp add: m_def u_def)
  then obtain k where k: "m + u = 2 ^ 64 * k" by (auto elim: dvdE)
  with m u have "k = 1" by (cases k; cases "k - 1") auto
  with k have "u = 2 ^ 64 - m" by simp
  moreover have "2 ^ 64 mod m = (2 ^ 64 - m) mod m"
    using m by (intro le_mod_geq) simp
  ultimately show ?thesis
    by (simp only: lemire_threshold_def unat_mod m_def [symmetric] u_def [symmetric])
qed

section \<open>Properties\<close>

lemma residues_equal:
  assumes "0 < b" and "v < b"
  shows "card {r. lemire_threshold b \<le> r \<and> r mod b = v} = 2 ^ 64 div unat b"
proof -
  let ?t = "unat (lemire_threshold b)" and ?q = "2 ^ 64 div unat b"
  have cover: "?t + ?q * unat b = 2 ^ 64"
    by (simp only: lemire_threshold_nat [OF assms(1)] mod_div_mult_eq)
  have "unat ` {r. lemire_threshold b \<le> r \<and> r mod b = v} =
      {r. ?t \<le> r \<and> r < ?t + ?q * unat b \<and> r mod unat b = unat v}" (is "?L = ?R")
  proof
    show "?L \<subseteq> ?R"
      unfolding cover by (auto simp: word_le_nat_alt unat_mod [symmetric])
    show "?R \<subseteq> ?L"
    proof
      fix r assume "r \<in> ?R"
      then have r: "?t \<le> r" "r < 2 ^ 64" "r mod unat b = unat v" unfolding cover by auto
      then have u: "unat (of_nat r :: u64) = r" by (simp add: unat_of_nat_u64)
      then have "of_nat r mod b = v"
        using r(3) by (intro unsigned_word_eqI [where ?'a = nat]) (simp add: unat_mod)
      with r(1) u show "r \<in> ?L"
        by (intro image_eqI [of _ _ "of_nat r"]) (simp_all add: word_le_nat_alt)
    qed
  qed
  moreover have "inj_on unat {r. lemire_threshold b \<le> r \<and> r mod b = v}"
    by (rule inj_onI) (rule unsigned_word_eqI [where ?'a = nat])
  ultimately have "card {r. lemire_threshold b \<le> r \<and> r mod b = v} = card ?R"
    by (simp only: card_image [symmetric])
  then show ?thesis
    using assms(2) by (simp add: residue_windows word_less_nat_alt)
qed

lemma draw_later: "draw n (snd (next_u64 s)) = draw (Suc n) s"
  by (simp add: draw_def funpow_Suc_right del: funpow.simps)

text \<open>The loop returns the first draw that reaches the threshold, reduced, and the state after it.\<close>

lemma lemire_loop_first:
  "(\<forall>m < n. draw m s < thr) \<Longrightarrow> thr \<le> draw n s \<Longrightarrow>
   lemire_loop thr b s = Some (draw n s mod b, ((\<lambda>s. snd (next_u64 s)) ^^ Suc n) s)"
proof (induction n arbitrary: s)
  case 0
  then show ?case by (subst lemire_loop.simps) (auto simp: draw_def split: prod.splits)
next
  case (Suc n)
  have "draw 0 s < thr" using Suc.prems(1) by blast
  then have "lemire_loop thr b s = lemire_loop thr b (snd (next_u64 s))"
    by (subst lemire_loop.simps) (auto simp: draw_def split: prod.splits)
  also have "\<dots> = Some (draw n (snd (next_u64 s)) mod b, ((\<lambda>s. snd (next_u64 s)) ^^ Suc n) (snd (next_u64 s)))"
    using Suc.prems by (intro Suc.IH) (simp_all add: draw_later)
  finally show ?case by (simp add: draw_later funpow_Suc_right del: funpow.simps)
qed

lemma lemire_loop_accepts:
  assumes "lemire_loop thr b s = Some y"
  shows "\<exists>n. thr \<le> draw n s"
proof (rule lemire_loop.raw_induct [OF _ assms])
  fix loop thr b s y
  assume IH: "\<And>thr b s y. loop thr b s = Some y \<Longrightarrow> \<exists>n. thr \<le> draw n s"
    and step: "(case next_u64 s of (r, s') \<Rightarrow> if thr \<le> r then Some (r mod b, s') else loop thr b s') = Some y"
  obtain r s1 where raw: "next_u64 s = (r, s1)" by force
  show "\<exists>n. thr \<le> draw n s"
  proof (cases "thr \<le> r")
    case True
    then show ?thesis using raw by (intro exI [of _ 0]) (simp add: draw_def)
  next
    case False
    then obtain n where "thr \<le> draw n s1" using IH [of thr b s1 y] step raw by auto
    then show ?thesis using raw draw_later [of n s] by (intro exI [of _ "Suc n"]) simp
  qed
qed

text \<open>C24. Bounded generation is unbiased. For a bound above one, a draw below it returns exactly when some
  raw draw reaches the threshold: it returns the first that does, reduced modulo the bound, and leaves the
  generator after it; and of the raw words that reach the threshold, every value below the bound is
  given by exactly the same number, the quotient of \<^verbatim>\<open>2^64\<close> by the bound.\<close>

theorem next_below_unbiased:
  assumes "1 < b"
  shows "(next_below b s = Some (v, s') \<longleftrightarrow>
           (\<exists>n. (\<forall>m < n. draw m s < lemire_threshold b) \<and> lemire_threshold b \<le> draw n s \<and>
                v = draw n s mod b \<and> s' = ((\<lambda>s. snd (next_u64 s)) ^^ Suc n) s)) \<and>
         (w < b \<longrightarrow> card {r. lemire_threshold b \<le> r \<and> r mod b = w} = 2 ^ 64 div unat b)"
proof
  have run: "next_below b s = lemire_loop (lemire_threshold b) b s" using assms by (simp add: next_below_def not_le [symmetric])
  show "next_below b s = Some (v, s') \<longleftrightarrow>
    (\<exists>n. (\<forall>m < n. draw m s < lemire_threshold b) \<and> lemire_threshold b \<le> draw n s \<and>
         v = draw n s mod b \<and> s' = ((\<lambda>s. snd (next_u64 s)) ^^ Suc n) s)"
  proof
    assume some: "next_below b s = Some (v, s')"
    then obtain k where "lemire_threshold b \<le> draw k s" using lemire_loop_accepts run by metis
    then obtain n where n: "lemire_threshold b \<le> draw n s" "\<forall>m < n. \<not> lemire_threshold b \<le> draw m s"
      using exists_least_iff [of "\<lambda>n. lemire_threshold b \<le> draw n s"] by blast
    then have "lemire_loop (lemire_threshold b) b s = Some (draw n s mod b, ((\<lambda>s. snd (next_u64 s)) ^^ Suc n) s)"
      by (intro lemire_loop_first) (simp_all add: not_le)
    then show "\<exists>n. (\<forall>m < n. draw m s < lemire_threshold b) \<and> lemire_threshold b \<le> draw n s \<and>
         v = draw n s mod b \<and> s' = ((\<lambda>s. snd (next_u64 s)) ^^ Suc n) s"
      using some run n by (intro exI [of _ n]) (simp add: not_le)
  qed (use run lemire_loop_first in \<open>auto simp del: funpow.simps\<close>)
  show "w < b \<longrightarrow> card {r. lemire_threshold b \<le> r \<and> r mod b = w} = 2 ^ 64 div unat b"
    using residues_equal [of b w] assms by (simp add: word_less_nat_alt)
qed

theorem next_below_unbiased_witness:
  "(\<exists>s'. next_below 10 \<lparr>rs0 = 1, rs1 = 2, rs2 = 3, rs3 = 4\<rparr> = Some (0, s')) \<and>
   card {r :: u64. lemire_threshold 10 \<le> r \<and> r mod 10 = 3} = 2 ^ 64 div unat (10 :: u64)"
proof
  let ?s = "\<lparr>rs0 = 1, rs1 = 2, rs2 = 3, rs3 = 4\<rparr>"
  have "draw 0 ?s = 11520" by (simp add: draw_def next_u64_def rotl_def Let_def)
  moreover have "lemire_threshold 10 = 6" by (simp add: lemire_threshold_def)
  ultimately have "next_below 10 ?s = Some (0, ((\<lambda>s. snd (next_u64 s)) ^^ Suc 0) ?s)"
    using next_below_unbiased [of 10 ?s 0 "((\<lambda>s. snd (next_u64 s)) ^^ Suc 0) ?s"] by (auto intro: exI [of _ 0])
  then show "\<exists>s'. next_below 10 ?s = Some (0, s')" by blast
  show "card {r :: u64. lemire_threshold 10 \<le> r \<and> r mod 10 = 3} = 2 ^ 64 div unat (10 :: u64)"
    using next_below_unbiased [of 10, where w = 3] by simp
qed

text \<open>C25. A draw from a range stays in the range, bounds included, for every range narrower than
  half the type: what keeps jittered election timeouts between their limits.\<close>

theorem next_in_range_bounds:
  assumes "next_in_range seeded_ops lo hi s = Some (v, s')" and "sint lo \<le> sint hi"
    and "sint hi - sint lo < 2 ^ 63 - 1"
  shows "sint lo \<le> sint v \<and> sint v \<le> sint hi"
  using assms by (rule seeded.in_range)

theorem next_in_range_bounds_witness:
  "sint (150 :: i64) \<le> sint (194 :: i64) \<and> sint (194 :: i64) \<le> sint (300 :: i64)"
proof (rule next_in_range_bounds)
  let ?s = "\<lparr>rs0 = 1, rs1 = 2, rs2 = 3, rs3 = 4\<rparr>"
  show "next_in_range seeded_ops 150 300 ?s = Some (194, snd (next_u64 ?s))"
    by (simp add: next_in_range_def seeded_ops_def next_below_def lemire_loop.simps next_u64_def
        rotl_def lemire_threshold_def Let_def word_le_nat_alt)
qed simp_all

text \<open>C26. The rejection loop ends: a bounded draw returns as soon as one of the draws that follow the
  current state reaches the threshold, and the threshold never rejects more than half of the
  draws.\<close>

theorem next_below_returns:
  "(lemire_threshold b \<le> draw n s \<longrightarrow> (\<exists>v s'. next_below b s = Some (v, s'))) \<and>
   lemire_threshold b < 2 ^ 63"
proof (cases "b = 0")
  case False
  then have b: "0 < unat b" using unsigned_eq_0_iff [of b, where ?'a = nat] by auto
  have "2 ^ 64 mod unat b < (2 ^ 63 :: nat)"
  proof (cases "unat b \<le> 2 ^ 63")
    case True
    with b show ?thesis by (meson mod_less_divisor order_less_le_trans)
  next
    case False
    then have "2 ^ 64 mod unat b = 2 ^ 64 - unat b"
      using unat_u64_bound [of b] by (simp add: mod_if del: unat_u64_bound)
    with False show ?thesis by simp
  qed
  then have "lemire_threshold b < 2 ^ 63"
    using False by (simp add: word_less_nat_alt lemire_threshold_nat word_neq_0_conv)
  then show ?thesis
    using lemire_loop_returns [of "lemire_threshold b" n s b] by (simp add: next_below_def)
qed (simp add: lemire_threshold_def next_below_def)

theorem next_below_returns_witness:
  "\<exists>v s'. next_below 151 \<lparr>rs0 = 1, rs1 = 2, rs2 = 3, rs3 = 4\<rparr> = Some (v, s')"
  using next_below_returns [of 151 0 "\<lparr>rs0 = 1, rs1 = 2, rs2 = 3, rs3 = 4\<rparr>"]
  by (simp add: draw_def next_u64_def rotl_def lemire_threshold_def Let_def)

end
