(* ===== verification/Omap.thy ===== *)
theory Omap
  imports Prelude
begin

text \<open>
  \<^verbatim>\<open>std::map\<close> and \<^verbatim>\<open>std::set\<close> where the code iterates them: association
  lists in increasing key order. The contract of a map is the locale \<open>ordered_map\<close>; the
  interpretation \<open>om\<close> gives it for the sorted lists.
\<close>

section \<open>The contract\<close>

locale ordered_map =
  fixes fresh :: 'm
    and find :: "'m \<Rightarrow> 'k::linorder \<Rightarrow> 'v option"
    and put :: "'k \<Rightarrow> 'v \<Rightarrow> 'm \<Rightarrow> 'm"
    and erase :: "'k \<Rightarrow> 'm \<Rightarrow> 'm"
    and items :: "'m \<Rightarrow> ('k \<times> 'v) list"
    and invar :: "'m \<Rightarrow> bool"
  assumes fresh_invar: "invar fresh"
    and fresh_find: "find fresh k = None"
    and put_invar: "invar m \<Longrightarrow> invar (put k v m)"
    and put_find: "invar m \<Longrightarrow> find (put k v m) = (find m)(k \<mapsto> v)"
    and erase_invar: "invar m \<Longrightarrow> invar (erase k m)"
    and erase_find: "invar m \<Longrightarrow> find (erase k m) = (find m)(k := None)"
    and items_sorted: "invar m \<Longrightarrow> sorted_wrt (<) (map fst (items m))"
    and items_find: "invar m \<Longrightarrow> find m k = Some v \<longleftrightarrow> (k, v) \<in> set (items m)"
begin

lemma put_erase: "invar m \<Longrightarrow> find (erase k (put k v m)) = (find m)(k := None)"
  by (simp add: put_invar put_find erase_find)

lemma items_distinct: "invar m \<Longrightarrow> distinct (map fst (items m))"
  using items_sorted strict_sorted_iff by blast

lemma items_determined:
  assumes "invar m" and "invar m'" and "find m = find m'"
  shows "items m = items m'"
proof -
  have set_eq: "set (items m) = set (items m')"
    using assms items_find by (metis surj_pair subsetI subset_antisym)
  have keys: "map fst (items m) = map fst (items m')"
    using set_eq items_sorted [OF assms(1)] items_sorted [OF assms(2)]
    by (metis strict_sorted_equal set_map)
  have "inj_on fst (set (items m))"
    using items_distinct [OF assms(1)] by (simp add: distinct_map)
  with keys set_eq show ?thesis
    by (metis inj_on_map_eq_map Un_absorb)
qed

end

section \<open>Sorted association lists\<close>

type_synonym ('k, 'v) omap = "('k \<times> 'v) list"

fun omap_put :: "'k::linorder \<Rightarrow> 'v \<Rightarrow> ('k, 'v) omap \<Rightarrow> ('k, 'v) omap" where
  "omap_put k v [] = [(k, v)]"
| "omap_put k v ((k', v') # m) =
     (if k < k' then (k, v) # (k', v') # m
      else if k = k' then (k, v) # m
      else (k', v') # omap_put k v m)"

definition omap_erase :: "'k \<Rightarrow> ('k, 'v) omap \<Rightarrow> ('k, 'v) omap" where
  "omap_erase k m = filter (\<lambda>(k', _). k' \<noteq> k) m"

definition omap_ok :: "('k::linorder, 'v) omap \<Rightarrow> bool" where
  "omap_ok m \<longleftrightarrow> sorted_wrt (<) (map fst m)"

lemma omap_ok_simps [simp]:
  "omap_ok []" "omap_ok ((k, v) # m) \<longleftrightarrow> (\<forall>k' \<in> fst ` set m. k < k') \<and> omap_ok m"
  by (simp_all add: omap_ok_def)

lemma fst_omap_put: "fst ` set (omap_put k v m) = insert k (fst ` set m)"
  by (induction m rule: omap_put.induct) auto

lemma omap_put_ok: "omap_ok m \<Longrightarrow> omap_ok (omap_put k v m)"
  by (induction k v m rule: omap_put.induct) (auto simp: fst_omap_put)

lemma map_of_omap_put: "omap_ok m \<Longrightarrow> map_of (omap_put k v m) = (map_of m)(k \<mapsto> v)"
proof (induction m)
  case (Cons p m)
  obtain k' v' where p: "p = (k', v')" by force
  have "map_of m k = None" if "k < k'"
    using that Cons.prems p by (force simp: map_of_eq_None_iff)
  with Cons p show ?case by (auto simp: fun_eq_iff)
qed (simp add: fun_eq_iff)

lemma omap_erase_ok: "omap_ok m \<Longrightarrow> omap_ok (omap_erase k m)"
  unfolding omap_ok_def omap_erase_def
  by (induction m) (auto split: if_splits)

lemma map_of_omap_erase: "map_of (omap_erase k m) = (map_of m)(k := None)"
  by (induction m) (auto simp: omap_erase_def fun_eq_iff)

lemma omap_distinct: "omap_ok m \<Longrightarrow> distinct (map fst m)"
  unfolding omap_ok_def using strict_sorted_iff by blast

lemma omap_sorted: "omap_ok m \<Longrightarrow> sorted_wrt (<) (map fst m)"
  by (simp add: omap_ok_def)

interpretation om: ordered_map "[]" map_of omap_put omap_erase "\<lambda>m. m" omap_ok
  by unfold_locales
    (auto simp: omap_put_ok map_of_omap_put omap_erase_ok map_of_omap_erase omap_distinct
      omap_sorted)

text \<open>Changing the values in place.\<close>

definition omap_map :: "('v \<Rightarrow> 'w) \<Rightarrow> ('k, 'v) omap \<Rightarrow> ('k, 'w) omap" where
  "omap_map f m = map (\<lambda>(k, v). (k, f v)) m"

lemma map_of_omap_map: "map_of (omap_map f m) k = map_option f (map_of m k)"
  by (simp add: omap_map_def map_of_map)

lemma omap_map_ok: "omap_ok m \<Longrightarrow> omap_ok (omap_map f m)"
  by (simp add: omap_ok_def omap_map_def split_beta comp_def)

end
