(* ===== verification/Sim_Disk.thy ===== *)
theory Sim_Disk
  imports Io_Disk Io_Random Omap "HOL-Library.List_Lexorder" "HOL-Library.Char_ord"
begin

text \<open>
  \<^verbatim>\<open>src/src/io/sim/sim_disk.h\<close> and \<^verbatim>\<open>sim_disk.cpp\<close>: the in-memory disk with a
  durable and a visible image of every file. The lemmas: durable bytes with the pending writes
  applied are the visible bytes, through every operation; the disk implements the reference
  file system; a power cut leaves the durable bytes with some pending writes applied in issue
  order, the last of them perhaps in part, and takes nothing that was flushed.
\<close>

section \<open>State (\<^verbatim>\<open>sim_disk.h\<close>)\<close>

record DiskFaultConfig =
  torn_write_probability :: double
  keep_unflushed_probability :: double
  io_error_probability :: double

record PendingWrite =
  pw_offset :: u64
  pw_bytes :: bytes

record File =
  f_durable :: bytes
  f_visible :: bytes
  f_pending :: "PendingWrite list"

record Handle =
  hd_path :: string
  hd_mode :: OpenMode

record SimDisk =
  sd_faults :: DiskFaultConfig
  sd_files :: "(string, File) omap"
  sd_dirs :: "string set"
  sd_open :: "FileId \<rightharpoonup> Handle"
  sd_next_id :: FileId
  sd_powered :: bool
  sd_bytes_lost :: u64
  sd_crashes :: u64

text \<open>
  The generator is shared with the rest of the simulator, so its state travels beside the disk.
\<close>

type_synonym 'r sim_disk = "SimDisk \<times> 'r"

section \<open>Paths\<close>

definition kMaxFileBytes :: nat where [consts_of]: "kMaxFileBytes = 2 ^ 30"

function normalize :: "string \<Rightarrow> string" where
  "normalize p = (if length p > 1 \<and> last p = CHR ''/'' then normalize (butlast p) else p)"
  by pat_completeness auto
termination by (relation "measure length") auto

declare normalize.simps [simp del]

definition rfind :: "char \<Rightarrow> string \<Rightarrow> nat option" where
  "rfind c s =
     (if c \<in> set s then Some (length s - 1 - length (takeWhile (\<lambda>x. x \<noteq> c) (rev s))) else None)"

definition parent_of :: "string \<Rightarrow> string" where
  "parent_of path =
     (case rfind (CHR ''/'') path of
        None \<Rightarrow> ''''
      | Some slash \<Rightarrow> if slash = 0 then ''/'' else take slash path)"

definition basename_of :: "string \<Rightarrow> string" where
  "basename_of path =
     (case rfind (CHR ''/'') path of None \<Rightarrow> path | Some slash \<Rightarrow> drop (slash + 1) path)"

section \<open>Operations (\<^verbatim>\<open>sim_disk.cpp\<close>)\<close>

definition SimDisk_new :: "DiskFaultConfig \<Rightarrow> SimDisk" where
  "SimDisk_new faults =
     \<lparr>sd_faults = faults, sd_files = [], sd_dirs = {'''', ''/''}, sd_open = (\<lambda>_. None),
      sd_next_id = 0, sd_powered = True, sd_bytes_lost = 0, sd_crashes = 0\<rparr>"

text \<open>The path of the file behind a handle, and the file.\<close>

definition SimDisk_resolve :: "FileId \<Rightarrow> bool \<Rightarrow> SimDisk \<Rightarrow> (string \<times> File) result" where
  "SimDisk_resolve file for_write d =
     (if \<not> sd_powered d then fail kIoError
      else case sd_open d file of
             None \<Rightarrow> fail kNotFound
           | Some h \<Rightarrow>
               if for_write \<and> hd_mode h = kRead then fail kIoError
               else case map_of (sd_files d) (hd_path h) of
                      None \<Rightarrow> fail kNotFound
                    | Some f \<Rightarrow> Inr (hd_path h, f))"

definition SimDisk_set_file :: "string \<Rightarrow> File \<Rightarrow> SimDisk \<Rightarrow> SimDisk" where
  "SimDisk_set_file p f d = d\<lparr>sd_files := omap_put p f (sd_files d)\<rparr>"

definition SimDisk_open :: "string \<Rightarrow> OpenMode \<Rightarrow> 'r sim_disk \<Rightarrow> FileId result \<times> 'r sim_disk" where
  "SimDisk_open path mode = (\<lambda>(d, r).
     if \<not> sd_powered d then (fail kIoError, (d, r))
     else let p = normalize path
          in if p \<in> sd_dirs d then (fail kIoError, (d, r))
             else if map_of (sd_files d) p = None \<and> mode \<noteq> kCreate then (fail kNotFound, (d, r))
             else if map_of (sd_files d) p = None \<and> parent_of p \<notin> sd_dirs d then (fail kNotFound, (d, r))
             else let d = (if map_of (sd_files d) p = None
                           then SimDisk_set_file p \<lparr>f_durable = [], f_visible = [], f_pending = []\<rparr> d
                           else d);
                      f = sd_next_id d;
                      d = d\<lparr>sd_next_id := sd_next_id d + 1\<rparr>;
                      d = (if sd_open d f = None
                           then d\<lparr>sd_open := (sd_open d)(f \<mapsto> \<lparr>hd_path = p, hd_mode = mode\<rparr>)\<rparr> else d)
                  in (Inr f, (d, r)))"

definition SimDisk_close :: "FileId \<Rightarrow> 'r sim_disk \<Rightarrow> 'r sim_disk" where
  "SimDisk_close file = (\<lambda>(d, r). (d\<lparr>sd_open := (sd_open d)(file := None)\<rparr>, r))"

text \<open>
  \<^verbatim>\<open>end < offset\<close> tests whether the 64-bit sum wrapped, that is, whether the sum of the
  offset and the new_size of the data reaches \<^verbatim>\<open>2^64\<close>.
\<close>

definition SimDisk_pwrite ::
  "'r random_ops \<Rightarrow> FileId \<Rightarrow> bytes \<Rightarrow> u64 \<Rightarrow> 'r sim_disk \<Rightarrow> nat result \<times> 'r sim_disk" where
  "SimDisk_pwrite rops file data offset = (\<lambda>(d, r).
     case SimDisk_resolve file True d of
       Inl e \<Rightarrow> (fail e, (d, r))
     | Inr (p, f) \<Rightarrow>
         let (err, r) = next_bool_with_probability rops (io_error_probability (sd_faults d)) r
         in if err then (fail kIoError, (d, r))
            else if data = [] then (Inr 0, (d, r))
            else let end_pos = unat offset + length data
                 in if end_pos \<ge> 2 ^ 64 \<or> end_pos > kMaxFileBytes then (fail kInvalidArgument, (d, r))
                    else let f = f\<lparr>f_visible := apply_bytes (f_visible f) (unat offset) data,
                                   f_pending := f_pending f @ [\<lparr>pw_offset = offset, pw_bytes = data\<rparr>]\<rparr>
                         in (Inr (length data), (SimDisk_set_file p f d, r)))"

definition SimDisk_pread ::
  "'r random_ops \<Rightarrow> FileId \<Rightarrow> nat \<Rightarrow> u64 \<Rightarrow> 'r sim_disk \<Rightarrow> bytes result \<times> 'r sim_disk" where
  "SimDisk_pread rops file out_size offset = (\<lambda>(d, r).
     case SimDisk_resolve file False d of
       Inl e \<Rightarrow> (fail e, (d, r))
     | Inr (p, f) \<Rightarrow>
         let (err, r) = next_bool_with_probability rops (io_error_probability (sd_faults d)) r
         in if err then (fail kIoError, (d, r))
            else if unat offset \<ge> length (f_visible f) then (Inr [], (d, r))
            else let start = unat offset;
                     count = min out_size (length (f_visible f) - start)
                 in (Inr (slice_at (f_visible f) start count), (d, r)))"

definition apply_write :: "PendingWrite \<Rightarrow> bytes \<Rightarrow> bytes" where
  "apply_write w img = apply_bytes img (unat (pw_offset w)) (pw_bytes w)"

definition SimDisk_fsync :: "'r random_ops \<Rightarrow> FileId \<Rightarrow> 'r sim_disk \<Rightarrow> status \<times> 'r sim_disk" where
  "SimDisk_fsync rops file = (\<lambda>(d, r).
     case SimDisk_resolve file False d of
       Inl e \<Rightarrow> (fail e, (d, r))
     | Inr (p, f) \<Rightarrow>
         let (err, r) = next_bool_with_probability rops (io_error_probability (sd_faults d)) r
         in if err then (fail kIoError, (d, r))
            else let f = f\<lparr>f_durable := fold apply_write (f_pending f) (f_durable f),
                           f_pending := []\<rparr>
                 in (Inr (), (SimDisk_set_file p f d, r)))"

definition trim_write :: "u64 \<Rightarrow> PendingWrite \<Rightarrow> PendingWrite" where
  "trim_write new_size w =
     (if pw_offset w \<ge> new_size then w\<lparr>pw_bytes := []\<rparr>
      else if length (pw_bytes w) > unat (new_size - pw_offset w)
           then w\<lparr>pw_bytes := resize (unat (new_size - pw_offset w)) 0 (pw_bytes w)\<rparr>
      else w)"

definition SimDisk_truncate :: "FileId \<Rightarrow> u64 \<Rightarrow> 'r sim_disk \<Rightarrow> status \<times> 'r sim_disk" where
  "SimDisk_truncate file new_size = (\<lambda>(d, r).
     case SimDisk_resolve file True d of
       Inl e \<Rightarrow> (fail e, (d, r))
     | Inr (p, f) \<Rightarrow>
         if unat new_size > kMaxFileBytes then (fail kInvalidArgument, (d, r))
         else let end_pos = unat new_size;
                  f = f\<lparr>f_visible := resize end_pos 0 (f_visible f),
                        f_durable := resize end_pos 0 (f_durable f),
                        f_pending := filter (\<lambda>w. pw_bytes w \<noteq> []) (map (trim_write new_size) (f_pending f))\<rparr>
              in (Inr (), (SimDisk_set_file p f d, r)))"

definition SimDisk_size :: "FileId \<Rightarrow> 'r sim_disk \<Rightarrow> u64 result \<times> 'r sim_disk" where
  "SimDisk_size file = (\<lambda>(d, r).
     case SimDisk_resolve file False d of
       Inl e \<Rightarrow> (fail e, (d, r))
     | Inr (p, f) \<Rightarrow> (Inr (of_nat (length (f_visible f))), (d, r)))"

definition SimDisk_remove :: "string \<Rightarrow> 'r sim_disk \<Rightarrow> status \<times> 'r sim_disk" where
  "SimDisk_remove path = (\<lambda>(d, r).
     if \<not> sd_powered d then (fail kIoError, (d, r))
     else let p = normalize path
          in if map_of (sd_files d) p = None
             then (fail (if p \<in> sd_dirs d then kIoError else kNotFound), (d, r))
             else (Inr (), (d\<lparr>sd_files := omap_erase p (sd_files d)\<rparr>, r)))"

text \<open>The loop of \<^verbatim>\<open>make_directories\<close> over the positions of the path.\<close>

fun make_prefixes :: "string \<Rightarrow> nat list \<Rightarrow> SimDisk \<Rightarrow> status \<times> SimDisk" where
  "make_prefixes p [] d = (Inr (), d)"
| "make_prefixes p (i # is) d =
     (if i \<noteq> length p \<and> p ! i \<noteq> CHR ''/'' then make_prefixes p is d
      else let prefix = take (if i = 0 then 1 else i) p
           in if map_of (sd_files d) prefix \<noteq> None then (fail kIoError, d)
              else make_prefixes p is (d\<lparr>sd_dirs := insert prefix (sd_dirs d)\<rparr>))"

definition SimDisk_make_directories :: "string \<Rightarrow> 'r sim_disk \<Rightarrow> status \<times> 'r sim_disk" where
  "SimDisk_make_directories path = (\<lambda>(d, r).
     if \<not> sd_powered d then (fail kIoError, (d, r))
     else let p = normalize path
          in if p = [] then (Inr (), (d, r))
             else let (st, d) = make_prefixes p [0..<length p + 1] d in (st, (d, r)))"

definition SimDisk_list_directory :: "string \<Rightarrow> 'r sim_disk \<Rightarrow> string list result \<times> 'r sim_disk" where
  "SimDisk_list_directory path = (\<lambda>(d, r).
     if \<not> sd_powered d then (fail kIoError, (d, r))
     else let p = normalize path
          in if p \<notin> sd_dirs d
             then (fail (if map_of (sd_files d) p \<noteq> None then kIoError else kNotFound), (d, r))
             else let names = basename_of ` {q \<in> fst ` set (sd_files d). parent_of q = p} \<union>
                              basename_of ` {dir \<in> sd_dirs d. dir \<noteq> [] \<and> dir \<noteq> p \<and> parent_of dir = p}
                  in (Inr (sorted_list_of_set names), (d, r)))"

definition sim_disk_ops :: "'r random_ops \<Rightarrow> 'r sim_disk disk_ops" where
  "sim_disk_ops rops =
     \<lparr>dk_open = SimDisk_open, dk_close = SimDisk_close, dk_pwrite = SimDisk_pwrite rops,
      dk_pread = SimDisk_pread rops, dk_fsync = SimDisk_fsync rops, dk_truncate = SimDisk_truncate,
      dk_size = SimDisk_size, dk_remove = SimDisk_remove,
      dk_make_directories = SimDisk_make_directories,
      dk_list_directory = SimDisk_list_directory\<rparr>"

section \<open>Faults\<close>

text \<open>How much of one pending write of \<open>tot\<close> bytes survives.\<close>

definition crash_applied ::
  "'r random_ops \<Rightarrow> double \<Rightarrow> double \<Rightarrow> nat \<Rightarrow> 'r \<Rightarrow> (nat \<times> 'r) option" where
  "crash_applied rops keep_p tear_p tot r =
     (let (keep, r) = next_bool_with_probability rops keep_p r
      in if keep then Some (tot, r)
         else let (tear, r) = next_bool_with_probability rops tear_p r
              in if tear \<and> tot > 1
                 then map_option (\<lambda>(x, r). (1 + unat x, r)) (rnd_next_below rops (of_nat (tot - 1)) r)
                 else Some (0, r))"

fun crash_pending ::
  "'r random_ops \<Rightarrow> double \<Rightarrow> double \<Rightarrow> PendingWrite list \<Rightarrow> bytes \<Rightarrow> u64 \<Rightarrow> 'r \<Rightarrow> (bytes \<times> u64 \<times> 'r) option" where
  "crash_pending rops keep_p tear_p [] visible lost r = Some (visible, lost, r)"
| "crash_pending rops keep_p tear_p (w # ws) visible lost r =
     (let tot = length (pw_bytes w)
      in case crash_applied rops keep_p tear_p tot r of
           None \<Rightarrow> None
         | Some (applied, r) \<Rightarrow>
             let visible = (if applied > 0
                            then apply_bytes visible (unat (pw_offset w)) (take applied (pw_bytes w))
                            else visible);
                 lost = lost + of_nat (tot - applied)
             in if applied < tot
                then Some (visible, lost + of_nat (sum_list (map (\<lambda>w. length (pw_bytes w)) ws)), r)
                else crash_pending rops keep_p tear_p ws visible lost r)"

fun crash_files ::
  "'r random_ops \<Rightarrow> double \<Rightarrow> double \<Rightarrow> (string, File) omap \<Rightarrow> u64 \<Rightarrow> 'r \<Rightarrow>
   ((string, File) omap \<times> u64 \<times> 'r) option" where
  "crash_files rops keep_p tear_p [] lost r = Some ([], lost, r)"
| "crash_files rops keep_p tear_p ((p, f) # fs) lost r =
     (case crash_pending rops keep_p tear_p (f_pending f) (f_durable f) lost r of
        None \<Rightarrow> None
      | Some (visible, lost, r) \<Rightarrow>
          map_option (\<lambda>(fs, lost, r).
              ((p, \<lparr>f_durable = visible, f_visible = visible, f_pending = []\<rparr>) # fs, lost, r))
            (crash_files rops keep_p tear_p fs lost r))"

definition tear_probability :: "DiskFaultConfig \<Rightarrow> double" where
  "tear_probability faults =
     (let keep_p = keep_unflushed_probability faults
      in if keep_p \<ge> 1 then 0
         else round_double (torn_write_probability faults / round_double (1 - keep_p)))"

definition SimDisk_crash :: "'r random_ops \<Rightarrow> 'r sim_disk \<Rightarrow> 'r sim_disk option" where
  "SimDisk_crash rops = (\<lambda>(d, r).
     case crash_files rops (keep_unflushed_probability (sd_faults d)) (tear_probability (sd_faults d))
            (sd_files d) (sd_bytes_lost d) r of
       None \<Rightarrow> None
     | Some (files, lost, r) \<Rightarrow>
         Some (d\<lparr>sd_crashes := sd_crashes d + 1, sd_files := files, sd_bytes_lost := lost,
                 sd_powered := False, sd_open := (\<lambda>_. None)\<rparr>, r))"

definition SimDisk_power_on :: "SimDisk \<Rightarrow> SimDisk" where
  "SimDisk_power_on d = d\<lparr>sd_powered := True\<rparr>"

definition flip_byte :: "nat \<Rightarrow> u8 \<Rightarrow> File \<Rightarrow> File" where
  "flip_byte index m f =
     (let before = f_durable f ! index;
          durable = (f_durable f)[index := before XOR m];
          visible = (if index < length (f_visible f) \<and> f_visible f ! index = before
                     then (f_visible f)[index := durable ! index] else f_visible f)
      in f\<lparr>f_durable := durable, f_visible := visible\<rparr>)"

definition SimDisk_corrupt_random_byte ::
  "'r random_ops \<Rightarrow> 'r sim_disk \<Rightarrow> (bool \<times> 'r sim_disk) option" where
  "SimDisk_corrupt_random_byte rops = (\<lambda>(d, r).
     let candidates = filter (\<lambda>(_, f). f_durable f \<noteq> []) (sd_files d)
     in if candidates = [] then Some (False, (d, r))
        else case rnd_next_below rops (of_nat (length candidates)) r of
               None \<Rightarrow> None
             | Some (c, r) \<Rightarrow>
                 let (p, f) = candidates ! unat c
                 in case rnd_next_below rops (of_nat (length (f_durable f))) r of
                      None \<Rightarrow> None
                    | Some (index, r) \<Rightarrow>
                        (case rnd_next_below rops 8 r of
                           None \<Rightarrow> None
                         | Some (b, r) \<Rightarrow>
                             Some (True, (SimDisk_set_file p (flip_byte (unat index) (push_bit (unat b) 1) f) d, r))))"

definition SimDisk_unflushed_bytes :: "SimDisk \<Rightarrow> u64" where
  "SimDisk_unflushed_bytes d =
     fold (\<lambda>(_, f) tot. fold (\<lambda>w tot. tot + of_nat (length (pw_bytes w))) (f_pending f) tot) (sd_files d) 0"

section \<open>Images and pending writes\<close>

lemma apply_write_empty [simp]: "pw_bytes w = [] \<Longrightarrow> apply_write w img = img"
  by (simp add: apply_write_def apply_bytes_def)

lemma length_apply_write:
  "length (apply_write w img) =
     (if pw_bytes w = [] then length img else max (length img) (unat (pw_offset w) + length (pw_bytes w)))"
  by (simp add: apply_write_def length_apply_bytes)

lemma length_fold_apply_write:
  "length img \<le> n \<Longrightarrow> (\<forall>w \<in> set ws. unat (pw_offset w) + length (pw_bytes w) \<le> n) \<Longrightarrow>
   length (fold apply_write ws img) \<le> n"
  by (induction ws arbitrary: img) (simp_all add: length_apply_write)

lemma resize_apply_bytes_past:
  "n \<le> start \<Longrightarrow> resize n 0 (apply_bytes img start data) = resize n 0 img"
  by (rule nth_equalityI) (auto simp: nth_resize nth_apply_bytes length_apply_bytes split: if_splits)

lemma resize_apply_bytes_within:
  assumes "start < n"
  shows "resize n 0 (apply_bytes img start data) = apply_bytes (resize n 0 img) start (take (n - start) data)"
proof (cases "data = []")
  case False
  have len: "length (apply_bytes (resize n 0 img) start (take (n - start) data)) = n"
    using assms False by (simp add: length_apply_bytes)
  show ?thesis
  proof (rule nth_equalityI)
    fix i assume "i < length (resize n 0 (apply_bytes img start data))"
    then have i: "i < n" by simp
    then show "resize n 0 (apply_bytes img start data) ! i =
        apply_bytes (resize n 0 img) start (take (n - start) data) ! i"
      using len False
      by (auto simp: nth_resize nth_apply_bytes length_apply_bytes split: if_splits)
  qed (simp add: len)
qed (simp add: apply_bytes_def)

lemma resize_apply_write:
  "resize (unat n) 0 (apply_write w img) = apply_write (trim_write n w) (resize (unat n) 0 img)"
proof (cases "pw_offset w \<ge> n")
  case True
  then show ?thesis
    by (simp add: apply_write_def trim_write_def resize_apply_bytes_past word_le_nat_alt)
      (simp add: apply_bytes_def)
next
  case False
  then have lt: "unat (pw_offset w) < unat n" by (simp add: word_less_nat_alt not_le)
  have "unat (n - pw_offset w) = unat n - unat (pw_offset w)"
    using False by (simp add: unat_diff_word)
  with False lt show ?thesis
    by (simp add: apply_write_def trim_write_def resize_apply_bytes_within resize_shorter)
qed

lemma resize_fold_apply_write:
  "resize (unat n) 0 (fold apply_write ws img) =
   fold apply_write (filter (\<lambda>w. pw_bytes w \<noteq> []) (map (trim_write n) ws)) (resize (unat n) 0 img)"
  by (induction ws arbitrary: img) (simp_all add: resize_apply_write)

lemma trim_write_bound:
  "unat (pw_offset w) + length (pw_bytes w) \<le> c \<Longrightarrow>
   unat (pw_offset (trim_write n w)) + length (pw_bytes (trim_write n w)) \<le> c \<or> pw_bytes (trim_write n w) = []"
  by (auto simp: trim_write_def)

section \<open>The invariant\<close>

definition file_ok :: "File \<Rightarrow> bool" where
  "file_ok f \<longleftrightarrow>
     f_visible f = fold apply_write (f_pending f) (f_durable f) \<and>
     length (f_durable f) \<le> kMaxFileBytes \<and>
     (\<forall>w \<in> set (f_pending f). unat (pw_offset w) + length (pw_bytes w) \<le> kMaxFileBytes)"

definition sim_ok :: "SimDisk \<Rightarrow> bool" where
  "sim_ok d \<longleftrightarrow>
     omap_ok (sd_files d) \<and> (\<forall>p f. map_of (sd_files d) p = Some f \<longrightarrow> file_ok f) \<and>
     (\<forall>i. sd_open d i \<noteq> None \<longrightarrow> i < sd_next_id d)"

lemma file_ok_visible: "file_ok f \<Longrightarrow> length (f_visible f) \<le> kMaxFileBytes"
  by (simp add: file_ok_def length_fold_apply_write)

lemma sim_ok_file: "sim_ok d \<Longrightarrow> map_of (sd_files d) p = Some f \<Longrightarrow> file_ok f"
  by (auto simp: sim_ok_def)

lemma sim_ok_set_file: "sim_ok d \<Longrightarrow> file_ok f \<Longrightarrow> sim_ok (SimDisk_set_file p f d)"
  by (auto simp: sim_ok_def SimDisk_set_file_def omap_put_ok map_of_omap_put split: if_splits)

lemma map_of_set_file:
  "sim_ok d \<Longrightarrow> map_of (sd_files (SimDisk_set_file p f d)) = (map_of (sd_files d))(p \<mapsto> f)"
  by (simp add: sim_ok_def SimDisk_set_file_def map_of_omap_put)

lemma set_file_simps [simp]:
  "sd_open (SimDisk_set_file p f d) = sd_open d" "sd_next_id (SimDisk_set_file p f d) = sd_next_id d"
  "sd_powered (SimDisk_set_file p f d) = sd_powered d" "sd_faults (SimDisk_set_file p f d) = sd_faults d"
  "sd_dirs (SimDisk_set_file p f d) = sd_dirs d"
  by (simp_all add: SimDisk_set_file_def)

lemma file_ok_pwrite:
  assumes "file_ok f" and "unat off + length data \<le> kMaxFileBytes"
  shows "file_ok (f\<lparr>f_visible := apply_bytes (f_visible f) (unat off) data,
                    f_pending := f_pending f @ [\<lparr>pw_offset = off, pw_bytes = data\<rparr>]\<rparr>)"
  using assms by (simp add: file_ok_def apply_write_def)

lemma file_ok_fsync:
  "file_ok f \<Longrightarrow> file_ok (f\<lparr>f_durable := fold apply_write (f_pending f) (f_durable f), f_pending := []\<rparr>)"
  by (simp add: file_ok_def length_fold_apply_write)

lemma file_ok_truncate:
  assumes "file_ok f" and "unat n \<le> kMaxFileBytes"
  shows "file_ok (f\<lparr>f_visible := resize (unat n) 0 (f_visible f),
                    f_durable := resize (unat n) 0 (f_durable f),
                    f_pending := filter (\<lambda>w. pw_bytes w \<noteq> []) (map (trim_write n) (f_pending f))\<rparr>)"
  using assms trim_write_bound by (fastforce simp: file_ok_def resize_fold_apply_write)

lemma file_ok_new: "file_ok \<lparr>f_durable = [], f_visible = [], f_pending = []\<rparr>"
  by (simp add: file_ok_def)

lemma sim_ok_new: "sim_ok (SimDisk_new faults)"
  by (simp add: sim_ok_def SimDisk_new_def)

section \<open>The disk implements the reference file system\<close>

definition sim_view :: "'r sim_disk \<Rightarrow> fs" where
  "sim_view = (\<lambda>(d, r).
     \<lparr>fs_handles = (\<lambda>i. map_option (\<lambda>h. (hd_path h, hd_mode h)) (sd_open d i)),
      fs_files = (\<lambda>p. map_option f_visible (map_of (sd_files d) p)),
      fs_ids = 2 ^ 64 - 1 - unat (sd_next_id d)\<rparr>)"

definition sim_valid :: "'r sim_disk \<Rightarrow> bool" where
  "sim_valid = (\<lambda>(d, r). sim_ok d)"

lemma resolve_Inr:
  "SimDisk_resolve i w d = Inr (p, f) \<Longrightarrow>
   sd_powered d \<and> (\<exists>h. sd_open d i = Some h \<and> hd_path h = p \<and> (w \<longrightarrow> hd_mode h \<noteq> kRead)) \<and>
   map_of (sd_files d) p = Some f"
  by (auto simp: SimDisk_resolve_def split: if_splits option.splits)

lemma resolve_fs_file:
  "SimDisk_resolve i w d = Inr (p, f) \<Longrightarrow> fs_file (sim_view (d, r)) i = Some (f_visible f)"
  by (auto dest!: resolve_Inr simp: fs_file_def sim_view_def)

lemma sim_view_set_file:
  assumes "sim_ok d" and "SimDisk_resolve i w d = Inr (p, f)"
  shows "sim_view (SimDisk_set_file p f' d, r') = fs_put i (f_visible f') (sim_view (d, r))"
  using assms(1) resolve_Inr [OF assms(2)]
  by (auto simp: sim_view_def fs_put_def map_of_set_file fun_eq_iff)

lemma sim_view_rng: "sim_view (d, r) = sim_view (d, r')"
  by (simp add: sim_view_def)

lemma sim_open_ok:
  assumes "sim_ok d" and "0 < fs_ids (sim_view (d, r))" and "SimDisk_open p m (d, r) = (Inr i, (d', r'))"
  shows "sim_ok d' \<and> fs_handles (sim_view (d, r)) i = None \<and>
         sim_view (d', r') = fs_open (normalize p) m i (sim_view (d, r)) \<and>
         (m = kCreate \<or> fs_files (sim_view (d, r)) (normalize p) \<noteq> None)"
proof -
  let ?p = "normalize p"
  define d0 where "d0 = (if map_of (sd_files d) ?p = None
    then SimDisk_set_file ?p \<lparr>f_durable = [], f_visible = [], f_pending = []\<rparr> d else d)"
  have fresh: "sd_open d (sd_next_id d) = None"
    using assms(1) by (cases "sd_open d (sd_next_id d)") (auto simp: sim_ok_def)
  have i: "i = sd_next_id d" and d': "d' = d0\<lparr>sd_next_id := sd_next_id d + 1,
      sd_open := (sd_open d)(i \<mapsto> \<lparr>hd_path = ?p, hd_mode = m\<rparr>)\<rparr>"
    and m: "m = kCreate \<or> map_of (sd_files d) ?p \<noteq> None"
    using assms(3) fresh by (auto simp: SimDisk_open_def d0_def Let_def split: if_splits)
  have ids: "unat (sd_next_id d + 1) = unat (sd_next_id d) + 1"
    using assms(2) unat_add_u64 [of "sd_next_id d" 1] by (simp add: sim_view_def)
  have d0: "sim_ok d0" "sd_open d0 = sd_open d" "sd_next_id d0 = sd_next_id d"
    using assms(1) by (simp_all add: d0_def sim_ok_set_file file_ok_new)
  have "sim_ok d'"
    using d0 ids by (auto simp: sim_ok_def d' i word_less_nat_alt less_Suc_eq)
  moreover have "map_of (sd_files d') = (if map_of (sd_files d) ?p = None
      then (map_of (sd_files d))(?p \<mapsto> \<lparr>f_durable = [], f_visible = [], f_pending = []\<rparr>)
      else map_of (sd_files d))"
    using assms(1) by (simp add: d' d0_def map_of_set_file)
  then have "sim_view (d', r') = fs_open ?p m i (sim_view (d, r))"
    using ids by (simp add: sim_view_def fs_open_def d' i d0 fun_eq_iff)
  ultimately show ?thesis
    using fresh m by (simp add: sim_view_def i)
qed

lemma sim_open_fail: "SimDisk_open p m x = (Inl e, x') \<Longrightarrow> x' = x"
  by (auto simp: SimDisk_open_def Let_def split: prod.splits if_splits)

lemma sim_close:
  "sim_ok d \<Longrightarrow> SimDisk_close i (d, r) = (d', r') \<Longrightarrow>
   sim_ok d' \<and> sim_view (d', r') = fs_close i (sim_view (d, r))"
  by (auto simp: SimDisk_close_def sim_ok_def sim_view_def fs_close_def fun_eq_iff split: if_splits)

lemma sim_pwrite_ok:
  assumes "sim_ok d" and "SimDisk_pwrite rops i s off (d, r) = (Inr n, (d', r'))"
  shows "n = length s \<and> sim_ok d' \<and>
         (\<exists>c. fs_file (sim_view (d, r)) i = Some c \<and>
              sim_view (d', r') = fs_put i (apply_bytes c (unat off) s) (sim_view (d, r)))"
proof -
  obtain p f where f: "SimDisk_resolve i True d = Inr (p, f)"
    using assms(2) by (auto simp: SimDisk_pwrite_def split: sum.splits)
  note vis = resolve_fs_file [OF f, of r]
  show ?thesis
  proof (cases "s = []")
    case True
    then have "n = 0" "d' = d"
      using assms(2) f by (auto simp: SimDisk_pwrite_def Let_def split: prod.splits if_splits)
    moreover have "fs_put i (f_visible f) (sim_view (d, r)) = sim_view (d, r)"
      using resolve_Inr [OF f] by (auto simp: fs_put_def sim_view_def fun_eq_iff)
    ultimately show ?thesis
      using True assms(1) vis sim_view_rng [of d r' r] by (auto simp: apply_bytes_def)
  next
    case False
    let ?f = "f\<lparr>f_visible := apply_bytes (f_visible f) (unat off) s,
                f_pending := f_pending f @ [\<lparr>pw_offset = off, pw_bytes = s\<rparr>]\<rparr>"
    have n: "n = length s" and d': "d' = SimDisk_set_file p ?f d" and fits: "unat off + length s \<le> kMaxFileBytes"
      using assms(2) f False by (auto simp: SimDisk_pwrite_def Let_def split: prod.splits if_splits)
    have "file_ok ?f"
      using sim_ok_file [OF assms(1)] resolve_Inr [OF f] fits by (intro file_ok_pwrite) auto
    then show ?thesis
      using n assms(1) vis sim_view_set_file [OF assms(1) f, of ?f r' r]
      by (auto simp: d' sim_ok_set_file)
  qed
qed

lemma sim_pwrite_fail: "SimDisk_pwrite rops i s off (d, r) = (Inl e, (d', r')) \<Longrightarrow> d' = d"
  by (auto simp: SimDisk_pwrite_def Let_def split: prod.splits if_splits sum.splits)

lemma sim_pread_same: "SimDisk_pread rops i n off (d, r) = (res, (d', r')) \<Longrightarrow> d' = d"
  by (auto simp: SimDisk_pread_def Let_def split: prod.splits if_splits sum.splits)

lemma sim_pread_ok:
  "SimDisk_pread rops i n off (d, r) = (Inr s, (d', r')) \<Longrightarrow>
   \<exists>c. fs_file (sim_view (d, r)) i = Some c \<and> s = take n (drop (unat off) c)"
  by (auto simp: SimDisk_pread_def Let_def slice_at_def min_def split: prod.splits if_splits sum.splits
      dest!: resolve_fs_file [of _ _ _ _ _ r])

lemma sim_fsync:
  assumes "sim_ok d" and "SimDisk_fsync rops i (d, r) = (st, (d', r'))"
  shows "sim_ok d' \<and> sim_view (d', r') = sim_view (d, r)"
proof (cases st)
  case (Inl e)
  then have "d' = d"
    using assms(2) by (auto simp: SimDisk_fsync_def Let_def split: prod.splits if_splits sum.splits)
  then show ?thesis using assms(1) sim_view_rng [of d r' r] by simp
next
  case (Inr u)
  then obtain p f where f: "SimDisk_resolve i False d = Inr (p, f)"
    and d': "d' = SimDisk_set_file p (f\<lparr>f_durable := fold apply_write (f_pending f) (f_durable f), f_pending := []\<rparr>) d"
    using assms(2) by (auto simp: SimDisk_fsync_def Let_def split: prod.splits if_splits sum.splits)
  have "file_ok f" using sim_ok_file [OF assms(1)] resolve_Inr [OF f] by blast
  moreover have "fs_put i (f_visible f) (sim_view (d, r)) = sim_view (d, r)"
    using resolve_Inr [OF f] by (auto simp: fs_put_def sim_view_def fun_eq_iff)
  ultimately show ?thesis
    using assms(1) sim_view_set_file [OF assms(1) f, of _ r' r] by (simp add: d' sim_ok_set_file file_ok_fsync)
qed

lemma sim_truncate_ok:
  assumes "sim_ok d" and "SimDisk_truncate i n (d, r) = (Inr u, (d', r'))"
  shows "sim_ok d' \<and> (\<exists>c. fs_file (sim_view (d, r)) i = Some c \<and>
           sim_view (d', r') = fs_put i (resize (unat n) 0 c) (sim_view (d, r)))"
proof -
  obtain p f where f: "SimDisk_resolve i True d = Inr (p, f)" and n: "unat n \<le> kMaxFileBytes"
    and d': "d' = SimDisk_set_file p (f\<lparr>f_visible := resize (unat n) 0 (f_visible f),
        f_durable := resize (unat n) 0 (f_durable f),
        f_pending := filter (\<lambda>w. pw_bytes w \<noteq> []) (map (trim_write n) (f_pending f))\<rparr>) d"
    using assms(2) by (auto simp: SimDisk_truncate_def Let_def split: if_splits sum.splits)
  have "file_ok f" using sim_ok_file [OF assms(1)] resolve_Inr [OF f] by blast
  then show ?thesis
    using assms(1) n resolve_fs_file [OF f, of r] sim_view_set_file [OF assms(1) f, of _ r' r]
    by (simp add: d' sim_ok_set_file file_ok_truncate)
qed

lemma sim_truncate_fail: "SimDisk_truncate i n x = (Inl e, x') \<Longrightarrow> x' = x"
  by (auto simp: SimDisk_truncate_def Let_def split: prod.splits if_splits sum.splits)

lemma sim_size:
  assumes "sim_ok d" and "SimDisk_size i (d, r) = (res, x')"
  shows "x' = (d, r)"
    and "res = Inr n \<Longrightarrow> \<exists>c. fs_file (sim_view (d, r)) i = Some c \<and> unat n = length c"
proof -
  show "x' = (d, r)"
    using assms(2) by (auto simp: SimDisk_size_def split: sum.splits)
  assume "res = Inr n"
  then obtain p f where f: "SimDisk_resolve i False d = Inr (p, f)" and n: "n = of_nat (length (f_visible f))"
    using assms(2) by (auto simp: SimDisk_size_def split: sum.splits)
  have "length (f_visible f) \<le> kMaxFileBytes"
    using sim_ok_file [OF assms(1)] resolve_Inr [OF f] file_ok_visible by blast
  then show "\<exists>c. fs_file (sim_view (d, r)) i = Some c \<and> unat n = length c"
    using resolve_fs_file [OF f, of r] by (simp add: n unat_of_nat_u64 consts_of)
qed

lemma sim_remove_ok:
  "sim_ok d \<Longrightarrow> SimDisk_remove p (d, r) = (Inr u, (d', r')) \<Longrightarrow>
   sim_ok d' \<and> sim_view (d', r') =
     (sim_view (d, r))\<lparr>fs_files := (fs_files (sim_view (d, r)))(normalize p := None)\<rparr>"
  by (auto simp: SimDisk_remove_def Let_def sim_ok_def omap_erase_ok map_of_omap_erase sim_view_def
      fun_eq_iff split: if_splits)

lemma sim_remove_fail: "SimDisk_remove p x = (Inl e, x') \<Longrightarrow> x' = x"
  by (auto simp: SimDisk_remove_def Let_def split: prod.splits if_splits)

lemma make_prefixes_same:
  "make_prefixes p is d = (st, d') \<Longrightarrow> \<exists>dirs. d' = d\<lparr>sd_dirs := dirs\<rparr>"
proof (induction p "is" d rule: make_prefixes.induct)
  case (1 p d)
  then show ?case by (intro exI [of _ "sd_dirs d"]) simp
next
  case (2 p i "is" d)
  show ?case
  proof (cases "i \<noteq> length p \<and> p ! i \<noteq> CHR ''/''")
    case False
    show ?thesis
      using 2(2) [OF False refl] 2(3) False
      by (auto simp: Let_def split: if_splits intro: exI [of _ "sd_dirs d"])
  qed (use 2 in auto)
qed

lemma sim_make_directories:
  assumes "sim_ok d" and "SimDisk_make_directories p (d, r) = (st, (d', r'))"
  shows "sim_ok d' \<and> sim_view (d', r') = sim_view (d, r)"
proof -
  have "\<exists>dirs. d' = d\<lparr>sd_dirs := dirs\<rparr>"
    using assms(2)
    by (auto simp: SimDisk_make_directories_def Let_def split: prod.splits if_splits
        dest: make_prefixes_same intro: exI [of _ "sd_dirs d"])
  then show ?thesis using assms(1) by (auto simp: sim_ok_def sim_view_def)
qed

lemma sim_list_directory: "SimDisk_list_directory p x = (res, x') \<Longrightarrow> x' = x"
  by (auto simp: SimDisk_list_directory_def Let_def split: prod.splits if_splits)

lemmas sim_defs = sim_disk_ops_def sim_valid_def

interpretation sim: disk "sim_disk_ops rops" sim_valid sim_view normalize
proof unfold_locales
  fix x x' :: "'a sim_disk" and p :: string and m :: OpenMode and i :: FileId and s :: bytes
    and off sz :: u64 and n :: nat and e :: ErrorCode and u :: unit and st :: status
    and rs :: "u64 result" and rd :: "string list result"
  obtain d r where x: "x = (d, r)" by force
  obtain d' r' where x': "x' = (d', r')" by force
  assume valid: "sim_valid x"
  then have ok: "sim_ok d" by (simp add: sim_valid_def x)
  show "dk_open (sim_disk_ops rops) p m x = (Inr i, x') \<Longrightarrow> 0 < fs_ids (sim_view x) \<Longrightarrow>
      sim_valid x' \<and> fs_handles (sim_view x) i = None \<and> sim_view x' = fs_open (normalize p) m i (sim_view x) \<and>
      (m = kCreate \<or> fs_files (sim_view x) (normalize p) \<noteq> None)"
    using sim_open_ok [OF ok, of r p m i d' r'] by (simp add: sim_defs x x')
  show "dk_open (sim_disk_ops rops) p m x = (Inl e, x') \<Longrightarrow> sim_valid x' \<and> sim_view x' = sim_view x"
    using valid by (auto simp: sim_disk_ops_def dest: sim_open_fail)
  show "sim_valid (dk_close (sim_disk_ops rops) i x) \<and>
      sim_view (dk_close (sim_disk_ops rops) i x) = fs_close i (sim_view x)"
    using sim_close [OF ok, of i r] by (cases "SimDisk_close i x") (simp add: sim_defs x)
  show "dk_pwrite (sim_disk_ops rops) i s off x = (Inr n, x') \<Longrightarrow> n = length s \<and> sim_valid x' \<and>
      (\<exists>c. fs_file (sim_view x) i = Some c \<and> sim_view x' = fs_put i (apply_bytes c (unat off) s) (sim_view x))"
    using sim_pwrite_ok [OF ok, of rops i s off r n d' r'] by (simp add: sim_defs x x')
  show "dk_pwrite (sim_disk_ops rops) i s off x = (Inl e, x') \<Longrightarrow> sim_valid x' \<and> sim_view x' = sim_view x"
    using sim_pwrite_fail [of rops i s off d r e d' r'] ok by (auto simp: sim_defs x x' sim_view_def)
  show "dk_pread (sim_disk_ops rops) i n off x = (Inr s, x') \<Longrightarrow> sim_valid x' \<and> sim_view x' = sim_view x \<and>
      (\<exists>c. fs_file (sim_view x) i = Some c \<and> s = take n (drop (unat off) c))"
    using sim_pread_same [of rops i n off d r "Inr s" d' r'] sim_pread_ok [of rops i n off d r s d' r'] ok
    by (auto simp: sim_defs x x' sim_view_rng [of d r' r])
  show "dk_pread (sim_disk_ops rops) i n off x = (Inl e, x') \<Longrightarrow> sim_valid x' \<and> sim_view x' = sim_view x"
    using sim_pread_same [of rops i n off d r "Inl e" d' r'] ok by (auto simp: sim_defs x x' sim_view_def)
  show "dk_fsync (sim_disk_ops rops) i x = (st, x') \<Longrightarrow> sim_valid x' \<and> sim_view x' = sim_view x"
    using sim_fsync [OF ok, of rops i r st d' r'] by (simp add: sim_defs x x')
  show "dk_truncate (sim_disk_ops rops) i sz x = (Inr u, x') \<Longrightarrow> sim_valid x' \<and>
      (\<exists>c. fs_file (sim_view x) i = Some c \<and> sim_view x' = fs_put i (resize (unat sz) 0 c) (sim_view x))"
    using sim_truncate_ok [OF ok, of i sz r u d' r'] by (simp add: sim_defs x x')
  show "dk_truncate (sim_disk_ops rops) i sz x = (Inl e, x') \<Longrightarrow> sim_valid x' \<and> sim_view x' = sim_view x"
    using valid by (auto simp: sim_disk_ops_def dest: sim_truncate_fail)
  show "dk_size (sim_disk_ops rops) i x = (rs, x') \<Longrightarrow> sim_valid x' \<and> sim_view x' = sim_view x"
    using sim_size(1) [OF ok, of i r rs x'] valid by (auto simp: sim_disk_ops_def x)
  show "dk_size (sim_disk_ops rops) i x = (Inr sz, x') \<Longrightarrow>
      \<exists>c. fs_file (sim_view x) i = Some c \<and> unat sz = length c"
    using sim_size(2) [OF ok, of i r "Inr sz" x' sz] by (simp add: sim_disk_ops_def x)
  show "dk_remove (sim_disk_ops rops) p x = (Inr u, x') \<Longrightarrow> sim_valid x' \<and>
      sim_view x' = (sim_view x)\<lparr>fs_files := (fs_files (sim_view x))(normalize p := None)\<rparr>"
    using sim_remove_ok [OF ok, of p r u d' r'] by (simp add: sim_defs x x')
  show "dk_remove (sim_disk_ops rops) p x = (Inl e, x') \<Longrightarrow> sim_valid x' \<and> sim_view x' = sim_view x"
    using valid by (auto simp: sim_disk_ops_def dest: sim_remove_fail)
  show "dk_make_directories (sim_disk_ops rops) p x = (st, x') \<Longrightarrow> sim_valid x' \<and> sim_view x' = sim_view x"
    using sim_make_directories [OF ok, of p r st d' r'] by (simp add: sim_defs x x')
  show "dk_list_directory (sim_disk_ops rops) p x = (rd, x') \<Longrightarrow> sim_valid x' \<and> sim_view x' = sim_view x"
    using valid by (auto simp: sim_disk_ops_def dest: sim_list_directory)
qed

section \<open>Without injected errors the operations succeed\<close>

definition sim_healthy :: "'r sim_disk \<Rightarrow> bool" where
  "sim_healthy = (\<lambda>(d, r).
     sim_ok d \<and> sd_powered d \<and> io_error_probability (sd_faults d) \<le> 0 \<and>
     (\<forall>p \<in> sd_dirs d. map_of (sd_files d) p = None))"

lemma no_error: "q \<le> 0 \<Longrightarrow> next_bool_with_probability rops q r = (False, r)"
  by (simp add: next_bool_with_probability_def)

lemma resolve_ok:
  assumes "sd_powered d" and "fs_handles (sim_view (d, r)) i = Some (p, m)"
    and "w \<longrightarrow> m \<noteq> kRead" and "fs_files (sim_view (d, r)) p \<noteq> None"
  shows "\<exists>f. SimDisk_resolve i w d = Inr (p, f)"
  using assms by (auto simp: SimDisk_resolve_def sim_view_def)

lemma resolve_ok_file:
  assumes "sd_powered d" and "fs_file (sim_view (d, r)) i \<noteq> None"
  shows "\<exists>p f. SimDisk_resolve i False d = Inr (p, f)"
  using assms by (auto simp: SimDisk_resolve_def sim_view_def fs_file_def split: option.splits)

lemma healthy_set_file:
  "sim_healthy (d, r) \<Longrightarrow> SimDisk_resolve i w d = Inr (p, f) \<Longrightarrow> file_ok f' \<Longrightarrow>
   sim_healthy (SimDisk_set_file p f' d, r')"
  by (auto simp: sim_healthy_def sim_ok_set_file map_of_set_file dest!: resolve_Inr)

lemma healthy_pwrite:
  assumes "sim_healthy (d, r)"
  shows "sim_healthy (snd (SimDisk_pwrite rops i s off (d, r)))"
proof (cases "SimDisk_resolve i True d")
  case (Inr pf)
  obtain p f where pf: "pf = (p, f)" by force
  have "file_ok f"
    using assms sim_ok_file resolve_Inr [of i True d p f] Inr pf by (auto simp: sim_healthy_def)
  then show ?thesis
    using assms Inr pf healthy_set_file [OF assms, of i True p f] file_ok_pwrite [of f off s]
    by (auto simp: SimDisk_pwrite_def no_error sim_healthy_def Let_def)
qed (use assms in \<open>simp add: SimDisk_pwrite_def\<close>)

lemma healthy_fsync:
  assumes "sim_healthy (d, r)"
  shows "sim_healthy (snd (SimDisk_fsync rops i (d, r)))"
proof (cases "SimDisk_resolve i False d")
  case (Inr pf)
  obtain p f where pf: "pf = (p, f)" by force
  have "file_ok f"
    using assms sim_ok_file resolve_Inr [of i False d p f] Inr pf by (auto simp: sim_healthy_def)
  then show ?thesis
    using assms Inr pf healthy_set_file [OF assms, of i False p f] file_ok_fsync [of f]
    by (auto simp: SimDisk_fsync_def no_error sim_healthy_def Let_def)
qed (use assms in \<open>simp add: SimDisk_fsync_def\<close>)

lemma healthy_truncate:
  assumes "sim_healthy (d, r)"
  shows "sim_healthy (snd (SimDisk_truncate i n (d, r)))"
proof (cases "SimDisk_resolve i True d")
  case (Inr pf)
  obtain p f where pf: "pf = (p, f)" by force
  have "file_ok f"
    using assms sim_ok_file resolve_Inr [of i True d p f] Inr pf by (auto simp: sim_healthy_def)
  then show ?thesis
    using assms Inr pf healthy_set_file [OF assms, of i True p f] file_ok_truncate [of f n]
    by (auto simp: SimDisk_truncate_def Let_def)
qed (use assms in \<open>simp add: SimDisk_truncate_def\<close>)

lemma healthy_open:
  assumes "sim_healthy (d, r)" and "0 < fs_ids (sim_view (d, r))"
  shows "sim_healthy (snd (SimDisk_open p m (d, r)))"
proof -
  obtain res d' r' where run: "SimDisk_open p m (d, r) = (res, (d', r'))"
    by (cases "SimDisk_open p m (d, r)") blast
  have ok: "sim_ok d" using assms(1) by (simp add: sim_healthy_def)
  show ?thesis
  proof (cases res)
    case (Inl e)
    then show ?thesis using sim_open_fail [of p m "(d, r)" e "(d', r')"] run assms(1) by simp
  next
    case (Inr i)
    then have "sim_ok d'" using sim_open_ok [OF ok assms(2)] run by blast
    then show ?thesis
      using assms(1) run Inr ok
      by (auto simp: sim_healthy_def SimDisk_open_def Let_def map_of_set_file split: if_splits)
  qed
qed

lemma make_prefixes_names:
  "make_prefixes p is d = (st, d') \<Longrightarrow> \<forall>q \<in> sd_dirs d. map_of (sd_files d) q = None \<Longrightarrow>
   \<forall>q \<in> sd_dirs d'. map_of (sd_files d') q = None"
proof (induction p "is" d rule: make_prefixes.induct)
  case (2 p i "is" d)
  then show ?case by (auto simp: Let_def split: if_splits)
qed simp

lemma healthy_make_directories:
  assumes "sim_healthy (d, r)"
  shows "sim_healthy (snd (SimDisk_make_directories p (d, r)))"
proof -
  obtain st d' r' where run: "SimDisk_make_directories p (d, r) = (st, (d', r'))"
    by (cases "SimDisk_make_directories p (d, r)") blast
  have "sim_ok d'"
    using sim_make_directories [of d p r st d' r'] assms run by (simp add: sim_healthy_def)
  moreover have "sd_powered d' \<and> sd_faults d' = sd_faults d \<and> (\<forall>q \<in> sd_dirs d'. map_of (sd_files d') q = None)"
    using assms run make_prefixes_names make_prefixes_same
    by (fastforce simp: SimDisk_make_directories_def sim_healthy_def Let_def split: prod.splits if_splits)
  ultimately show ?thesis using assms run by (simp add: sim_healthy_def)
qed

interpretation sim_rel: reliable_disk "sim_disk_ops rops" sim_valid sim_view normalize sim_healthy kMaxFileBytes
proof unfold_locales
  fix x x' :: "'a sim_disk" and p q :: string and m :: OpenMode and i :: FileId and s :: bytes
    and off sz :: u64 and n :: nat and e :: ErrorCode
  obtain d r where x: "x = (d, r)" by force
  assume healthy: "sim_healthy x"
  then have ok: "sim_ok d" "sd_powered d" "io_error_probability (sd_faults d) \<le> 0"
    and h: "sim_healthy (d, r)"
    by (simp_all add: sim_healthy_def x)
  show "sim_valid x" using ok by (simp add: sim_valid_def x)
  show "fs_files (sim_view x) (normalize p) \<noteq> None \<Longrightarrow> \<exists>f d'. dk_open (sim_disk_ops rops) p m x = (Inr f, d')"
    using h by (auto simp: sim_defs x SimDisk_open_def sim_healthy_def sim_view_def Let_def)
  show "fs_handles (sim_view x) i = Some (p, m) \<Longrightarrow> m \<noteq> kRead \<Longrightarrow> fs_files (sim_view x) p \<noteq> None \<Longrightarrow>
      unat off + length s \<le> kMaxFileBytes \<Longrightarrow> \<exists>d'. dk_pwrite (sim_disk_ops rops) i s off x = (Inr (length s), d')"
    using ok resolve_ok [of d r i p m True]
    by (auto simp: sim_defs x SimDisk_pwrite_def no_error Let_def consts_of)
  show "fs_file (sim_view x) i \<noteq> None \<Longrightarrow> \<exists>s d'. dk_pread (sim_disk_ops rops) i n off x = (Inr s, d')"
    using ok resolve_ok_file [of d r i] by (auto simp: sim_defs x SimDisk_pread_def no_error Let_def)
  show "fs_file (sim_view x) i \<noteq> None \<Longrightarrow> \<exists>d'. dk_fsync (sim_disk_ops rops) i x = (Inr (), d')"
    using ok resolve_ok_file [of d r i] by (auto simp: sim_defs x SimDisk_fsync_def no_error Let_def)
  show "fs_handles (sim_view x) i = Some (p, m) \<Longrightarrow> m \<noteq> kRead \<Longrightarrow> fs_files (sim_view x) p \<noteq> None \<Longrightarrow>
      unat sz \<le> kMaxFileBytes \<Longrightarrow> \<exists>d'. dk_truncate (sim_disk_ops rops) i sz x = (Inr (), d')"
    using ok resolve_ok [of d r i p m True] by (auto simp: sim_defs x SimDisk_truncate_def Let_def)
  show "fs_file (sim_view x) i \<noteq> None \<Longrightarrow> \<exists>sz d'. dk_size (sim_disk_ops rops) i x = (Inr sz, d')"
    using ok resolve_ok_file [of d r i] by (auto simp: sim_defs x SimDisk_size_def)
  show "0 < fs_ids (sim_view x) \<Longrightarrow> sim_healthy (snd (dk_open (sim_disk_ops rops) p m x))"
    using healthy_open [OF h] by (simp add: sim_defs x)
  show "dk_open (sim_disk_ops rops) p m x = (Inl e, x') \<Longrightarrow> sim_healthy x'"
    using healthy by (auto simp: sim_disk_ops_def dest: sim_open_fail)
  show "sim_healthy (dk_close (sim_disk_ops rops) i x)"
    using h by (auto simp: sim_defs x SimDisk_close_def sim_healthy_def sim_ok_def split: if_splits)
  show "sim_healthy (snd (dk_pwrite (sim_disk_ops rops) i s off x))"
    using healthy_pwrite [OF h] by (simp add: sim_defs x)
  show "sim_healthy (snd (dk_pread (sim_disk_ops rops) i n off x))"
    using h by (auto simp: sim_defs x SimDisk_pread_def no_error ok Let_def split: sum.splits)
  show "sim_healthy (snd (dk_fsync (sim_disk_ops rops) i x))"
    using healthy_fsync [OF h] by (simp add: sim_defs x)
  show "sim_healthy (snd (dk_truncate (sim_disk_ops rops) i sz x))"
    using healthy_truncate [OF h] by (simp add: sim_defs x)
  show "sim_healthy (snd (dk_size (sim_disk_ops rops) i x))"
    using h by (auto simp: sim_defs x SimDisk_size_def split: sum.splits)
  show "sim_healthy (snd (dk_remove (sim_disk_ops rops) p x))"
    using h by (auto simp: sim_defs x SimDisk_remove_def sim_healthy_def Let_def sim_ok_def omap_erase_ok map_of_omap_erase)
  show "sim_healthy (snd (dk_make_directories (sim_disk_ops rops) p x))"
    using healthy_make_directories [OF h] by (simp add: sim_defs x)
  show "sim_healthy (snd (dk_list_directory (sim_disk_ops rops) p x))"
    using h by (auto simp: sim_defs x SimDisk_list_directory_def Let_def)
qed

section \<open>What a power cut leaves\<close>

text \<open>
  The images a crash may leave of a file: some pending writes in issue order, and possibly a
  proper, non-empty prefix of the next one.
\<close>

definition crash_images :: "PendingWrite list \<Rightarrow> bytes \<Rightarrow> bytes set" where
  "crash_images ws img =
     {fold apply_write (take k ws) img | k. k \<le> length ws} \<union>
     {apply_bytes (fold apply_write (take k ws) img) (unat (pw_offset (ws ! k))) (take j (pw_bytes (ws ! k))) | k j.
        k < length ws \<and> 0 < j \<and> j < length (pw_bytes (ws ! k))}"

lemma crash_images_Cons:
  assumes "v \<in> crash_images ws (apply_write w img)"
  shows "v \<in> crash_images (w # ws) img"
proof -
  consider k where "k \<le> length ws" "v = fold apply_write (take k ws) (apply_write w img)"
    | k j where "k < length ws" "0 < j" "j < length (pw_bytes (ws ! k))"
      "v = apply_bytes (fold apply_write (take k ws) (apply_write w img)) (unat (pw_offset (ws ! k)))
             (take j (pw_bytes (ws ! k)))"
    using assms by (auto simp: crash_images_def)
  then show ?thesis
  proof cases
    case 1
    then have "v = fold apply_write (take (Suc k) (w # ws)) img" "Suc k \<le> length (w # ws)" by simp_all
    then show ?thesis unfolding crash_images_def by blast
  next
    case 2
    then have "v = apply_bytes (fold apply_write (take (Suc k) (w # ws)) img)
        (unat (pw_offset ((w # ws) ! Suc k))) (take j (pw_bytes ((w # ws) ! Suc k)))"
      "Suc k < length (w # ws)" "j < length (pw_bytes ((w # ws) ! Suc k))" by simp_all
    with \<open>0 < j\<close> show ?thesis unfolding crash_images_def by blast
  qed
qed

lemma crash_pending_images:
  "crash_pending rops kp tp ws img lost r = Some (v, lost', r') \<Longrightarrow> v \<in> crash_images ws img"
proof (induction ws arbitrary: img lost r)
  case Nil
  then show ?case by (auto simp: crash_images_def)
next
  case (Cons w ws)
  obtain a r1 where a: "crash_applied rops kp tp (length (pw_bytes w)) r = Some (a, r1)"
    using Cons.prems by (auto simp: Let_def split: option.splits)
  show ?case
  proof (cases "a < length (pw_bytes w)")
    case True
    then have v: "v = (if a > 0 then apply_bytes img (unat (pw_offset w)) (take a (pw_bytes w)) else img)"
      using Cons.prems a by (simp add: Let_def)
    show ?thesis
    proof (cases "a = 0")
      case True
      then have "v = fold apply_write (take 0 (w # ws)) img" using v by simp
      then show ?thesis unfolding crash_images_def by blast
    next
      case False
      then have "v = apply_bytes (fold apply_write (take 0 (w # ws)) img) (unat (pw_offset ((w # ws) ! 0)))
          (take a (pw_bytes ((w # ws) ! 0)))" "a < length (pw_bytes ((w # ws) ! 0))"
        using v True by simp_all
      with False show ?thesis unfolding crash_images_def by fastforce
    qed
  next
    case False
    let ?img = "if a > 0 then apply_bytes img (unat (pw_offset w)) (take a (pw_bytes w)) else img"
    have img: "?img = apply_write w img"
      using False by (auto simp: apply_write_def apply_bytes_def)
    have "crash_pending rops kp tp ws ?img (lost + of_nat (length (pw_bytes w) - a)) r1 = Some (v, lost', r')"
      using Cons.prems a False by (simp add: Let_def)
    then have "v \<in> crash_images ws (apply_write w img)" unfolding img by (rule Cons.IH)
    then show ?thesis by (rule crash_images_Cons)
  qed
qed

lemma crash_files_images:
  "crash_files rops kp tp fs lost r = Some (fs', lost', r') \<Longrightarrow>
   map fst fs' = map fst fs \<and>
   (\<forall>p. rel_option (\<lambda>f f'. \<exists>v. v \<in> crash_images (f_pending f) (f_durable f) \<and>
           f' = \<lparr>f_durable = v, f_visible = v, f_pending = []\<rparr>) (map_of fs p) (map_of fs' p))"
proof (induction fs arbitrary: fs' lost r)
  case (Cons pf fs)
  obtain p f where pf: "pf = (p, f)" by force
  obtain v l1 r1 where v: "crash_pending rops kp tp (f_pending f) (f_durable f) lost r = Some (v, l1, r1)"
    using Cons.prems pf by (auto split: option.splits)
  then obtain fs1 where fs1: "crash_files rops kp tp fs l1 r1 = Some (fs1, lost', r')"
    and fs': "fs' = (p, \<lparr>f_durable = v, f_visible = v, f_pending = []\<rparr>) # fs1"
    using Cons.prems pf by auto
  from Cons.IH [OF fs1] crash_pending_images [OF v] show ?case
    by (auto simp: fs' pf)
qed simp

lemma crash_images_length:
  assumes "v \<in> crash_images ws img" and "length img \<le> n"
    and "\<forall>w \<in> set ws. unat (pw_offset w) + length (pw_bytes w) \<le> n"
  shows "length v \<le> n"
proof -
  have pre: "length (fold apply_write (take k ws) img) \<le> n" for k
    using assms(2,3) by (intro length_fold_apply_write) (auto dest: in_set_takeD)
  consider k where "v = fold apply_write (take k ws) img"
    | k j where "k < length ws"
      "v = apply_bytes (fold apply_write (take k ws) img) (unat (pw_offset (ws ! k))) (take j (pw_bytes (ws ! k)))"
    using assms(1) unfolding crash_images_def by blast
  then show ?thesis
  proof cases
    case 2
    then have "unat (pw_offset (ws ! k)) + length (pw_bytes (ws ! k)) \<le> n" using assms(3) by simp
    with 2 pre [of k] show ?thesis by (auto simp: length_apply_bytes)
  qed (use pre in simp)
qed

lemma crash_file:
  assumes "SimDisk_crash rops (d, r) = Some (d', r')"
  shows "rel_option (\<lambda>f f'. f_visible f' \<in> crash_images (f_pending f) (f_durable f) \<and>
           f_durable f' = f_visible f' \<and> f_pending f' = []) (map_of (sd_files d) p) (map_of (sd_files d') p)"
    and "map fst (sd_files d') = map fst (sd_files d)"
    and "\<not> sd_powered d' \<and> sd_open d' = (\<lambda>_. None) \<and> sd_next_id d' = sd_next_id d \<and>
         sd_faults d' = sd_faults d \<and> sd_dirs d' = sd_dirs d"
proof -
  obtain files lost where files: "crash_files rops (keep_unflushed_probability (sd_faults d))
      (tear_probability (sd_faults d)) (sd_files d) (sd_bytes_lost d) r = Some (files, lost, r')"
    and d': "d' = d\<lparr>sd_crashes := sd_crashes d + 1, sd_files := files, sd_bytes_lost := lost,
                 sd_powered := False, sd_open := (\<lambda>_. None)\<rparr>"
    using assms by (auto simp: SimDisk_crash_def split: option.splits)
  have rel: "rel_option (\<lambda>f f'. \<exists>v. v \<in> crash_images (f_pending f) (f_durable f) \<and>
      f' = \<lparr>f_durable = v, f_visible = v, f_pending = []\<rparr>) (map_of (sd_files d) p) (map_of (sd_files d') p)"
    using crash_files_images [OF files] by (simp add: d')
  show "rel_option (\<lambda>f f'. f_visible f' \<in> crash_images (f_pending f) (f_durable f) \<and>
       f_durable f' = f_visible f' \<and> f_pending f' = []) (map_of (sd_files d) p) (map_of (sd_files d') p)"
    by (rule option.rel_mono_strong [OF rel]) auto
  show "map fst (sd_files d') = map fst (sd_files d)"
    using crash_files_images [OF files] by (simp add: d')
  show "\<not> sd_powered d' \<and> sd_open d' = (\<lambda>_. None) \<and> sd_next_id d' = sd_next_id d \<and>
      sd_faults d' = sd_faults d \<and> sd_dirs d' = sd_dirs d" by (simp add: d')
qed

lemma crash_ok:
  assumes "sim_ok d" and "SimDisk_crash rops (d, r) = Some (d', r')"
  shows "sim_ok d'"
proof -
  have "file_ok f'" if f': "map_of (sd_files d') p = Some f'" for p f'
  proof -
    obtain f where f: "map_of (sd_files d) p = Some f"
      and v: "f_visible f' \<in> crash_images (f_pending f) (f_durable f)"
      and rest: "f_durable f' = f_visible f'" "f_pending f' = []"
      using crash_file(1) [OF assms(2), of p] f' by (auto simp: option_rel_Some2)
    have "length (f_visible f') \<le> kMaxFileBytes"
      using sim_ok_file [OF assms(1) f] by (intro crash_images_length [OF v]) (auto simp: file_ok_def)
    then show ?thesis using rest by (simp add: file_ok_def)
  qed
  then show ?thesis
    using assms(1) crash_file(2,3) [OF assms(2)] by (auto simp: sim_ok_def omap_ok_def)
qed

text \<open>The crash itself ends whenever bounded draws do.\<close>

lemma crash_applied_total:
  "\<forall>b r. rnd_next_below rops b r \<noteq> None \<Longrightarrow> crash_applied rops kp tp n r \<noteq> None"
  by (auto simp: crash_applied_def Let_def split: prod.split) blast

lemma crash_pending_total:
  assumes "\<forall>b r. rnd_next_below rops b r \<noteq> None"
  shows "crash_pending rops kp tp ws img lost r \<noteq> None"
proof (induction ws arbitrary: img lost r)
  case (Cons w ws)
  obtain a r' where "crash_applied rops kp tp (length (pw_bytes w)) r = Some (a, r')"
    using crash_applied_total [OF assms] by fastforce
  with Cons show ?case by (simp add: Let_def)
qed simp

lemma crash_files_total:
  assumes "\<forall>b r. rnd_next_below rops b r \<noteq> None"
  shows "crash_files rops kp tp fs lost r \<noteq> None"
proof (induction fs arbitrary: lost r)
  case (Cons pf fs)
  obtain p f where pf: "pf = (p, f)" by force
  obtain v l r' where "crash_pending rops kp tp (f_pending f) (f_durable f) lost r = Some (v, l, r')"
    using crash_pending_total [OF assms] by (metis not_Some_eq prod_cases3)
  with Cons show ?case by (simp add: pf)
qed simp

lemma crash_total:
  assumes "\<forall>b r. rnd_next_below rops b r \<noteq> None"
  shows "SimDisk_crash rops x \<noteq> None"
proof -
  obtain d r where x: "x = (d, r)" by force
  obtain fs l r' where "crash_files rops (keep_unflushed_probability (sd_faults d))
      (tear_probability (sd_faults d)) (sd_files d) (sd_bytes_lost d) r = Some (fs, l, r')"
    using crash_files_total [OF assms] by (metis not_Some_eq prod_cases3)
  then show ?thesis by (simp add: x SimDisk_crash_def)
qed

text \<open>When the pending writes continue one another at the end of the file, a crash keeps a prefix.\<close>

fun appending :: "nat \<Rightarrow> PendingWrite list \<Rightarrow> bool" where
  "appending n [] = True"
| "appending n (w # ws) = (unat (pw_offset w) = n \<and> appending (n + length (pw_bytes w)) ws)"

lemma appending_fold:
  "appending (length img) ws \<Longrightarrow> fold apply_write ws img = img @ concat (map pw_bytes ws)"
proof (induction ws arbitrary: img)
  case (Cons w ws)
  then have "apply_write w img = img @ pw_bytes w" by (simp add: apply_write_def)
  with Cons show ?case by simp
qed simp

lemma appending_take: "appending n ws \<Longrightarrow> appending n (take k ws)"
  by (induction ws arbitrary: n k) (auto simp: take_Cons split: nat.split)

lemma appending_nth:
  "appending n ws \<Longrightarrow> k < length ws \<Longrightarrow>
   unat (pw_offset (ws ! k)) = n + length (concat (map pw_bytes (take k ws)))"
proof (induction ws arbitrary: n k)
  case (Cons w ws)
  then show ?case by (cases k) auto
qed simp

lemma appending_snoc:
  "appending n (ws @ [w]) \<longleftrightarrow> appending n ws \<and> unat (pw_offset w) = n + length (concat (map pw_bytes ws))"
  by (induction ws arbitrary: n) (auto simp: add.assoc)

lemma crash_images_appending:
  assumes "v \<in> crash_images ws img" and "appending (length img) ws"
  shows "\<exists>n \<ge> length img. v = take n (fold apply_write ws img)"
proof -
  let ?all = "img @ concat (map pw_bytes ws)"
  have split: "?all = (img @ concat (map pw_bytes (take k ws))) @ concat (map pw_bytes (drop k ws))" for k
    by (metis append_assoc append_take_drop_id concat_append map_append)
  have pre: "fold apply_write (take k ws) img = img @ concat (map pw_bytes (take k ws))" for k
    using appending_fold [OF appending_take [OF assms(2)]] .
  consider k where "v = img @ concat (map pw_bytes (take k ws))"
    | k j where "k < length ws" "j < length (pw_bytes (ws ! k))"
      "v = img @ concat (map pw_bytes (take k ws)) @ take j (pw_bytes (ws ! k))"
    using assms appending_nth [OF assms(2)]
    by (auto simp: crash_images_def pre) (metis apply_bytes_append append_assoc length_append)
  then have "\<exists>n \<ge> length img. v = take n ?all"
  proof cases
    case 1
    then show ?thesis
      by (intro exI [of _ "length (img @ concat (map pw_bytes (take k ws)))"]) (simp add: split [of k])
  next
    case 2
    then have "drop k ws = ws ! k # drop (Suc k) ws" by (simp add: Cons_nth_drop_Suc)
    with 2 show ?thesis
      by (intro exI [of _ "length (img @ concat (map pw_bytes (take k ws))) + j"]) (simp add: split [of k])
  qed
  then show ?thesis using appending_fold [OF assms(2)] by simp
qed

section \<open>Every history of a disk\<close>

text \<open>One operation of the process, a power cut, or the power coming back.\<close>

inductive sim_step :: "'r random_ops \<Rightarrow> 'r sim_disk \<Rightarrow> 'r sim_disk \<Rightarrow> bool" for rops where
  step_open: "0 < fs_ids (sim_view x) \<Longrightarrow> sim_step rops x (snd (SimDisk_open p m x))"
| step_close: "sim_step rops x (SimDisk_close i x)"
| step_pwrite: "sim_step rops x (snd (SimDisk_pwrite rops i s off x))"
| step_pread: "sim_step rops x (snd (SimDisk_pread rops i n off x))"
| step_fsync: "sim_step rops x (snd (SimDisk_fsync rops i x))"
| step_truncate: "sim_step rops x (snd (SimDisk_truncate i sz x))"
| step_remove: "sim_step rops x (snd (SimDisk_remove p x))"
| step_make_directories: "sim_step rops x (snd (SimDisk_make_directories p x))"
| step_crash: "SimDisk_crash rops x = Some x' \<Longrightarrow> sim_step rops x x'"
| step_power_on: "sim_step rops (d, r) (SimDisk_power_on d, r)"
| step_corrupt: "random_source rops \<Longrightarrow> length (sd_files d) < 2 ^ 64 \<Longrightarrow> \<forall>(p, f) \<in> set (sd_files d). f_pending f = [] \<Longrightarrow>
    SimDisk_corrupt_random_byte rops (d, r) = Some (rotted, x') \<Longrightarrow> sim_step rops (d, r) x'"

inductive_cases sim_stepE: "sim_step rops x x'"

text \<open>A step of the process is a result and a new state; the contract says what it keeps.\<close>

lemma disk_step_valid:
  assumes "sim_valid x"
  shows "0 < fs_ids (sim_view x) \<Longrightarrow> sim_valid (snd (SimDisk_open p m x))"
    and "sim_valid (snd (SimDisk_pwrite rops i s off x))"
    and "sim_valid (snd (SimDisk_pread rops i n off x))"
    and "sim_valid (snd (SimDisk_fsync rops i x))"
    and "sim_valid (snd (SimDisk_truncate i sz x))"
    and "sim_valid (snd (SimDisk_remove p x))"
    and "sim_valid (snd (SimDisk_make_directories p x))"
proof -
  note rules = sim.open_ok [OF assms, of _ p m] sim.open_fail [OF assms, of _ p m]
    sim.pwrite_ok [OF assms, of rops i s off] sim.pwrite_fail [OF assms, of rops i s off]
    sim.pread_ok [OF assms, of rops i n off] sim.pread_fail [OF assms, of rops i n off]
    sim.fsync_view [OF assms, of rops i] sim.truncate_ok [OF assms, of _ i sz]
    sim.truncate_fail [OF assms, of _ i sz] sim.remove_ok [OF assms, of _ p]
    sim.remove_fail [OF assms, of _ p] sim.make_directories_view [OF assms, of _ p]
  show "0 < fs_ids (sim_view x) \<Longrightarrow> sim_valid (snd (SimDisk_open p m x))"
    using rules(1,2) by (cases "fst (SimDisk_open p m x)"; cases "SimDisk_open p m x") (auto simp: sim_disk_ops_def)
  show "sim_valid (snd (SimDisk_pwrite rops i s off x))"
    using rules(3,4) by (cases "fst (SimDisk_pwrite rops i s off x)"; cases "SimDisk_pwrite rops i s off x")
      (auto simp: sim_disk_ops_def)
  show "sim_valid (snd (SimDisk_pread rops i n off x))"
    using rules(5,6) by (cases "fst (SimDisk_pread rops i n off x)"; cases "SimDisk_pread rops i n off x")
      (auto simp: sim_disk_ops_def)
  show "sim_valid (snd (SimDisk_fsync rops i x))"
    using rules(7) by (cases "SimDisk_fsync rops i x") (auto simp: sim_disk_ops_def)
  show "sim_valid (snd (SimDisk_truncate i sz x))"
    using rules(8,9) by (cases "fst (SimDisk_truncate i sz x)"; cases "SimDisk_truncate i sz x")
      (auto simp: sim_disk_ops_def)
  show "sim_valid (snd (SimDisk_remove p x))"
    using rules(10,11) by (cases "fst (SimDisk_remove p x)"; cases "SimDisk_remove p x")
      (auto simp: sim_disk_ops_def)
  show "sim_valid (snd (SimDisk_make_directories p x))"
    using rules(12) by (cases "SimDisk_make_directories p x") (auto simp: sim_disk_ops_def)
qed

text \<open>Rot on the platter shows in both images of a file that has nothing pending.\<close>

lemma flip_byte_ok: "file_ok f \<Longrightarrow> f_pending f = [] \<Longrightarrow> file_ok (flip_byte i m f)"
  by (auto simp: file_ok_def flip_byte_def Let_def list_update_beyond not_less)

text \<open>Under a pending write of the same value it shows to readers too, but not once the write is replayed.\<close>

lemma flip_under_pending:
  "\<exists>f. file_ok f \<and> \<not> file_ok (flip_byte 0 1 f)"
  by (intro exI [of _ "\<lparr>f_durable = [1], f_visible = [1], f_pending = [\<lparr>pw_offset = 0, pw_bytes = [1]\<rparr>]\<rparr>"])
    (simp add: file_ok_def flip_byte_def apply_write_def apply_bytes_def write_at_def kMaxFileBytes_def Let_def)

lemma corrupt_ok:
  assumes "random_source rops" and "sim_ok d" and "\<forall>(p, f) \<in> set (sd_files d). f_pending f = []"
    and "SimDisk_corrupt_random_byte rops (d, r) = Some (rotted, (d', r'))" and "length (sd_files d) < 2 ^ 64"
  shows "sim_ok d'"
proof -
  let ?cs = "filter (\<lambda>(_, f). f_durable f \<noteq> []) (sd_files d)"
  show ?thesis
  proof (cases "?cs = []")
    case False
    then obtain c r1 p f i m where draws: "rnd_next_below rops (of_nat (length ?cs)) r = Some (c, r1)"
        "?cs ! unat c = (p, f)" "d' = SimDisk_set_file p (flip_byte i m f) d"
      using assms(4) by (auto simp: SimDisk_corrupt_random_byte_def Let_def split: option.splits prod.splits)
    have len: "unat (of_nat (length ?cs) :: u64) = length ?cs"
      using assms(5) by (intro unat_of_nat_u64 le_less_trans [OF length_filter_le]) simp
    have "(0 :: u64) < of_nat (length ?cs)" using len False by (simp add: word_less_nat_alt)
    then have "unat c < length ?cs" using random_source.below_bound [OF assms(1) draws(1)] len by (simp add: word_less_nat_alt)
    then have "(p, f) \<in> set (sd_files d)" using nth_mem [of "unat c" ?cs] draws(2) by auto
    moreover from this have "map_of (sd_files d) p = Some f"
      using assms(2) by (auto simp: sim_ok_def omap_ok_def strict_sorted_iff intro: map_of_is_SomeI)
    ultimately have "file_ok (flip_byte i m f)" using flip_byte_ok sim_ok_file [OF assms(2)] assms(3) by blast
    then show ?thesis using draws(3) sim_ok_set_file [OF assms(2)] by simp
  qed (use assms(2,4) in \<open>simp add: SimDisk_corrupt_random_byte_def\<close>)
qed

lemma sim_step_valid: "sim_step rops x x' \<Longrightarrow> sim_valid x \<Longrightarrow> sim_valid x'"
proof (induction rule: sim_step.induct)
  case (step_close x i)
  then show ?case using sim.close [of x _ i] by (simp add: sim_disk_ops_def)
next
  case (step_crash x x')
  then show ?case using crash_ok by (cases x; cases x') (auto simp: sim_valid_def)
next
  case (step_power_on d r)
  then show ?case by (simp add: sim_valid_def sim_ok_def SimDisk_power_on_def)
next
  case (step_corrupt d r rotted x')
  then show ?case using corrupt_ok by (cases x') (auto simp: sim_valid_def)
qed (simp_all add: disk_step_valid)

section \<open>Properties\<close>

text \<open>C27. Through every history of the calls of the disk interface, power cuts, reboots, and bytes that rot
  while no file has a write pending, the bytes a reader sees of a file are its durable bytes with the
  unflushed writes applied in issue order. This is what lets \<^verbatim>\<open>fsync\<close> replay the pending list instead
  of copying the file. Rot under a pending write is left out: there the images may part.\<close>

theorem visible_is_durable_plus_pending:
  assumes "(sim_step rops)\<^sup>*\<^sup>* (SimDisk_new faults, r) (d, r')"
    and "map_of (sd_files d) p = Some f"
  shows "f_visible f = fold apply_write (f_pending f) (f_durable f)"
proof -
  have "sim_valid (d, r')"
    using assms(1)
  proof (induction rule: rtranclp_induct)
    case base
    show ?case by (simp add: sim_valid_def sim_ok_new)
  next
    case (step y z)
    then show ?case by (blast intro: sim_step_valid)
  qed
  then show ?thesis
    using sim_ok_file [OF _ assms(2)] by (simp add: sim_valid_def file_ok_def)
qed

definition no_faults :: DiskFaultConfig where
  "no_faults = \<lparr>torn_write_probability = 0, keep_unflushed_probability = 0, io_error_probability = 0\<rparr>"

definition fresh_log_disk :: "'r \<Rightarrow> 'r sim_disk" where
  "fresh_log_disk r = snd (SimDisk_open ''a'' kCreate (SimDisk_new no_faults, r))"

lemma fresh_log_disk_eq:
  "fresh_log_disk r = (\<lparr>sd_faults = no_faults,
     sd_files = [(''a'', \<lparr>f_durable = [], f_visible = [], f_pending = []\<rparr>)],
     sd_dirs = {'''', ''/''}, sd_open = [0 \<mapsto> \<lparr>hd_path = ''a'', hd_mode = kCreate\<rparr>],
     sd_next_id = 1, sd_powered = True, sd_bytes_lost = 0, sd_crashes = 0\<rparr>, r)"
  by (simp add: fresh_log_disk_def SimDisk_open_def SimDisk_new_def normalize.simps parent_of_def rfind_def
      SimDisk_set_file_def Let_def)

theorem visible_is_durable_plus_pending_witness:
  "[7, 8] = fold apply_write [\<lparr>pw_offset = 0, pw_bytes = [7, 8 :: u8]\<rparr>] []"
proof -
  let ?x = "snd (SimDisk_pwrite seeded_ops 0 [7, 8] 0 (fresh_log_disk (reseed 1)))"
  let ?f = "\<lparr>f_durable = [], f_visible = [7, 8], f_pending = [\<lparr>pw_offset = 0, pw_bytes = [7, 8 :: u8]\<rparr>]\<rparr>"
  have "sim_step seeded_ops (SimDisk_new no_faults, reseed 1) (fresh_log_disk (reseed 1))"
    unfolding fresh_log_disk_def by (rule step_open) (simp add: sim_view_def SimDisk_new_def)
  moreover have "sim_step seeded_ops (fresh_log_disk (reseed 1)) ?x" by (rule step_pwrite)
  ultimately have run: "(sim_step seeded_ops)\<^sup>*\<^sup>* (SimDisk_new no_faults, reseed 1) (fst ?x, snd ?x)"
    by (simp add: rtranclp.rtrancl_into_rtrancl)
  have stored: "map_of (sd_files (fst ?x)) ''a'' = Some ?f"
    by (simp add: fresh_log_disk_eq SimDisk_pwrite_def SimDisk_resolve_def no_faults_def no_error
        SimDisk_set_file_def apply_bytes_def write_at_def resize_def consts_of Let_def)
  from visible_is_durable_plus_pending [OF run stored] show ?thesis by simp
qed

text \<open>C28. A power cut takes nothing that was flushed and manufactures nothing: a file whose writes since
  the last flush only appended comes back as a prefix of what readers saw, no shorter than its
  durable bytes; with nothing pending it comes back unchanged. What survives is the new durable
  state, and every open handle is gone.\<close>

theorem crash_keeps_flushed_prefix:
  assumes "sim_ok d" and "SimDisk_crash rops (d, r) = Some (d', r')"
    and "map_of (sd_files d) p = Some f" and "appending (length (f_durable f)) (f_pending f)"
  shows "\<exists>n f'. map_of (sd_files d') p = Some f' \<and> length (f_durable f) \<le> n \<and>
                f_visible f' = take n (f_visible f) \<and> f_durable f' = f_visible f' \<and> f_pending f' = [] \<and>
                (f_pending f = [] \<longrightarrow> f_visible f' = f_visible f) \<and> sd_open d' = (\<lambda>_. None)"
proof -
  obtain f' where f': "map_of (sd_files d') p = Some f'"
    and v: "f_visible f' \<in> crash_images (f_pending f) (f_durable f)"
    and rest: "f_durable f' = f_visible f'" "f_pending f' = []"
    using crash_file(1) [OF assms(2), of p] assms(3) by (auto simp: option_rel_Some1)
  have vis: "f_visible f = fold apply_write (f_pending f) (f_durable f)"
    using sim_ok_file [OF assms(1,3)] by (simp add: file_ok_def)
  obtain n where "length (f_durable f) \<le> n" "f_visible f' = take n (f_visible f)"
    using crash_images_appending [OF v assms(4)] vis by auto
  moreover have "f_visible f' = f_visible f" if "f_pending f = []"
    using v vis that by (auto simp: crash_images_def)
  ultimately show ?thesis
    using f' rest crash_file(3) [OF assms(2)] by blast
qed

definition half_flushed :: File where
  "half_flushed = \<lparr>f_durable = [7], f_visible = [7, 8], f_pending = [\<lparr>pw_offset = 1, pw_bytes = [8]\<rparr>]\<rparr>"

definition half_flushed_disk :: SimDisk where
  "half_flushed_disk = (SimDisk_new no_faults)\<lparr>sd_files := [(''a'', half_flushed)]\<rparr>"

definition half_flushed_after :: SimDisk where
  "half_flushed_after = half_flushed_disk
     \<lparr>sd_crashes := 1, sd_files := [(''a'', \<lparr>f_durable = [7], f_visible = [7], f_pending = []\<rparr>)],
      sd_bytes_lost := 1, sd_powered := False, sd_open := (\<lambda>_. None)\<rparr>"

theorem crash_keeps_flushed_prefix_witness:
  "\<exists>n f'. map_of (sd_files half_flushed_after) ''a'' = Some f' \<and> length (f_durable half_flushed) \<le> n \<and>
          f_visible f' = take n (f_visible half_flushed) \<and> f_durable f' = f_visible f' \<and> f_pending f' = [] \<and>
          (f_pending half_flushed = [] \<longrightarrow> f_visible f' = f_visible half_flushed) \<and>
          sd_open half_flushed_after = (\<lambda>_. None)"
proof (rule crash_keeps_flushed_prefix)
  show "SimDisk_crash seeded_ops (half_flushed_disk, reseed 1) = Some (half_flushed_after, reseed 1)"
    by (simp add: SimDisk_crash_def half_flushed_disk_def half_flushed_after_def SimDisk_new_def half_flushed_def
        no_faults_def tear_probability_def round_double_def crash_applied_def no_error)
  show "sim_ok half_flushed_disk"
    by (simp add: sim_ok_def half_flushed_disk_def SimDisk_new_def half_flushed_def file_ok_def
        apply_write_def apply_bytes_def write_at_def resize_def consts_of)
  show "map_of (sd_files half_flushed_disk) ''a'' = Some half_flushed"
    by (simp add: half_flushed_disk_def)
qed (simp add: half_flushed_def)

end
