(* ===== verification/Segment_Recovery.thy ===== *)
theory Segment_Recovery
  imports Segment Batch_Log Sim_Disk
begin

text \<open>
  Recovery of a segment on any disk that meets the contract: what the scan finds, and what a
  segment knows once it is open.
\<close>

section \<open>Headers and views\<close>

lemma load_header_take: "52 \<le> n \<Longrightarrow> load_header (take n p) = load_header p"
  by (simp add: load_header_def load_i64_le_def load_take drop_take)

lemma decode_header_take: "52 \<le> n \<Longrightarrow> decode_header (take n p) = decode_header p"
  by (auto simp: decode_header_def load_header_take kBatchHeaderBytes_def Let_def)

lemma validate_decode: "validate_batch p = Inr () \<Longrightarrow> decode_header p = Inr (load_header p)"
  by (auto simp: validate_batch_def dest: decode_header_load split: sum.splits)

lemma validate_take:
  assumes "decode_header p = Inr h" and "total_bytes h \<le> length p"
  shows "validate_batch (take (total_bytes h) p) = validate_batch p"
proof -
  let ?q = "take (total_bytes h) p"
  have h: "h = load_header p" and t: "52 \<le> total_bytes h"
    using decode_header_load [OF assms(1)] decode_header_Inr [OF assms(1)] by blast+
  have "validate_batch ?q = Inr () \<longleftrightarrow> validate_batch p = Inr ()"
  proof
    assume "validate_batch ?q = Inr ()"
    then obtain h' vs rest where "?q = batch_bytes h' vs @ rest" "batch_wf h' vs"
      using validate_sound by blast
    moreover have "p = ?q @ drop (total_bytes h) p" by simp
    ultimately show "validate_batch p = Inr ()"
      using validate_complete [of h' vs "rest @ drop (total_bytes h) p"] by (metis append_assoc)
  next
    assume "validate_batch p = Inr ()"
    then obtain vs where "batch_wf (load_header p) vs" "?q = batch_bytes (load_header p) vs"
      using validate_batch_bytes h by metis
    then show "validate_batch ?q = Inr ()"
      using validate_complete [of _ vs "[]"] by simp
  qed
  then show ?thesis using validate_cases [of ?q] validate_cases [of p] by metis
qed

lemma parse_batches_Nil:
  "decode_header c = Inl e \<Longrightarrow> parse_batches off c = []"
  "decode_header c = Inr h \<Longrightarrow> length c < total_bytes h \<Longrightarrow> parse_batches off c = []"
  "decode_header c = Inr h \<Longrightarrow> bh_base_offset h \<noteq> off \<Longrightarrow> parse_batches off c = []"
proof -
  show "decode_header c = Inl e \<Longrightarrow> parse_batches off c = []"
    by (rule parse_batches_stop) (auto simp: validate_batch_def)
  show "decode_header c = Inr h \<Longrightarrow> length c < total_bytes h \<Longrightarrow> parse_batches off c = []"
    by (rule parse_batches_stop) (auto simp: validate_batch_def Let_def)
  show "decode_header c = Inr h \<Longrightarrow> bh_base_offset h \<noteq> off \<Longrightarrow> parse_batches off c = []"
    using decode_header_load [of c h] by (subst parse_batches.simps) simp
qed

text \<open>The hints of an index that hold for a chain.\<close>

definition hints_hold :: "u64 \<Rightarrow> batch list \<Rightarrow> SparseIndex \<Rightarrow> bool" where
  "hints_hold start bs es \<longleftrightarrow>
     (\<forall>e \<in> set es. boundary start bs (unat (file_pos e)) (start + ucast (rel_offset e)))"

lemma hints_hold_append: "hints_hold start bs es \<Longrightarrow> hints_hold start (bs @ cs) es"
  by (auto simp: hints_hold_def boundary_append)

lemma hints_hold_maybe_add:
  assumes "hints_hold start bs es"
    and "boundary start bs (unat pos) (start + ucast rel)"
  shows "hints_hold start bs (SparseIndex_maybe_add rel pos iv es)"
  using assms maybe_add_set [of rel pos iv es] by (auto simp: hints_hold_def)

lemma hints_hold_truncate:
  assumes "hints_hold start (bs @ cs) es" and "index_ok es" and "unat pos = length (log_bytes bs)"
  shows "hints_hold start bs (SparseIndex_truncate_from pos es)"
  unfolding hints_hold_def
proof
  fix e assume "e \<in> set (SparseIndex_truncate_from pos es)"
  then have "boundary start (bs @ cs) (unat (file_pos e)) (start + ucast (rel_offset e))"
    and "unat (file_pos e) \<le> length (log_bytes bs)"
    using assms by (simp_all add: hints_hold_def truncate_from_filter word_less_nat_alt)
  then show "boundary start bs (unat (file_pos e)) (start + ucast (rel_offset e))"
    by (rule boundary_inside)
qed

text \<open>Offsets within a segment fit 32 bits, since a record takes at least four bytes.\<close>

lemma rel_offset_exact:
  assumes "length (log_bytes ps) < 4294967296"
  shows "start + ucast (ucast (chain_end start ps - start) :: u32) = (chain_end start ps :: u64)"
proof -
  have n: "nrecs ps < 4294967296" using nrecs_bytes [of ps] assms by simp
  have "(ucast (of_nat (nrecs ps) :: u64) :: u32) = of_nat (nrecs ps)"
    using n by (simp add: unsigned_of_nat take_bit_nat_eq_self)
  then show ?thesis using ucast_of_nat_u32 [OF n] by (simp add: chain_end_def)
qed

text \<open>One turn of the scan: it fails, stops where no further batch parses, or steps over a batch.\<close>

definition scan_next :: "Segment \<Rightarrow> BatchHeader \<Rightarrow> scan_state \<Rightarrow> scan_state" where
  "scan_next sg h st =
     \<lparr>sc_pos = sc_pos st + of_nat (total_bytes h),
      sc_expect = next_offset h,
      sc_index = SparseIndex_maybe_add (ucast (bh_base_offset h - sg_base_offset sg))
        (sc_pos st) (so_index_interval_bytes (sg_options sg)) (sc_index st),
      sc_scanned = sc_scanned st + 1\<rparr>"

text \<open>
  An index sidecar is honest about a file when each of its entries either names a boundary of
  what the file parses to, or points past it at bytes that do not look like the claimed batch.
\<close>

definition looks_like :: "bytes \<Rightarrow> u64 \<Rightarrow> IndexEntry \<Rightarrow> bool" where
  "looks_like c start e \<longleftrightarrow>
     (case decode_header (drop (unat (file_pos e)) c) of
        Inl _ \<Rightarrow> False | Inr h \<Rightarrow> bh_base_offset h = start + ucast (rel_offset e))"

definition hints_honest :: "u64 \<Rightarrow> bytes \<Rightarrow> SparseIndex \<Rightarrow> bool" where
  "hints_honest start c es \<longleftrightarrow>
     (let bs = parse_batches start c
      in \<forall>e \<in> set es.
           boundary start bs (unat (file_pos e)) (start + ucast (rel_offset e)) \<or>
           (length (log_bytes bs) \<le> unat (file_pos e) \<and> \<not> looks_like c start e))"

lemma hints_honest_take:
  assumes "hints_honest start c es" and "index_ok es" and "es' = take k es" and "es' \<noteq> []"
    and "looks_like c start (last es')"
  shows "hints_hold start (parse_batches start c) es' \<and>
         boundary start (parse_batches start c) (unat (file_pos (last es'))) (start + ucast (rel_offset (last es')))"
proof -
  let ?bs = "parse_batches start c"
  have sub: "set es' \<subseteq> set es" using assms(3) by (simp add: set_take_subset)
  have last: "boundary start ?bs (unat (file_pos (last es'))) (start + ucast (rel_offset (last es')))"
    using assms(1,4,5) sub last_in_set by (fastforce simp: hints_honest_def Let_def)
  have ok: "index_ok es'" using assms(2,3) by (simp add: index_ok_take)
  have "boundary start ?bs (unat (file_pos e)) (start + ucast (rel_offset e))" if e: "e \<in> set es'" for e
  proof (cases "e = last es'")
    case False
    have "file_pos e < file_pos (last es')"
      using ok e False assms(4) by (cases es' rule: rev_cases) (auto simp: index_ok_def sorted_wrt_append)
    then have "unat (file_pos e) < length (log_bytes ?bs)"
      using boundary_le [OF last] by (simp add: word_less_nat_alt)
    then show ?thesis using assms(1) e sub by (fastforce simp: hints_honest_def Let_def)
  qed (use last in simp)
  with last show ?thesis by (simp add: hints_hold_def)
qed

text \<open>
  Recovery trusts an entry after looking at the header it points to. The check is enough when every
  entry that passes it names a boundary: no bytes inside a batch read as the header the entry claims.
\<close>

definition hints_checked :: "u64 \<Rightarrow> bytes \<Rightarrow> SparseIndex \<Rightarrow> bool" where
  "hints_checked start c es \<longleftrightarrow>
     (\<forall>e \<in> set es. looks_like c start e \<longrightarrow>
        boundary start (parse_batches start c) (unat (file_pos e)) (start + ucast (rel_offset e)))"

lemma honest_checked: "hints_honest start c es \<Longrightarrow> hints_checked start c es"
  by (auto simp: hints_honest_def hints_checked_def Let_def)

lemma hints_checked_take: "hints_checked start c es \<Longrightarrow> hints_checked start c (take k es)"
  by (auto simp: hints_checked_def dest: in_set_takeD)

text \<open>
  What a segment knows once it is open, for the chain \<open>bs\<close> in its file: \<open>seg_holds\<close> without the hints of
  its index, \<open>seg_inv\<close> with them.
\<close>

definition seg_holds :: "Segment \<Rightarrow> fs \<Rightarrow> batch list \<Rightarrow> bool" where
  "seg_holds sg v bs \<longleftrightarrow>
     fs_file v (sg_log_file sg) = Some (log_bytes bs) \<and>
     (\<exists>p m. fs_handles v (sg_log_file sg) = Some (p, m) \<and> m \<noteq> kRead) \<and>
     chain (sg_base_offset sg) bs \<and>
     unat (sg_size_bytes sg) = length (log_bytes bs) \<and>
     sg_size_bytes sg \<le> so_max_bytes (sg_options sg) \<and>
     sg_next_offset sg = chain_end (sg_base_offset sg) bs \<and>
     index_ok (sg_index sg) \<and> (\<forall>e \<in> set (sg_index sg). file_pos e < sg_size_bytes sg)"

definition seg_inv :: "Segment \<Rightarrow> fs \<Rightarrow> batch list \<Rightarrow> bool" where
  "seg_inv sg v bs \<longleftrightarrow>
     fs_file v (sg_log_file sg) = Some (log_bytes bs) \<and>
     (\<exists>p m. fs_handles v (sg_log_file sg) = Some (p, m) \<and> m \<noteq> kRead) \<and>
     chain (sg_base_offset sg) bs \<and>
     unat (sg_size_bytes sg) = length (log_bytes bs) \<and>
     sg_size_bytes sg \<le> so_max_bytes (sg_options sg) \<and>
     sg_next_offset sg = chain_end (sg_base_offset sg) bs \<and>
     index_ok (sg_index sg) \<and> hints_hold (sg_base_offset sg) bs (sg_index sg) \<and>
     (\<forall>e \<in> set (sg_index sg). file_pos e < sg_size_bytes sg)"

lemma seg_inv_holds: "seg_inv sg v bs \<longleftrightarrow> seg_holds sg v bs \<and> hints_hold (sg_base_offset sg) bs (sg_index sg)"
  by (auto simp: seg_inv_def seg_holds_def)

lemma scan_start_split:
  assumes "hints_checked (sg_base_offset sg) c idx"
    and "case start of None \<Rightarrow> idx = [] | Some e \<Rightarrow> idx \<noteq> [] \<and> e = last idx \<and> looks_like c (sg_base_offset sg) e"
  obtains pre rest where "c = log_bytes pre @ rest" and "chain (sg_base_offset sg) pre"
    and "unat (sc_pos (scan_start sg start idx)) = length (log_bytes pre)"
    and "sc_expect (scan_start sg start idx) = chain_end (sg_base_offset sg) pre"
    and "pre @ parse_batches (chain_end (sg_base_offset sg) pre) rest = parse_batches (sg_base_offset sg) c"
proof (cases start)
  case None
  then show thesis using that [of "[]" c] by (simp add: scan_start_def)
next
  case (Some e)
  let ?base = "sg_base_offset sg" and ?bs = "parse_batches (sg_base_offset sg) c"
  have e: "e \<in> set idx" "looks_like c ?base e" using assms(2) Some by auto
  then have "boundary ?base ?bs (unat (file_pos e)) (?base + ucast (rel_offset e))"
    using assms(1) by (simp add: hints_checked_def)
  then obtain ps qs where bs: "?bs = ps @ qs" and pos: "unat (file_pos e) = length (log_bytes ps)"
    and off: "?base + ucast (rel_offset e) = chain_end ?base ps"
    by (auto simp: boundary_def)
  obtain tail where c: "c = log_bytes ?bs @ tail" and ch: "chain ?base ?bs"
    using parse_batches_chain [of ?base c] by blast
  have ps: "chain ?base ps" using ch bs by (simp add: chain_append)
  have c': "c = log_bytes ps @ log_bytes qs @ tail" using c bs by simp
  have "ps @ parse_batches (chain_end ?base ps) (log_bytes qs @ tail) = ?bs"
    using parse_batches_append [OF ps, of "log_bytes qs @ tail"] c' by simp
  then show thesis
    using that [OF c' ps] pos off Some by (simp add: scan_start_def)
qed

lemma picked_hints_hold:
  assumes "hints_honest start c es" and "index_ok es"
    and "case e of None \<Rightarrow> take k es = [] | Some e \<Rightarrow> take k es \<noteq> [] \<and> e = last (take k es) \<and> looks_like c start e"
  shows "hints_hold start (parse_batches start c) (take k es)"
  using assms(3) hints_honest_take [OF assms(1,2), of "take k es" k] by (auto simp: hints_hold_def split: option.splits)

context disk
begin

lemma header_at_run:
  assumes "valid d" and "fs_file (view d) (sg_log_file sg) = Some c" and "header_at ops sg pos d = (res, d')"
  shows "valid d' \<and> view d' = view d \<and>
         (\<forall>x. res = Inr x \<longrightarrow>
            x = (case decode_header (drop (unat pos) c) of Inl e \<Rightarrow> None | Inr h \<Rightarrow> Some h))"
proof -
  obtain rd d1 where rd: "dk_pread ops (sg_log_file sg) kBatchHeaderBytes (ucast pos) d = (rd, d1)" by force
  show ?thesis
  proof (cases rd)
    case (Inl e)
    then show ?thesis
      using assms rd pread_fail [OF assms(1), of "sg_log_file sg" kBatchHeaderBytes "ucast pos" e d1]
      by (auto simp: header_at_def)
  next
    case (Inr bs)
    have bs: "valid d1" "view d1 = view d" "bs = take 52 (drop (unat pos) c)"
      using pread_ok [OF assms(1) rd [unfolded Inr]] assms(2) by (auto simp: kBatchHeaderBytes_def)
    have "decode_header bs = decode_header (drop (unat pos) c)"
      unfolding bs by (rule decode_header_take) simp
    then show ?thesis
      using assms(3) rd Inr bs(1,2)
      by (auto simp: header_at_def decode_header_def split: if_splits sum.splits)
  qed
qed

lemma scan_turn:
  assumes "valid d" and "fs_file (view d) (sg_log_file sg) = Some c" and "unat file_size = length c"
    and "unat (sc_pos st) \<le> length c" and "drop (unat (sc_pos st)) c = rest"
  obtains (failed) e d1 where "scan ops sg file_size st d = (Inl e, d1)" "valid d1" "view d1 = view d"
  | (stopped) d1 where "scan ops sg file_size st d = (Inr st, d1)" "valid d1" "view d1 = view d"
      "parse_batches (sc_expect st) rest = []"
  | (stepped) h vs rest' d1 where "rest = batch_bytes h vs @ rest'" "batch_wf h vs"
      "bh_base_offset h = sc_expect st" "valid d1" "view d1 = view d" "sc_pos st < file_size"
      "scan ops sg file_size st d = scan ops sg file_size (scan_next sg h st) d1"
proof (cases "sc_pos st < file_size")
  case False
  then have "rest = []" using assms(3-5) by (auto simp: word_less_nat_alt)
  then have "parse_batches (sc_expect st) rest = []" using parse_batches_log [of _ "[]"] by simp
  moreover have "scan ops sg file_size st d = (Inr st, d)"
    using False by (subst scan.simps) simp
  ultimately show thesis using stopped assms(1) by blast
next
  case lt: True
  obtain hr d1 where hr: "header_at ops sg (sc_pos st) d = (hr, d1)" by force
  note h1 = header_at_run [OF assms(1,2) hr, unfolded assms(5)]
  have room: "unat (file_size - sc_pos st) = length rest"
    using lt assms(3-5) by (auto simp: unat_diff_word less_imp_le)
  consider e where "hr = Inl e" | e where "hr = Inr None" "decode_header rest = Inl e"
    | h where "hr = Inr (Some h)" "decode_header rest = Inr h"
    using h1 by (cases hr; cases "decode_header rest") auto
  then show thesis
  proof cases
    case 1
    then show thesis using lt hr h1 by (intro failed [of e d1]) (subst scan.simps, auto)
  next
    case 2
    then show thesis
      using lt hr h1 parse_batches_Nil(1) [OF 2(2)] by (intro stopped [of d1]) (subst scan.simps, auto)
  next
    case 3
    show thesis
    proof (cases "total_bytes h > length rest")
      case True
      then show thesis
        using lt hr h1 3 room parse_batches_Nil(2) [OF 3(2)]
        by (intro stopped [of d1]) (subst scan.simps, auto simp: Let_def)
    next
      case fits: False
      obtain br d2 where br: "dk_pread ops (sg_log_file sg) (total_bytes h) (ucast (sc_pos st)) d1 = (br, d2)"
        by force
      have v1: "valid d1" "view d1 = view d" using h1 by simp_all
      have unfold: "scan ops sg file_size st d =
          (case br of Inl e \<Rightarrow> (fail e, d2)
           | Inr body \<Rightarrow> if length body < total_bytes h then (Inr st, d2)
                      else if \<not> result_ok (validate_batch body) then (Inr st, d2)
                      else if bh_base_offset h \<noteq> sc_expect st then (Inr st, d2)
                      else scan ops sg file_size (scan_next sg h st) d2)"
        using lt hr 3 room fits br
        by (subst scan.simps) (simp add: Let_def scan_next_def split: sum.split)
      show thesis
      proof (cases br)
        case (Inl e)
        then show thesis
          using unfold pread_fail [OF v1(1) br [unfolded Inl]] v1 by (intro failed [of e d2]) simp_all
      next
        case (Inr body)
        have v2: "valid d2" "view d2 = view d" and body: "body = take (total_bytes h) rest"
          using pread_ok [OF v1(1) br [unfolded Inr]] v1 assms(2,5) by auto
        have len: "length body = total_bytes h" using fits by (simp add: body)
        have val: "validate_batch body = validate_batch rest"
          unfolding body by (rule validate_take [OF 3(2)]) (use fits in simp)
        show thesis
        proof (cases "validate_batch rest = Inr () \<and> bh_base_offset h = sc_expect st")
          case True
          then obtain h' vs rest' where rest: "rest = batch_bytes h' vs @ rest'" and wf: "batch_wf h' vs"
            using validate_sound by blast
          have "h' = h" using batch_wf_decode [OF wf, of rest'] 3(2) rest by simp
          then show thesis
            using True rest wf v2 unfold Inr len val lt
            by (intro stepped [of h vs rest' d2]) (simp_all add: result_ok_def)
        next
          case False
          then have "parse_batches (sc_expect st) rest = []"
            using parse_batches_stop parse_batches_Nil(3) [OF 3(2)] by metis
          then show thesis
            using False v2 unfold Inr len val validate_cases [of rest]
            by (intro stopped [of d2]) (auto simp: result_ok_def)
        qed
      qed
    qed
  qed
qed

lemma scan_next_pos:
  assumes "unat (sc_pos st) = length (log_bytes pre)" and "c = log_bytes pre @ batch_bytes h vs @ rest'"
    and "batch_wf h vs" and "length c < 4294967296"
  shows "unat (sc_pos (scan_next sg h st)) = length (log_bytes (pre @ [(h, vs)]))"
proof -
  have t: "total_bytes h = length (batch_bytes h vs)" using assms(3) by (simp add: batch_wf_def)
  then have "unat (of_nat (total_bytes h) :: u32) = length (batch_bytes h vs)"
    using assms(2,4) by (simp add: unat_of_nat_u32 del: length_batch_bytes)
  then show ?thesis
    using assms(1,2,4) unat_add_u32 [of "sc_pos st" "of_nat (total_bytes h)"]
    by (simp add: scan_next_def batch_enc_def del: length_batch_bytes)
qed

lemma scan_run:
  assumes "valid d" and "fs_file (view d) (sg_log_file sg) = Some c" and "unat file_size = length c"
    and "c = log_bytes pre @ rest" and "chain (sg_base_offset sg) pre"
    and "unat (sc_pos st) = length (log_bytes pre)" and "sc_expect st = chain_end (sg_base_offset sg) pre"
    and "scan ops sg file_size st d = (res, d')"
  shows "valid d' \<and> view d' = view d \<and>
         (\<forall>st'. res = Inr st' \<longrightarrow>
            (let bs = pre @ parse_batches (sc_expect st) rest
             in unat (sc_pos st') = length (log_bytes bs) \<and>
                sc_expect st' = chain_end (sg_base_offset sg) bs \<and>
                (index_ok (sc_index st) \<longrightarrow> index_ok (sc_index st')) \<and>
                (hints_hold (sg_base_offset sg) bs (sc_index st) \<longrightarrow>
                 hints_hold (sg_base_offset sg) bs (sc_index st')) \<and>
                ((\<forall>e \<in> set (sc_index st). file_pos e < file_size) \<longrightarrow>
                 (\<forall>e \<in> set (sc_index st'). file_pos e < file_size))))"
  using assms
proof (induction "length rest" arbitrary: st d pre rest rule: less_induct)
  case less
  let ?base = "sg_base_offset sg"
  note pos = less.prems(6) and exp = less.prems(7) and run = less.prems(8)
  have "drop (unat (sc_pos st)) c = rest" and le: "unat (sc_pos st) \<le> length c"
    using less.prems(4,6) by simp_all
  from less.prems(1-3) le this(1) show ?case
  proof (cases rule: scan_turn)
    case (failed e d1)
    then show ?thesis using run by simp
  next
    case (stopped d1)
    then show ?thesis using run pos exp by simp
  next
    case (stepped h vs rest' d1)
    let ?st = "scan_next sg h st" and ?pre = "pre @ [(h, vs)]"
    have c32: "length c < 4294967296"
      using less.prems(3) unat_u32_bound [of file_size] by (simp del: unat_u32_bound)
    have c': "c = log_bytes ?pre @ rest'"
      using less.prems(4) stepped(1) by (simp add: batch_enc_def)
    have ch: "chain ?base ?pre" using less.prems(5) stepped exp by (simp add: chain_append)
    have exp': "sc_expect ?st = chain_end ?base ?pre"
      using batch_wf_next_offset [OF stepped(2)] stepped(3) exp
      by (simp add: scan_next_def chain_end_def add.assoc)
    have pos': "unat (sc_pos ?st) = length (log_bytes ?pre)"
      using scan_next_pos [OF pos _ stepped(2) c32] less.prems(4) stepped(1) by simp
    have run': "scan ops sg file_size ?st d1 = (res, d')" using run stepped(7) by simp
    have file1: "fs_file (view d1) (sg_log_file sg) = Some c" using less.prems(2) stepped(5) by simp
    have "length rest' < length rest" using stepped(1) by simp
    note IH = less.hyps [OF this stepped(4) file1 less.prems(3) c' ch pos' exp' run']
    have parse: "pre @ parse_batches (sc_expect st) rest = ?pre @ parse_batches (sc_expect ?st) rest'"
      using parse_batches_Cons [OF stepped(2,3), of rest'] stepped(1) by (simp add: scan_next_def)
    have "length (log_bytes pre) < 4294967296" using c32 less.prems(4) by simp
    then have rel: "?base + ucast (ucast (bh_base_offset h - ?base) :: u32) = sc_expect st"
      using rel_offset_exact [of pre ?base] exp stepped(3) by simp
    have "boundary ?base (?pre @ cs) (unat (sc_pos st)) (sc_expect st)" for cs
      using boundary_append [OF boundary_end, of ?base pre "(h, vs) # cs"] pos exp by simp
    then have "hints_hold ?base (?pre @ cs) (sc_index st) \<Longrightarrow> hints_hold ?base (?pre @ cs) (sc_index ?st)" for cs
      by (simp add: scan_next_def hints_hold_maybe_add rel)
    moreover have "index_ok (sc_index st) \<Longrightarrow> index_ok (sc_index ?st)"
      by (simp add: scan_next_def maybe_add_ok)
    moreover have "\<forall>e \<in> set (sc_index st). file_pos e < file_size \<Longrightarrow>
        \<forall>e \<in> set (sc_index ?st). file_pos e < file_size"
      using stepped(6) maybe_add_set by (fastforce simp: scan_next_def)
    ultimately show ?thesis
      using IH stepped(5) unfolding parse by (auto simp: Let_def simp del: append_assoc)
  qed
qed

lemma load_index_run:
  assumes "valid d" and "0 < fs_ids (view d)" and "load_index ops path file_size [] d = (idx, d')"
  shows "valid d' \<and> (\<exists>n. view d' = (view d)\<lparr>fs_ids := n\<rparr>) \<and>
         (idx = [] \<or> (\<exists>s. fs_files (view d) (canon path) = Some s \<and> idx = SparseIndex_decode s file_size))"
proof -
  obtain fr d1 where fr: "dk_open ops path kRead d = (fr, d1)" by force
  show ?thesis
  proof (cases fr)
    case (Inl e)
    then have "idx = []" "d' = d1" using assms(3) fr by (simp_all add: load_index_def)
    then show ?thesis
      using open_fail [OF assms(1) fr [unfolded Inl]] by (auto intro!: exI [of _ "fs_ids (view d)"])
  next
    case (Inr f)
    have o: "valid d1" "fs_handles (view d) f = None" "view d1 = fs_open (canon path) kRead f (view d)"
      and ex: "fs_files (view d) (canon path) \<noteq> None"
      using open_ok [OF assms(1,2) fr [unfolded Inr]] by auto
    then obtain s where s: "fs_files (view d) (canon path) = Some s" by blast
    have file1: "fs_file (view d1) f = Some s" using s by (simp add: o fs_open_def fs_file_def)
    have closed: "fs_close f (view d1) = (view d)\<lparr>fs_ids := fs_ids (view d) - 1\<rparr>"
      using o ex by (simp add: fs_close_def fs_open_def fun_upd_idem)
    obtain sr d2 where sr: "dk_size ops f d1 = (sr, d2)" by force
    have d2: "valid d2" "view d2 = view d1" using size_view [OF o(1) sr] by auto
    show ?thesis
    proof (cases "\<exists>n. sr = Inr n \<and> n > 0")
      case False
      then have "idx = []" "d' = dk_close ops f d2"
        using assms(3) fr Inr sr by (auto simp: load_index_def split: sum.splits if_splits)
      then show ?thesis using close [OF d2(1), of f] d2(2) closed by auto
    next
      case True
      then obtain n where n: "sr = Inr n" "n > 0" by blast
      obtain pr d3 where pr: "dk_pread ops f (unat n) 0 d2 = (pr, d3)" by force
      have len: "unat n = length s"
        using size_ok [OF o(1) sr [unfolded n(1)]] file1 by auto
      have d': "d' = dk_close ops f d3" and idx: "idx = (case pr of Inl e \<Rightarrow> [] | Inr bs \<Rightarrow> SparseIndex_decode bs file_size)"
        using assms(3) fr Inr sr n pr by (auto simp: load_index_def split: sum.splits)
      have "valid d3 \<and> view d3 = view d2 \<and> (idx = [] \<or> idx = SparseIndex_decode s file_size)"
      proof (cases pr)
        case (Inl e)
        then show ?thesis using pread_fail [OF d2(1) pr [unfolded Inl]] idx by simp
      next
        case (Inr bs)
        have "valid d3" "view d3 = view d2" "bs = s"
          using pread_ok [OF d2(1) pr [unfolded Inr]] file1 d2(2) len by auto
        then show ?thesis using idx Inr by simp
      qed
      then show ?thesis
        using s d' close [of d3 f] d2(2) closed by auto
    qed
  qed
qed

lemma pick_start_run:
  assumes "valid d" and "fs_file (view d) (sg_log_file sg) = Some c"
    and "pick_start ops sg idx d = ((start, idx'), d')"
  shows "valid d' \<and> view d' = view d \<and> (\<exists>k. idx' = take k idx) \<and>
         (case start of None \<Rightarrow> idx' = []
          | Some e \<Rightarrow> idx' \<noteq> [] \<and> e = last idx' \<and> looks_like c (sg_base_offset sg) e)"
  using assms
proof (induction "length idx" arbitrary: idx d rule: less_induct)
  case less
  show ?case
  proof (cases "idx = []")
    case True
    then show ?thesis using less.prems by (subst (asm) pick_start.simps) auto
  next
    case False
    let ?e = "last idx" and ?idx = "SparseIndex_truncate_from (file_pos (last idx)) idx"
    obtain hr d1 where hr: "header_at ops sg (file_pos ?e) d = (hr, d1)" by force
    note h1 = header_at_run [OF less.prems(1,2) hr]
    have file1: "fs_file (view d1) (sg_log_file sg) = Some c" using h1 less.prems(2) by simp
    show ?thesis
    proof (cases "\<exists>h. hr = Inr (Some h) \<and> bh_base_offset h = sg_base_offset sg + ucast (rel_offset ?e)")
      case True
      then obtain h where h: "hr = Inr (Some h)" "bh_base_offset h = sg_base_offset sg + ucast (rel_offset ?e)"
        by blast
      then have "pick_start ops sg idx d = ((Some ?e, idx), d1)"
        using False hr by (subst pick_start.simps) simp
      then have "start = Some ?e" "idx' = idx" "d' = d1"
        using less.prems(3) by simp_all
      moreover have "looks_like c (sg_base_offset sg) ?e"
        using h h1 by (auto simp: looks_like_def split: sum.splits)
      ultimately show ?thesis using h1 False by (auto intro: exI [of _ "length idx"])
    next
      case no: False
      then have "pick_start ops sg idx d = pick_start ops sg ?idx d1"
        using False hr by (subst pick_start.simps) (auto simp: Let_def split: sum.split option.split)
      then have "pick_start ops sg ?idx d1 = ((start, idx'), d')"
        using less.prems(3) by simp
      from less.hyps [OF truncate_from_shorter [OF False] _ file1 this] h1
      have IH: "valid d'" "view d' = view d1" "\<exists>k. idx' = take k ?idx"
        "case start of None \<Rightarrow> idx' = []
          | Some e \<Rightarrow> idx' \<noteq> [] \<and> e = last idx' \<and> looks_like c (sg_base_offset sg) e" by auto
      then have "\<exists>k. idx' = take k idx" by (auto simp: SparseIndex_truncate_from_def)
      with IH h1 show ?thesis by simp
    qed
  qed
qed

lemma recover_finish_ok:
  assumes "valid d" and "fs_handles (view d) (sg_log_file sg) = Some (p, m)" and "m \<noteq> kRead"
    and "fs_files (view d) p = Some c" and "c = log_bytes bs @ tail" and "chain (sg_base_offset sg) bs"
    and "unat fsz = length c" and "fsz \<le> so_max_bytes (sg_options sg)"
    and "unat (sc_pos st) = length (log_bytes bs)" and "sc_expect st = chain_end (sg_base_offset sg) bs"
    and "index_ok (sc_index st)"
    and "\<forall>e \<in> set (sc_index st). file_pos e < fsz"
    and "recover_finish ops sg fsz st d = (Inr u, sg', d')"
  shows "valid d' \<and> seg_holds sg' (view d') bs \<and>
         (hints_hold (sg_base_offset sg) bs (sc_index st) \<longrightarrow> hints_hold (sg_base_offset sg) bs (sg_index sg')) \<and>
         fs_handles (view d') = fs_handles (view d) \<and>
         fs_files (view d') = (fs_files (view d))(p \<mapsto> log_bytes bs) \<and>
         sg_base_offset sg' = sg_base_offset sg \<and> sg_options sg' = sg_options sg \<and>
         sg_log_file sg' = sg_log_file sg \<and> sg_index_path sg' = sg_index_path sg"
proof -
  let ?f = "sg_log_file sg" and ?sc = "dk_truncate ops (sg_log_file sg) (ucast (sc_pos st)) d"
  have file0: "fs_file (view d) ?f = Some c" using assms(2,4) by (simp add: fs_file_def)
  have max: "sc_pos st \<le> so_max_bytes (sg_options sg)"
    using assms(5,7-9) by (simp add: word_le_nat_alt)
  have sg': "sg_size_bytes sg' = sc_pos st" "sg_next_offset sg' = sc_expect st"
    "sg_base_offset sg' = sg_base_offset sg" "sg_options sg' = sg_options sg" "sg_log_file sg' = ?f"
    "sg_index_path sg' = sg_index_path sg"
    using assms(13) by (auto simp: recover_finish_def Let_def split: if_splits prod.splits sum.splits)
  show ?thesis
  proof (cases "sc_pos st < fsz")
    case True
    then obtain d1 where tr: "?sc = (Inr (), d1)"
      using assms(13) by (cases ?sc; cases "fst ?sc") (auto simp: recover_finish_def Let_def)
    have idx: "sg_index sg' = SparseIndex_truncate_from (sc_pos st) (sc_index st)" "d' = d1"
      using assms(13) True tr by (auto simp: recover_finish_def Let_def)
    have d1: "valid d1" "view d1 = fs_put ?f (log_bytes bs) (view d)"
      using truncate_ok [OF assms(1) tr] file0 assms(5,9) by (auto simp: resize_shorter)
    have "hints_hold (sg_base_offset sg) bs (sc_index st) \<Longrightarrow> hints_hold (sg_base_offset sg) bs (sg_index sg')"
      using hints_hold_truncate [of "sg_base_offset sg" bs "[]"] assms(9,11) by (simp add: idx)
    moreover have "\<forall>e \<in> set (sg_index sg'). file_pos e < sc_pos st"
      using assms(11) by (simp add: idx truncate_from_filter)
    ultimately show ?thesis
      using d1 sg' idx max assms(2-4,6,9-11) truncate_from_ok
      by (auto simp: seg_holds_def fs_put_def fs_file_def)
  next
    case False
    then have all: "log_bytes bs = c" using assms(5,7,9) by (auto simp: word_less_nat_alt)
    have "sc_pos st = fsz" using all assms(7,9) by (metis word_of_unat)
    moreover have "sg_index sg' = sc_index st" "d' = d"
      using assms(13) False by (auto simp: recover_finish_def Let_def)
    moreover have "fs_files (view d) = (fs_files (view d))(p \<mapsto> log_bytes bs)"
      using assms(4) all by (simp add: fun_upd_idem)
    ultimately show ?thesis
      using assms(1-4,6,9-12) all sg' max by (auto simp: seg_holds_def fs_file_def)
  qed
qed

lemma recover_run:
  assumes "valid d" and "0 < fs_ids (view d)"
    and "fs_handles (view d) (sg_log_file sg) = Some (p, m)" and "m \<noteq> kRead"
    and "fs_files (view d) p = Some c" and "sg_index sg = []"
    and "\<And>s. fs_files (view d) (canon (sg_index_path sg)) = Some s \<Longrightarrow>
           hints_checked (sg_base_offset sg) c (SparseIndex_decode s (of_nat (length c)))"
    and "Segment_recover ops sg d = (Inr u, sg', d')"
  shows "valid d' \<and> seg_holds sg' (view d') (parse_batches (sg_base_offset sg) c) \<and>
         ((\<forall>s. fs_files (view d) (canon (sg_index_path sg)) = Some s \<longrightarrow>
              hints_honest (sg_base_offset sg) c (SparseIndex_decode s (of_nat (length c)))) \<longrightarrow>
          seg_inv sg' (view d') (parse_batches (sg_base_offset sg) c)) \<and>
         fs_handles (view d') = fs_handles (view d) \<and>
         fs_files (view d') = (fs_files (view d))(p \<mapsto> log_bytes (parse_batches (sg_base_offset sg) c)) \<and>
         sg_base_offset sg' = sg_base_offset sg \<and> sg_options sg' = sg_options sg \<and>
         sg_log_file sg' = sg_log_file sg \<and> sg_index_path sg' = sg_index_path sg \<and>
         length c \<le> unat (so_max_bytes (sg_options sg))"
proof -
  let ?base = "sg_base_offset sg" and ?f = "sg_log_file sg" and ?bs = "parse_batches (sg_base_offset sg) c"
  have file0: "fs_file (view d) ?f = Some c" using assms(3,5) by (simp add: fs_file_def)
  obtain sz d1 where sz: "dk_size ops ?f d = (Inr sz, d1)"
    using assms(8) by (cases "dk_size ops ?f d"; cases "fst (dk_size ops ?f d)") (auto simp: Segment_recover_def)
  have d1: "valid d1" "view d1 = view d" using size_view [OF assms(1) sz] by simp_all
  have len: "unat sz = length c" using size_ok [OF assms(1) sz] file0 by simp
  have small: "\<not> sz > ucast (so_max_bytes (sg_options sg))"
    using assms(8) sz by (auto simp: Segment_recover_def split: if_splits)
  then have bound: "length c \<le> unat (so_max_bytes (sg_options sg))"
    using len by (simp add: word_less_nat_alt)
  then have c32: "length c < 4294967296"
    using unat_u32_bound [of "so_max_bytes (sg_options sg)"] by (simp del: unat_u32_bound)
  define fsz where "fsz = (ucast sz :: u32)"
  have fsz: "fsz = of_nat (length c)" "unat fsz = length c"
    using c32 word_of_unat [OF len] by (simp_all add: fsz_def unsigned_of_nat take_bit_nat_eq_self unat_of_nat_u32)
  obtain idx0 d2 where li: "load_index ops (sg_index_path sg) fsz [] d1 = (idx0, d2)" by force
  obtain n where d2: "valid d2" "view d2 = (view d)\<lparr>fs_ids := n\<rparr>"
    and idx0: "idx0 = [] \<or> (\<exists>s. fs_files (view d) (canon (sg_index_path sg)) = Some s \<and> idx0 = SparseIndex_decode s fsz)"
    using load_index_run [OF d1(1) _ li] d1(2) assms(2) by auto
  have below0: "\<forall>e \<in> set idx0. file_pos e < fsz" using idx0 decode_bounded by auto
  have ok0: "index_ok idx0" and checked0: "hints_checked ?base c idx0"
    using idx0 assms(7) fsz(1) decode_ok by (auto simp: hints_checked_def)
  define honest where "honest \<longleftrightarrow> (\<forall>s. fs_files (view d) (canon (sg_index_path sg)) = Some s \<longrightarrow>
              hints_honest ?base c (SparseIndex_decode s (of_nat (length c))))"
  have honest0: "hints_honest ?base c idx0" if honest
    using idx0 that fsz(1) by (auto simp: hints_honest_def honest_def)
  obtain start idx d3 where ps: "pick_start ops sg idx0 d2 = ((start, idx), d3)" by (metis prod_cases3 prod.collapse)
  have file2: "fs_file (view d2) ?f = Some c" using assms(3,5) by (simp add: d2 fs_file_def)
  obtain k where d3: "valid d3" "view d3 = view d2" and k: "idx = take k idx0"
    and start: "case start of None \<Rightarrow> idx = [] | Some e \<Rightarrow> idx \<noteq> [] \<and> e = last idx \<and> looks_like c ?base e"
    using pick_start_run [OF d2(1) file2 ps] by blast
  obtain pre rest where c: "c = log_bytes pre @ rest" and ch: "chain ?base pre"
    and pos0: "unat (sc_pos (scan_start sg start idx)) = length (log_bytes pre)"
    and exp0: "sc_expect (scan_start sg start idx) = chain_end ?base pre"
    and bs: "pre @ parse_batches (chain_end ?base pre) rest = ?bs"
    using scan_start_split [OF _ start] hints_checked_take [OF checked0, of k] k by metis
  have hold: "hints_hold ?base ?bs idx" if honest
    using picked_hints_hold [OF honest0 [OF that] ok0] start k by metis
  define sg1 where "sg1 = sg\<lparr>sg_index := idx,
    sg_recovery := (sg_recovery sg)\<lparr>rr_index_was_usable := start \<noteq> None\<rparr>\<rparr>"
  obtain sr d4 where sc: "scan ops sg1 fsz (scan_start sg start idx) d3 = (sr, d4)" by force
  have fields: "sg_base_offset sg1 = ?base" "sg_log_file sg1 = ?f" by (simp_all add: sg1_def)
  have file3: "fs_file (view d3) (sg_log_file sg1) = Some c" using file2 d3 by (simp add: fields)
  note sr = scan_run [OF d3(1) file3 fsz(2) c _ pos0 _ sc, unfolded fields, OF ch exp0, unfolded exp0 bs Let_def]
  have idx_ok: "index_ok (sc_index (scan_start sg start idx))" "sc_index (scan_start sg start idx) = idx"
    using ok0 k by (simp_all add: scan_start_def index_ok_take split: option.split)
  have run: "(case sr of Inl e \<Rightarrow> (fail e, sg1, d4)
      | Inr st \<Rightarrow> recover_finish ops sg1 fsz st d4) = (Inr u, sg', d')"
    using assms(8) sz small li ps sc
    by (cases sr) (simp_all add: Segment_recover_def assms(6) fsz_def [symmetric] sg1_def Let_def)
  then obtain st where st: "sr = Inr st" and fin: "recover_finish ops sg1 fsz st d4 = (Inr u, sg', d')"
    by (cases sr) simp_all
  have d4: "valid d4" "view d4 = view d2" using sr d3(2) by simp_all
  have res: "unat (sc_pos st) = length (log_bytes ?bs)" "sc_expect st = chain_end ?base ?bs"
    "index_ok (sc_index st)" "honest \<Longrightarrow> hints_hold ?base ?bs (sc_index st)"
    "\<forall>e \<in> set (sc_index st). file_pos e < fsz"
    using sr st idx_ok hold below0 k by (auto dest: in_set_takeD)
  obtain tail where tail: "c = log_bytes ?bs @ tail" and ch: "chain ?base ?bs"
    using parse_batches_chain [of ?base c] by blast
  have view4: "fs_handles (view d4) = fs_handles (view d)" "fs_files (view d4) = fs_files (view d)"
    using d4 d2 by simp_all
  have "fs_handles (view d4) (sg_log_file sg1) = Some (p, m)" "fs_files (view d4) p = Some c"
    "fsz \<le> so_max_bytes (sg_options sg1)"
    using assms(3,5) view4 bound fsz by (simp_all add: fields sg1_def word_le_nat_alt)
  from recover_finish_ok [OF d4(1) this(1) assms(4) this(2) tail _ fsz(2) this(3) res(1) _ res(3) res(5) fin]
  show ?thesis unfolding seg_inv_holds honest_def [symmetric] using ch res(2,4) view4 bound by (auto simp: sg1_def)
qed

end

end
