(* ===== verification/Segment_Ops.thy ===== *)
theory Segment_Ops
  imports Segment_Recovery
begin

text \<open>
  The operations of an open segment on any disk that meets the contract: an append extends the
  chain in the file by one batch, a read returns whole batches from the one that contains the
  wanted offset, a truncation cuts the chain at a batch boundary, a header walk sees every
  header in order. The walks return on every file that holds a chain.
\<close>

section \<open>Offsets along a chain\<close>

text \<open>The offsets of the chain stay below the end of the 64-bit range.\<close>

definition no_wrap :: "u64 \<Rightarrow> batch list \<Rightarrow> bool" where
  "no_wrap start bs \<longleftrightarrow> unat start + nrecs bs < 18446744073709551616"

lemma no_wrap_append: "no_wrap start (ps @ qs) \<Longrightarrow> no_wrap start ps"
  by (simp add: no_wrap_def)

lemma unat_chain_end: "no_wrap start bs \<Longrightarrow> unat (chain_end start bs) = unat start + nrecs bs"
proof -
  assume "no_wrap start bs"
  then have lt: "unat start + nrecs bs < 18446744073709551616" by (simp add: no_wrap_def)
  then have "unat (of_nat (nrecs bs) :: u64) = nrecs bs" by (simp add: unat_of_nat_u64)
  then show ?thesis using lt unat_add_u64 [of start "of_nat (nrecs bs)"] by (simp add: chain_end_def)
qed

lemma chain_end_mono:
  "no_wrap start (ps @ qs) \<Longrightarrow> chain_end start ps \<le> chain_end start (ps @ qs)"
  using unat_chain_end [of start ps] unat_chain_end [of start "ps @ qs"] no_wrap_append
  by (simp add: word_le_nat_alt)

lemma chain_next_offset:
  assumes "chain start (ps @ b # qs)"
  shows "next_offset (fst b) = chain_end start (ps @ [b])" and "bh_base_offset (fst b) = chain_end start ps"
proof -
  have "batch_wf (fst b) (snd b)" and base: "bh_base_offset (fst b) = chain_end start ps"
    using assms by (cases b; simp add: chain_append)+
  from batch_wf_next_offset [OF this(1)] base
  show "next_offset (fst b) = chain_end start (ps @ [b])" by (simp add: chain_end_def add.assoc)
  show "bh_base_offset (fst b) = chain_end start ps" by (rule base)
qed

lemma chain_next_le:
  assumes "chain start bs" and "bs = ps @ qs" and "no_wrap start bs" and "b \<in> set ps"
  shows "next_offset (fst b) \<le> chain_end start ps"
proof -
  obtain us ws where ps: "ps = us @ b # ws" using split_list [OF assms(4)] by blast
  have "next_offset (fst b) = chain_end start (us @ [b])"
    using chain_next_offset(1) [of start us b "ws @ qs"] assms(1,2) ps by simp
  moreover have "chain_end start (us @ [b]) \<le> chain_end start ((us @ [b]) @ ws)"
    using assms(2,3) ps by (intro chain_end_mono) (simp add: no_wrap_def)
  ultimately show ?thesis by (simp add: ps)
qed

lemma decode_chain_head:
  assumes "chain start (b # qs)"
  shows "decode_header (log_bytes (b # qs) @ tail) = Inr (fst b)"
  using assms batch_wf_decode [of "fst b" "snd b" "log_bytes qs @ tail"]
  by (cases b) (simp add: batch_enc_def)

section \<open>The position of a batch\<close>

lemma position_step:
  assumes "unat pos = length (log_bytes ps)" and "batch_wf (fst b) (snd b)"
    and "length (log_bytes (ps @ [b])) < 4294967296"
  shows "unat (pos + of_nat (total_bytes (fst b)) :: u32) = length (log_bytes (ps @ [b]))"
proof -
  have "total_bytes (fst b) = length (batch_enc b)" using assms(2) by (rule total_bytes_enc)
  then show ?thesis
    using assms unat_add_u32 [of pos "of_nat (total_bytes (fst b))"] by (simp add: unat_of_nat_u32)
qed

text \<open>The loop of \<^verbatim>\<open>read\<close> over what it fetched keeps exactly the batches that are whole.\<close>

lemma subslice_rest: "subslice (xs @ ys) (length xs) (Some (length (xs @ ys) - length xs)) = ys"
  by simp

lemma whole_batches_chain:
  "chain start (ps @ qs) \<Longrightarrow>
   whole_batches (log_bytes ps @ take n (log_bytes qs)) (length (log_bytes ps)) =
     Inr (length (log_bytes (ps @ whole_within n qs)))"
proof (induction qs arbitrary: ps n)
  case Nil
  then show ?case by (subst whole_batches.simps) (simp add: consts_of)
next
  case (Cons b qs)
  let ?got = "log_bytes ps @ take n (log_bytes (b # qs))"
  have ch: "chain (chain_end start ps) (b # qs)" using Cons.prems by (simp add: chain_append)
  have wf: "batch_wf (fst b) (snd b)" using chain_batch_wf [OF ch] by simp
  have t: "total_bytes (fst b) = length (batch_enc b)" using wf by (rule total_bytes_enc)
  have cand: "subslice ?got (length (log_bytes ps)) (Some (length ?got - length (log_bytes ps)))
      = take n (log_bytes (b # qs))" by (rule subslice_rest)
  show ?case
  proof (cases "length (batch_enc b) \<le> n")
    case True
    have dec: "decode_header (take n (log_bytes (b # qs))) = Inr (fst b)"
      using True batch_wf_decode [OF wf, of "take (n - length (batch_enc b)) (log_bytes qs)"]
      by (simp add: batch_enc_def)
    have val: "validate_batch (take n (log_bytes (b # qs))) = Inr ()"
      using True validate_complete [OF wf, of "take (n - length (batch_enc b)) (log_bytes qs)"]
      by (simp add: batch_enc_def)
    have "52 \<le> length (batch_enc b)" using length_batch_enc [of b] by linarith
    then have "whole_batches ?got (length (log_bytes ps)) =
        whole_batches ?got (length (log_bytes ps) + length (batch_enc b))"
      using True dec val cand t
      by (subst whole_batches.simps) (simp add: consts_of result_ok_def Let_def)
    also have "?got = log_bytes (ps @ [b]) @ take (n - length (batch_enc b)) (log_bytes qs)"
      using True by simp
    also have "length (log_bytes ps) + length (batch_enc b) = length (log_bytes (ps @ [b]))" by simp
    also have "whole_batches (log_bytes (ps @ [b]) @ take (n - length (batch_enc b)) (log_bytes qs))
        (length (log_bytes (ps @ [b]))) =
        Inr (length (log_bytes ((ps @ [b]) @ whole_within (n - length (batch_enc b)) qs)))"
      using Cons.prems by (intro Cons.IH) simp
    finally show ?thesis using True by simp
  next
    case False
    have "whole_batches ?got (length (log_bytes ps)) = Inr (length (log_bytes ps))"
    proof (cases "52 \<le> n")
      case True
      have "decode_header (take n (log_bytes (b # qs))) = decode_header (log_bytes (b # qs))"
        using True by (rule decode_header_take)
      also have "\<dots> = Inr (fst b)" using decode_chain_head [OF ch, of "[]"] by simp
      finally show ?thesis
        using False True t cand by (subst whole_batches.simps) (simp add: consts_of Let_def)
    next
      case short: False
      have "length ?got \<le> length (log_bytes ps) + n" by (simp del: log_bytes_simps)
      then have "\<not> length (log_bytes ps) + kBatchHeaderBytes \<le> length ?got"
        using short unfolding kBatchHeaderBytes_def by linarith
      then show ?thesis by (subst whole_batches.simps) (simp del: log_bytes_simps)
    qed
    with False show ?thesis by simp
  qed
qed

text \<open>Where the walk of \<^verbatim>\<open>read\<close> ends: the first batch from here that reaches past the target.\<close>

definition batch_at :: "u64 \<Rightarrow> batch list \<Rightarrow> batch list" where
  "batch_at want qs = dropWhile (\<lambda>b. next_offset (fst b) \<le> want) qs"

lemma whole_within_le: "length (log_bytes (whole_within n bs)) \<le> n"
  by (induction n bs rule: whole_within.induct) auto

lemma batch_at_suffix: "\<exists>us. qs = us @ batch_at want qs"
  unfolding batch_at_def by (metis takeWhile_dropWhile_id)

lemma batch_at_skip:
  assumes "chain start (ps @ qs)" and "no_wrap start (ps @ qs)" and "chain_end start ps \<le> want"
  shows "batch_at want (ps @ qs) = batch_at want qs"
proof -
  have "next_offset (fst b) \<le> want" if "b \<in> set ps" for b
    using chain_next_le [OF assms(1) refl assms(2) that] assms(3) by (rule order_trans)
  then show ?thesis unfolding batch_at_def by (intro dropWhile_append2) simp
qed

lemma batch_at_end:
  assumes "chain start bs" and "no_wrap start bs"
  shows "batch_at want bs = [] \<longleftrightarrow> chain_end start bs \<le> want \<or> bs = []"
proof (cases bs rule: rev_cases)
  case (snoc us b)
  then have last: "next_offset (fst b) = chain_end start bs"
    using chain_next_offset(1) [of start us b "[]"] assms(1) by simp
  have "next_offset (fst c) \<le> chain_end start bs" if "c \<in> set bs" for c
    using chain_next_le [of start bs bs "[]"] assms that by simp
  then show ?thesis
    unfolding batch_at_def dropWhile_eq_Nil_conv using snoc last by (auto intro: order_trans)
qed (simp add: batch_at_def)

text \<open>
  A wanted offset below the chain is taken to be its start: every batch reaches past either.
\<close>

lemma batch_at_below:
  assumes "chain start bs" and "no_wrap start bs" and "want \<le> start"
  shows "batch_at want bs = bs"
proof (cases bs)
  case (Cons b qs)
  then have "next_offset (fst b) = chain_end start [b]" "batch_wf (fst b) (snd b)"
    using chain_next_offset(1) [of start "[]" b qs] chain_batch_wf [of start bs b] assms(1) by simp_all
  moreover have "unat (chain_end start [b]) = unat start + length (snd b)"
    using assms(2) Cons unat_chain_end [of start "[b]"] by (simp add: no_wrap_def)
  moreover have "1 \<le> length (snd b)" using calculation(2) by (cases "snd b") (simp_all add: batch_wf_def)
  ultimately have "want < next_offset (fst b)"
    using assms(3) by (simp add: word_less_nat_alt word_le_nat_alt)
  then show ?thesis using Cons by (simp add: batch_at_def)
qed (simp add: batch_at_def)

text \<open>
  What a read with a buffer of \<open>n\<close> bytes gives when the batches from the wanted one on are \<open>ws\<close>.
\<close>

definition read_spec :: "nat \<Rightarrow> batch list \<Rightarrow> bytes result" where
  "read_spec n ws =
     (case ws of
        [] \<Rightarrow> Inr []
      | b # _ \<Rightarrow> if n < length (batch_enc b) then fail kMessageTooLarge
                else Inr (log_bytes (whole_within n ws)))"

lemma whole_within_all: "length (log_bytes bs) \<le> n \<Longrightarrow> whole_within n bs = bs"
  using whole_within_append [of bs n "[]"] by simp

lemma whole_batches_front:
  assumes "chain start ws" and "n = min (length (log_bytes ws)) k"
  shows "whole_batches (take n (log_bytes ws)) 0 = Inr (length (log_bytes (whole_within k ws)))"
    and "take (length (log_bytes (whole_within k ws))) (take n (log_bytes ws)) = log_bytes (whole_within k ws)"
proof -
  have t: "take n (log_bytes ws) = take k (log_bytes ws)" using assms(2) by (simp add: min_def)
  show "whole_batches (take n (log_bytes ws)) 0 = Inr (length (log_bytes (whole_within k ws)))"
    using whole_batches_chain [of start "[]" ws k] assms(1) t by simp
  obtain ds where ds: "ws = whole_within k ws @ ds" using whole_within_prefix by blast
  have le: "length (log_bytes (whole_within k ws)) \<le> k" by (rule whole_within_le)
  have "take (length (log_bytes (whole_within k ws))) (log_bytes ws) = log_bytes (whole_within k ws)"
    by (subst (2) ds) (simp only: log_bytes_simps append_eq_conv_conj take_append, simp)
  then show "take (length (log_bytes (whole_within k ws))) (take n (log_bytes ws)) = log_bytes (whole_within k ws)"
    using le unfolding t by (simp add: min_def)
qed

text \<open>What a visitor ends up with after the headers \<open>hs\<close>, stopping where it says so.\<close>

fun visit_headers :: "('s \<Rightarrow> BatchHeader \<Rightarrow> 's \<times> bool) \<Rightarrow> 's \<Rightarrow> BatchHeader list \<Rightarrow> 's" where
  "visit_headers visit s [] = s"
| "visit_headers visit s (h # hs) =
     (case visit s h of (s, go_on) \<Rightarrow> if go_on then visit_headers visit s hs else s)"

text \<open>Some batch of the chain begins at the offset.\<close>

definition starts_at :: "batch list \<Rightarrow> u64 \<Rightarrow> bool" where
  "starts_at bs offset \<longleftrightarrow> (\<exists>b \<in> set bs. bh_base_offset (fst b) = offset)"

lemma starts_at_iff:
  assumes "chain start bs"
  shows "starts_at bs offset \<longleftrightarrow> (\<exists>us b ws. bs = us @ b # ws \<and> chain_end start us = offset)"
proof
  assume "starts_at bs offset"
  then obtain b where b: "b \<in> set bs" "bh_base_offset (fst b) = offset" unfolding starts_at_def by blast
  obtain us ws where bs: "bs = us @ b # ws" using split_list [OF b(1)] by blast
  moreover have "chain_end start us = offset"
    using chain_next_offset(2) [of start us b ws] assms b(2) bs by simp
  ultimately show "\<exists>us b ws. bs = us @ b # ws \<and> chain_end start us = offset" by blast
next
  assume "\<exists>us b ws. bs = us @ b # ws \<and> chain_end start us = offset"
  then obtain us b ws where bs: "bs = us @ b # ws" and "chain_end start us = offset" by blast
  then have "bh_base_offset (fst b) = offset" "b \<in> set bs"
    using chain_next_offset(2) [of start us b ws] assms by simp_all
  then show "starts_at bs offset" unfolding starts_at_def by blast
qed

lemma chain_starts_mono:
  assumes "chain start (ps @ qs)" and "no_wrap start (ps @ qs)" and "b \<in> set qs"
  shows "chain_end start ps \<le> bh_base_offset (fst b)"
proof -
  obtain us ws where qs: "qs = us @ b # ws" using split_list [OF assms(3)] by blast
  have "bh_base_offset (fst b) = chain_end start (ps @ us)"
    using chain_next_offset(2) [of start "ps @ us" b ws] assms(1) qs by simp
  then show ?thesis
    using chain_end_mono [of start ps us] assms(2) qs by (simp add: no_wrap_def)
qed

lemma starts_before:
  assumes "chain start (ps @ qs)" and "no_wrap start (ps @ qs)" and "b \<in> set ps"
  shows "bh_base_offset (fst b) < chain_end start ps"
proof -
  obtain us ws where ps: "ps = us @ b # ws" using split_list [OF assms(3)] by blast
  have "bh_base_offset (fst b) = chain_end start us"
    using chain_next_offset(2) [of start us b "ws @ qs"] assms(1) ps by simp
  moreover have "snd b \<noteq> []"
    using chain_batch_wf [OF assms(1), of b] ps by (simp add: batch_wf_def)
  moreover have "unat (chain_end start us) = unat start + nrecs us" "unat (chain_end start ps) = unat start + nrecs ps"
    using assms(2) ps by (simp_all add: unat_chain_end no_wrap_def)
  ultimately show ?thesis unfolding word_less_nat_alt by (simp add: ps)
qed

text \<open>What no operation on an open segment changes.\<close>

definition same_identity :: "Segment \<Rightarrow> Segment \<Rightarrow> bool" where
  "same_identity sg sg' \<longleftrightarrow>
     sg_base_offset sg' = sg_base_offset sg \<and> sg_options sg' = sg_options sg \<and>
     sg_log_file sg' = sg_log_file sg \<and> sg_index_path sg' = sg_index_path sg"

text \<open>The errors a read of file \<open>f\<close> may give in the states \<open>P\<close>.\<close>

definition pread_error :: "'d disk_ops \<Rightarrow> ('d \<Rightarrow> bool) \<Rightarrow> FileId \<Rightarrow> ErrorCode \<Rightarrow> bool" where
  "pread_error ops P f e \<longleftrightarrow> (\<exists>d n off d'. P d \<and> dk_pread ops f n off d = (Inl e, d'))"

definition disk_error :: "'d disk_ops \<Rightarrow> ('d \<Rightarrow> bool) \<Rightarrow> FileId \<Rightarrow> nat \<Rightarrow> ErrorCode \<Rightarrow> bool" where
  "disk_error ops P f n e \<longleftrightarrow>
     pread_error ops P f e \<or>
     (\<exists>d sz d'. P d \<and> unat sz \<le> n \<and> dk_truncate ops f sz d = (Inl e, d'))"

context disk
begin

lemma append_ok:
  assumes "valid d" and "seg_inv sg (view d) bs" and "batch_wf h vs"
    and "Segment_append ops (batch_bytes h vs) h sg d = (Inr u, sg', d')"
  shows "valid d' \<and> seg_inv sg' (view d') (bs @ [(h, vs)]) \<and>
         view d' = fs_put (sg_log_file sg) (log_bytes (bs @ [(h, vs)])) (view d) \<and>
         same_identity sg sg' \<and> sg_next_offset sg' = next_offset h"
proof -
  let ?b = "batch_bytes h vs" and ?f = "sg_log_file sg" and ?base = "sg_base_offset sg"
  have inv: "fs_file (view d) ?f = Some (log_bytes bs)" "chain ?base bs"
    "unat (sg_size_bytes sg) = length (log_bytes bs)" "sg_size_bytes sg \<le> so_max_bytes (sg_options sg)"
    "sg_next_offset sg = chain_end ?base bs" "index_ok (sg_index sg)" "hints_hold ?base bs (sg_index sg)"
    "\<forall>e \<in> set (sg_index sg). file_pos e < sg_size_bytes sg"
    using assms(2) by (simp_all add: seg_inv_def)
  obtain p m where pm: "fs_handles (view d) ?f = Some (p, m)" "m \<noteq> kRead"
    using assms(2) by (auto simp: seg_inv_def)
  have off: "bh_base_offset h = sg_next_offset sg"
    and room: "length ?b \<le> unat (so_max_bytes (sg_options sg) - sg_size_bytes sg)"
    using assms(4) by (auto simp: Segment_append_def split: if_splits)
  obtain w d1 where pw: "dk_pwrite ops ?f ?b (ucast (sg_size_bytes sg)) d = (Inr w, d1)"
    using assms(4) off room
    by (cases "dk_pwrite ops ?f ?b (ucast (sg_size_bytes sg)) d";
        cases "fst (dk_pwrite ops ?f ?b (ucast (sg_size_bytes sg)) d)") (auto simp: Segment_append_def)
  have d1: "valid d1" "view d1 = fs_put ?f (log_bytes bs @ ?b) (view d)" "w = length ?b"
    using pwrite_ok [OF assms(1) pw] inv(1,3) by auto
  have sg': "sg' = sg\<lparr>sg_index := SparseIndex_maybe_add (ucast (bh_base_offset h - ?base)) (sg_size_bytes sg)
        (so_index_interval_bytes (sg_options sg)) (sg_index sg),
      sg_size_bytes := sg_size_bytes sg + of_nat (length ?b), sg_next_offset := next_offset h\<rparr>" "d' = d1"
    using assms(4) off room pw d1(3) by (simp_all add: Segment_append_def)
  have sum: "length (log_bytes bs) + length ?b \<le> unat (so_max_bytes (sg_options sg))"
    using room inv(3,4) by (simp add: unat_diff_word word_le_nat_alt del: length_batch_bytes)
  then have lt: "length (log_bytes bs) + length ?b < 4294967296"
    using unat_u32_bound [of "so_max_bytes (sg_options sg)"] by (simp del: unat_u32_bound length_batch_bytes)
  then have size': "unat (sg_size_bytes sg') = length (log_bytes (bs @ [(h, vs)]))"
    using unat_add_u32 [of "sg_size_bytes sg" "of_nat (length ?b)"] inv(3)
    by (simp add: sg' batch_enc_def unat_of_nat_u32 del: length_batch_bytes)
  have ch: "chain ?base (bs @ [(h, vs)])"
    using inv(2,5) off assms(3) by (simp add: chain_append)
  have rel: "?base + ucast (ucast (bh_base_offset h - ?base) :: u32) = chain_end ?base bs"
    using rel_offset_exact [of bs ?base] lt off inv(5) by simp
  have bd: "boundary ?base (bs @ [(h, vs)]) (unat (sg_size_bytes sg)) (chain_end ?base bs)"
    using boundary_append [OF boundary_end] by (simp add: inv(3))
  have hold: "hints_hold ?base (bs @ [(h, vs)]) (sg_index sg')"
    using hints_hold_maybe_add [OF hints_hold_append [OF inv(7), of "[(h, vs)]"]] bd rel by (simp add: sg')
  have grown: "sg_size_bytes sg < sg_size_bytes sg'"
    using size' inv(3) by (simp add: word_less_nat_alt batch_enc_def)
  have below: "\<forall>e \<in> set (sg_index sg'). file_pos e < sg_size_bytes sg'"
    using maybe_add_set inv(8) grown by (fastforce simp: sg'(1))
  have "next_offset h = chain_end ?base (bs @ [(h, vs)])"
    using batch_wf_next_offset [OF assms(3)] off inv(5) by (simp add: chain_end_def add.assoc)
  then show ?thesis
    using d1 pm ch size' sum hold below inv(6) maybe_add_ok
    by (auto simp: seg_inv_def sg' fs_put_def fs_file_def batch_enc_def word_le_nat_alt same_identity_def)
qed

lemma append_fail:
  assumes "valid d" and "Segment_append ops framed h sg d = (Inl e, sg', d')"
  shows "valid d' \<and> sg' = sg \<and>
         (view d' = view d \<or> e = kIoError)"
  using assms pwrite_ok [OF assms(1)] pwrite_fail [OF assms(1)]
  by (auto simp: Segment_append_def split: if_splits prod.splits sum.splits)

text \<open>
  One turn of the three walks. At a boundary inside the chain the header read there, if the disk
  answers, is the header of the batch that begins at the boundary.
\<close>

lemma walk_header:
  assumes "valid d" and "seg_inv sg (view d) (ps @ b # qs)" and "unat pos = length (log_bytes ps)"
    and "header_at ops sg pos d = (hr, d1)"
  shows "valid d1 \<and> view d1 = view d \<and> pos < sg_size_bytes sg \<and>
         (hr = Inr (Some (fst b)) \<or>
          (\<exists>e. hr = Inl e \<and> pread_error ops (\<lambda>x. valid x \<and> view x = view d) (sg_log_file sg) e))"
proof -
  have held: "fs_file (view d) (sg_log_file sg) = Some (log_bytes (ps @ b # qs))"
    and ch: "chain (chain_end (sg_base_offset sg) ps) (b # qs)"
    and size: "unat (sg_size_bytes sg) = length (log_bytes (ps @ b # qs))"
    using assms(2) by (simp_all add: seg_inv_def chain_append)
  have "drop (unat pos) (log_bytes (ps @ b # qs)) = log_bytes (b # qs)" using assms(3) by simp
  then have "decode_header (drop (unat pos) (log_bytes (ps @ b # qs))) = Inr (fst b)"
    using decode_chain_head [OF ch, of "[]"] by simp
  moreover have "pos < sg_size_bytes sg"
    using size assms(3) batch_enc_nonempty [of b] by (simp add: word_less_nat_alt)
  moreover have "pread_error ops (\<lambda>x. valid x \<and> view x = view d) (sg_log_file sg) e" if "hr = Inl e" for e
    using that assms(1,4) unfolding header_at_def pread_error_def
    by (fastforce split: prod.splits sum.splits if_splits)
  ultimately show ?thesis using header_at_run [OF assms(1) held assms(4)] by (cases hr) auto
qed

lemma walk_end:
  assumes "seg_inv sg v bs" and "unat pos = length (log_bytes bs)"
  shows "\<not> pos < sg_size_bytes sg"
  using assms by (simp add: seg_inv_def word_less_nat_alt)

lemma walk_step:
  assumes "seg_inv sg v (ps @ b # qs)" and "unat pos = length (log_bytes ps)"
  shows "unat (pos + of_nat (total_bytes (fst b)) :: u32) = length (log_bytes (ps @ [b]))"
proof (rule position_step [OF assms(2)])
  show "batch_wf (fst b) (snd b)"
    using assms(1) chain_batch_wf [of "sg_base_offset sg" "ps @ b # qs" b] by (simp add: seg_inv_def)
  have "unat (sg_size_bytes sg) = length (log_bytes ((ps @ [b]) @ qs))"
    using assms(1) by (simp add: seg_inv_def)
  then show "length (log_bytes (ps @ [b])) < 4294967296"
    using unat_u32_bound [of "sg_size_bytes sg"] by (simp del: unat_u32_bound)
qed

lemma find_batch_run:
  assumes "valid d" and "seg_inv sg (view d) (ps @ qs)" and "unat pos = length (log_bytes ps)"
  shows "\<exists>res d'. find_batch ops sg want pos d = Some (res, d') \<and> valid d' \<and> view d' = view d \<and>
           (case res of
              Inl e \<Rightarrow> pread_error ops (\<lambda>x. valid x \<and> view x = view d) (sg_log_file sg) e
            | Inr (pos', t) \<Rightarrow>
                unat pos' + length (log_bytes (batch_at want qs)) = length (log_bytes (ps @ qs)) \<and>
                t = (case batch_at want qs of [] \<Rightarrow> 0 | b # _ \<Rightarrow> length (batch_enc b)))"
  using assms
proof (induction qs arbitrary: ps pos d)
  case Nil
  then have "\<not> pos < sg_size_bytes sg" using walk_end by auto
  then have "find_batch ops sg want pos d = Some (Inr (pos, 0), d)" by (subst find_batch.simps) simp
  then show ?case using Nil by (simp add: batch_at_def)
next
  case (Cons b qs)
  obtain hr d1 where hr: "header_at ops sg pos d = (hr, d1)" by force
  note w = walk_header [OF Cons.prems(1,2,3) hr]
  have t: "total_bytes (fst b) = length (batch_enc b)"
    using Cons.prems(2) chain_batch_wf [of "sg_base_offset sg" "ps @ b # qs" b] by (simp add: seg_inv_def total_bytes_enc)
  from w consider e where "hr = Inl e" "pread_error ops (\<lambda>x. valid x \<and> view x = view d) (sg_log_file sg) e"
    | "hr = Inr (Some (fst b))" by blast
  then show ?case
  proof cases
    case 1
    have "find_batch ops sg want pos d = Some (Inl e, d1)"
      using hr w 1 by (subst find_batch.simps) simp
    then show ?thesis using w 1 by simp
  next
    case 2
    show ?thesis
    proof (cases "next_offset (fst b) > want")
      case True
      then have "find_batch ops sg want pos d = Some (Inr (pos, length (batch_enc b)), d1)"
        using hr w 2 t by (subst find_batch.simps) simp
      then show ?thesis using w True Cons.prems(3) by (auto simp: batch_at_def)
    next
      case False
      have step: "find_batch ops sg want pos d = find_batch ops sg want (pos + of_nat (total_bytes (fst b))) d1"
        using hr w 2 False by (subst find_batch.simps) simp
      have at: "batch_at want (b # qs) = batch_at want qs" "ps @ b # qs = (ps @ [b]) @ qs"
        using False by (simp_all add: batch_at_def)
      have vd: "view d1 = view d" and "valid d1" "seg_inv sg (view d1) ((ps @ [b]) @ qs)"
        using Cons.prems(2) w by simp_all
      then show ?thesis
        using Cons.IH [OF _ _ walk_step [OF Cons.prems(2,3)], of d1]
        unfolding step at vd by simp
    qed
  qed
qed

lemma lookup_start:
  assumes "seg_inv sg v bs" and "no_wrap (sg_base_offset sg) bs" and "sg_base_offset sg \<le> want"
    and "pos = file_pos (SparseIndex_lookup (ucast (want - sg_base_offset sg)) (sg_index sg))"
    and "want \<le> chain_end (sg_base_offset sg) bs"
  obtains ps qs where "bs = ps @ qs" and "unat pos = length (log_bytes ps)"
    and "chain_end (sg_base_offset sg) ps \<le> want"
proof -
  let ?base = "sg_base_offset sg" and ?rel = "ucast (want - sg_base_offset sg) :: u32"
  let ?e = "SparseIndex_lookup ?rel (sg_index sg)"
  have inv: "index_ok (sg_index sg)" "hints_hold ?base bs (sg_index sg)" "unat (sg_size_bytes sg) = length (log_bytes bs)"
    using assms(1) by (simp_all add: seg_inv_def)
  from lookup_member [OF inv(1), of ?rel] show thesis
  proof
    assume "?e = \<lparr>rel_offset = 0, file_pos = 0\<rparr>"
    then show thesis using that [of "[]" bs] assms(3,4) by simp
  next
    assume e: "?e \<in> set (sg_index sg) \<and> rel_offset ?e \<le> ?rel"
    then obtain ps qs where bs: "bs = ps @ qs" "unat (file_pos ?e) = length (log_bytes ps)"
      and off: "?base + ucast (rel_offset ?e) = chain_end ?base ps"
      using inv(2) by (auto simp: hints_hold_def boundary_def)
    have "nrecs bs < 4294967296"
      using nrecs_bytes [of bs] inv(3) unat_u32_bound [of "sg_size_bytes sg"] by (simp del: unat_u32_bound)
    moreover have end_off: "unat (chain_end ?base bs) = unat ?base + nrecs bs" using assms(2) by (rule unat_chain_end)
    ultimately have wb: "unat (want - ?base) < 4294967296"
      using assms(3,5) by (simp add: unat_diff_word word_le_nat_alt)
    have "unat ?rel = unat (want - ?base)"
      using wb by (simp add: unsigned_ucast_eq take_bit_nat_eq_self)
    then have "unat (rel_offset ?e) \<le> unat want - unat ?base"
      using e assms(3) by (simp add: word_le_nat_alt unat_diff_word)
    moreover have "unat ?base \<le> unat want" "unat want < 18446744073709551616"
      using assms(3) by (simp_all add: word_le_nat_alt)
    ultimately have "?base + ucast (rel_offset ?e) \<le> want"
      using unat_add_u64 [of ?base "ucast (rel_offset ?e)"] by (simp add: word_le_nat_alt del: unat_u64_bound)
    then show thesis using that [OF bs(1)] bs(2) off assms(4) by simp
  qed
qed

lemma read_found_run:
  assumes "valid d" and "seg_inv sg (view d) (us @ ws)" and "unat pos = length (log_bytes us)"
    and "t = (case ws of [] \<Rightarrow> 0 | b # _ \<Rightarrow> length (batch_enc b))"
    and "read_found ops sg n pos t d = (res, d')"
  shows "valid d' \<and> view d' = view d \<and>
         (res = read_spec n ws \<or>
          (\<exists>e. res = Inl e \<and> pread_error ops (\<lambda>x. valid x \<and> view x = view d) (sg_log_file sg) e))"
proof (cases "ws = [] \<or> n < t")
  case True
  have size: "unat (sg_size_bytes sg) = length (log_bytes us) + length (log_bytes ws)"
    using assms(2) by (simp add: seg_inv_def)
  then have "sg_size_bytes sg \<le> pos \<longleftrightarrow> ws = []"
    using assms(3) batch_enc_nonempty by (cases ws) (simp_all add: word_le_nat_alt)
  then show ?thesis
    using True assms(1,4,5) by (cases ws) (auto simp: read_found_def read_spec_def split: if_splits)
next
  case False
  let ?m = "min (length (log_bytes ws)) n"
  have size: "unat (sg_size_bytes sg) = length (log_bytes (us @ ws))"
    and ch: "chain (chain_end (sg_base_offset sg) us) ws"
    and held: "fs_file (view d) (sg_log_file sg) = Some (log_bytes (us @ ws))"
    using assms(2) by (simp_all add: seg_inv_def chain_append)
  have avail: "unat (sg_size_bytes sg - pos) = length (log_bytes ws)" and lt: "\<not> sg_size_bytes sg \<le> pos"
    using False size assms(3) batch_enc_nonempty
    by (simp_all add: unat_diff_word word_le_nat_alt) (cases ws; simp)
  have spec: "read_spec n ws = Inr (log_bytes (whole_within n ws))"
    using False assms(4) by (cases ws) (auto simp: read_spec_def)
  obtain g d1 where g: "dk_pread ops (sg_log_file sg) ?m (ucast pos) d = (g, d1)" by force
  have found: "(res, d') = (case (g, d1) of (Inl e, d) \<Rightarrow> (fail e, d)
      | (Inr got, d) \<Rightarrow> (case whole_batches got 0 of Inl e \<Rightarrow> (fail e, d) | Inr whole \<Rightarrow> (Inr (take whole got), d)))"
    using False lt avail g assms(5) by (simp add: read_found_def min_def Let_def split: if_splits)
  show ?thesis
  proof (cases g)
    case (Inl e)
    then show ?thesis
      using found g pread_fail [OF assms(1) g [unfolded Inl]] assms(1) unfolding pread_error_def by auto
  next
    case (Inr got)
    have "got = take ?m (log_bytes ws)" "valid d1" "view d1 = view d"
      using pread_ok [OF assms(1) g [unfolded Inr]] held assms(3) by auto
    then show ?thesis using found Inr spec whole_batches_front [OF ch refl, of n] by simp
  qed
qed

lemma read_run:
  assumes "valid d" and "seg_inv sg (view d) bs" and "no_wrap (sg_base_offset sg) bs"
  shows "\<exists>res d'. Segment_read ops sg offset n d = Some (res, d') \<and> valid d' \<and> view d' = view d \<and>
           (res = read_spec n (batch_at offset bs) \<or>
            (\<exists>e. res = Inl e \<and> pread_error ops (\<lambda>x. valid x \<and> view x = view d) (sg_log_file sg) e))"
proof (cases "offset \<ge> sg_next_offset sg")
  case True
  have "chain (sg_base_offset sg) bs" "sg_next_offset sg = chain_end (sg_base_offset sg) bs"
    using assms(2) by (simp_all add: seg_inv_def)
  then have "batch_at offset bs = []" using True assms(3) batch_at_end by simp
  then show ?thesis using True assms(1) by (simp add: Segment_read_def read_spec_def)
next
  case False
  let ?base = "sg_base_offset sg" and ?f = "sg_log_file sg"
  let ?P = "\<lambda>x. valid x \<and> view x = view d"
  define want where "want = (if offset < ?base then ?base else offset)"
  define pos0 where "pos0 = file_pos (SparseIndex_lookup (ucast (want - ?base)) (sg_index sg))"
  have ch: "chain ?base bs" and nx: "sg_next_offset sg = chain_end ?base bs"
    using assms(2) by (simp_all add: seg_inv_def)
  have want: "?base \<le> want" "want \<le> chain_end ?base bs"
    using False nx chain_end_mono [of ?base "[]" bs] assms(3) by (auto simp: want_def not_le)
  obtain ps qs where bs: "bs = ps @ qs" "unat pos0 = length (log_bytes ps)" "chain_end ?base ps \<le> want"
    using lookup_start [OF assms(2,3) want(1) pos0_def want(2)] .
  define ws where "ws = batch_at want qs"
  have at: "batch_at offset bs = ws"
    using batch_at_below [OF ch assms(3), of offset] batch_at_below [OF ch assms(3), of ?base]
      batch_at_skip [of ?base ps qs want] ch assms(3) bs
    by (cases "offset < ?base") (simp_all add: want_def ws_def)
  obtain us where us: "bs = us @ ws"
    using batch_at_suffix [of qs want] bs by (metis append_assoc ws_def)
  obtain r d1 where fb: "find_batch ops sg want pos0 d = Some (r, d1)" and d1: "valid d1" "view d1 = view d"
    and r: "case r of Inl e \<Rightarrow> pread_error ops ?P ?f e
            | Inr (pos', t) \<Rightarrow> unat pos' + length (log_bytes ws) = length (log_bytes bs) \<and>
                t = (case ws of [] \<Rightarrow> 0 | b # _ \<Rightarrow> length (batch_enc b))"
    using find_batch_run [OF assms(1) _ bs(2), of sg qs want] assms(2) unfolding bs(1) ws_def by blast
  have rd: "Segment_read ops sg offset n d = (case (r, d1) of (Inl e, d) \<Rightarrow> Some (fail e, d)
      | (Inr (pos, first_total), d) \<Rightarrow> Some (read_found ops sg n pos first_total d))"
    using False fb by (simp add: Segment_read_def Let_def want_def pos0_def)
  show ?thesis
  proof (cases r)
    case (Inl e)
    then show ?thesis using rd d1 r by auto
  next
    case (Inr x)
    obtain pos t where x: "x = (pos, t)" by force
    obtain res d' where res: "read_found ops sg n pos t d1 = (res, d')" by force
    have "unat pos = length (log_bytes us)" "t = (case ws of [] \<Rightarrow> 0 | b # _ \<Rightarrow> length (batch_enc b))"
      "seg_inv sg (view d1) (us @ ws)"
      using r us Inr x assms(2) d1 by simp_all
    from read_found_run [OF d1(1) this(3,1,2) res] show ?thesis
      using rd Inr x res d1(2) at by simp
  qed
qed

lemma scan_headers_from_run:
  assumes "valid d" and "seg_inv sg (view d) (ps @ qs)" and "unat pos = length (log_bytes ps)"
  shows "\<exists>st s' d'. scan_headers_from ops sg visit pos s d = Some (st, s', d') \<and> valid d' \<and> view d' = view d \<and>
           ((st = Inr () \<and> s' = visit_headers visit s (map fst qs)) \<or>
            (\<exists>e. st = Inl e \<and> pread_error ops (\<lambda>x. valid x \<and> view x = view d) (sg_log_file sg) e))"
  using assms
proof (induction qs arbitrary: ps pos s d)
  case Nil
  then have "\<not> pos < sg_size_bytes sg" using walk_end by auto
  then show ?case using Nil by (subst scan_headers_from.simps) simp
next
  case (Cons b qs)
  obtain hr d1 where hr: "header_at ops sg pos d = (hr, d1)" by force
  note w = walk_header [OF Cons.prems(1,2,3) hr]
  obtain s1 go_on where v: "visit s (fst b) = (s1, go_on)" by force
  from w consider e where "hr = Inl e" "pread_error ops (\<lambda>x. valid x \<and> view x = view d) (sg_log_file sg) e"
    | "hr = Inr (Some (fst b))" "\<not> go_on" | "hr = Inr (Some (fst b))" "go_on" by blast
  then show ?case
  proof cases
    case 3
    have step: "scan_headers_from ops sg visit pos s d =
        scan_headers_from ops sg visit (pos + of_nat (total_bytes (fst b))) s1 d1"
      using hr w 3 v by (subst scan_headers_from.simps) simp
    have vd: "view d1 = view d" and "valid d1" "seg_inv sg (view d1) ((ps @ [b]) @ qs)"
      using Cons.prems(2) w by simp_all
    then show ?thesis
      using Cons.IH [OF _ _ walk_step [OF Cons.prems(2,3)], of d1 s1] v 3
      unfolding step vd by simp
  next
    case 1
    then have "scan_headers_from ops sg visit pos s d = Some (Inl e, s, d1)"
      using hr w by (subst scan_headers_from.simps) simp
    then show ?thesis using w 1 by simp
  next
    case 2
    then have "scan_headers_from ops sg visit pos s d = Some (Inr (), s1, d1)"
      using hr w v by (subst scan_headers_from.simps) simp
    then show ?thesis using w 2 v by simp
  qed
qed

lemma scan_headers_run:
  assumes "valid d" and "seg_inv sg (view d) bs"
  shows "\<exists>st s' d'. Segment_scan_headers ops sg visit s d = Some (st, s', d') \<and> valid d' \<and> view d' = view d \<and>
           ((st = Inr () \<and> s' = visit_headers visit s (map fst bs)) \<or>
            (\<exists>e. st = Inl e \<and> pread_error ops (\<lambda>x. valid x \<and> view x = view d) (sg_log_file sg) e))"
  using scan_headers_from_run [of d sg "[]" bs 0 visit s] assms by (simp add: Segment_scan_headers_def)

lemma find_boundary_run:
  assumes "valid d" and "seg_inv sg (view d) (ps @ qs)" and "unat pos = length (log_bytes ps)"
    and "no_wrap (sg_base_offset sg) (ps @ qs)"
  shows "\<exists>res d'. find_boundary ops sg offset pos d = Some (res, d') \<and> valid d' \<and> view d' = view d \<and>
           (case res of
              Inl e \<Rightarrow> (e = kInvalidArgument \<and> \<not> starts_at qs offset) \<or>
                       pread_error ops (\<lambda>x. valid x \<and> view x = view d) (sg_log_file sg) e
            | Inr None \<Rightarrow> \<not> starts_at qs offset
            | Inr (Some pos') \<Rightarrow>
                (\<exists>us b ws. ps @ qs = us @ b # ws \<and> chain_end (sg_base_offset sg) us = offset \<and>
                           unat pos' = length (log_bytes us)))"
  using assms
proof (induction qs arbitrary: ps pos d)
  case Nil
  then have "\<not> pos < sg_size_bytes sg" using walk_end by auto
  then have "find_boundary ops sg offset pos d = Some (Inr None, d)" by (subst find_boundary.simps) simp
  then show ?case using Nil by (simp add: starts_at_def)
next
  case (Cons b qs)
  obtain hr d1 where hr: "header_at ops sg pos d = (hr, d1)" by force
  note w = walk_header [OF Cons.prems(1,2,3) hr]
  have ch: "chain (sg_base_offset sg) (ps @ b # qs)" using Cons.prems(2) by (simp add: seg_inv_def)
  note b = chain_next_offset(2) [OF ch]
  from w less_linear [of "bh_base_offset (fst b)" offset]
  consider e where "hr = Inl e" "pread_error ops (\<lambda>x. valid x \<and> view x = view d) (sg_log_file sg) e"
    | "hr = Inr (Some (fst b))" "bh_base_offset (fst b) = offset"
    | "hr = Inr (Some (fst b))" "bh_base_offset (fst b) > offset"
    | "hr = Inr (Some (fst b))" "bh_base_offset (fst b) < offset" by blast
  then show ?case
  proof cases
    case 1
    have "find_boundary ops sg offset pos d = Some (Inl e, d1)"
      using hr w 1 by (subst find_boundary.simps) simp
    then show ?thesis using w 1 by simp
  next
    case 2
    have "find_boundary ops sg offset pos d = Some (Inr (Some pos), d1)"
      using hr w 2 by (subst find_boundary.simps) simp
    moreover have "\<exists>us b' ws. ps @ b # qs = us @ b' # ws \<and> chain_end (sg_base_offset sg) us = offset \<and>
        unat pos = length (log_bytes us)"
      using 2 b Cons.prems(3) by (intro exI [of _ ps] exI [of _ b] exI [of _ qs]) simp
    ultimately show ?thesis using w by simp
  next
    case 3
    have fb: "find_boundary ops sg offset pos d = Some (Inl kInvalidArgument, d1)"
      using hr w 3(1) order_less_imp_not_eq2 [OF 3(2)] 3(2) by (subst find_boundary.simps) simp
    have "offset < bh_base_offset (fst c)" if "c \<in> set (b # qs)" for c
      using chain_starts_mono [OF ch Cons.prems(4) that] 3 b by simp
    then have "\<not> starts_at (b # qs) offset" unfolding starts_at_def by (metis order_less_irrefl)
    then show ?thesis using fb w by simp
  next
    case 4
    then have ne: "bh_base_offset (fst b) \<noteq> offset" "\<not> offset < bh_base_offset (fst b)" by auto
    have step: "find_boundary ops sg offset pos d = find_boundary ops sg offset (pos + of_nat (total_bytes (fst b))) d1"
      using hr w 4(1) ne by (subst find_boundary.simps) simp
    have eq: "starts_at (b # qs) offset = starts_at qs offset" "ps @ b # qs = (ps @ [b]) @ qs"
      using ne by (simp_all add: starts_at_def)
    have vd: "view d1 = view d" and d1: "valid d1" and inv: "seg_inv sg (view d1) ((ps @ [b]) @ qs)"
      and nw: "no_wrap (sg_base_offset sg) ((ps @ [b]) @ qs)"
      using Cons.prems(2,4) w by simp_all
    show ?thesis
      unfolding step eq by (rule Cons.IH [OF d1 inv walk_step [OF Cons.prems(2,3)] nw, unfolded vd])
  qed
qed

lemma cut_inv:
  assumes "valid d" and "seg_inv sg (view d) (us @ ws)" and "unat pos = length (log_bytes us)"
    and "dk_truncate ops (sg_log_file sg) (ucast pos) d = (Inr u, d')"
    and "sg' = sg\<lparr>sg_size_bytes := pos, sg_next_offset := chain_end (sg_base_offset sg) us,
                   sg_index := SparseIndex_truncate_from pos (sg_index sg)\<rparr>"
  shows "valid d' \<and> view d' = fs_put (sg_log_file sg) (log_bytes us) (view d) \<and> seg_inv sg' (view d') us"
proof -
  let ?base = "sg_base_offset sg"
  have inv: "fs_file (view d) (sg_log_file sg) = Some (log_bytes (us @ ws))" "chain ?base us"
    "unat (sg_size_bytes sg) = length (log_bytes (us @ ws))"
    "sg_size_bytes sg \<le> so_max_bytes (sg_options sg)"
    "index_ok (sg_index sg)" "hints_hold ?base (us @ ws) (sg_index sg)"
    using assms(2) by (simp_all add: seg_inv_def chain_append)
  have d': "valid d'" "view d' = fs_put (sg_log_file sg) (log_bytes us) (view d)"
    using truncate_ok [OF assms(1,4)] inv(1) assms(3) by (auto simp: resize_def)
  have "pos \<le> sg_size_bytes sg" using inv(3) assms(3) by (simp add: word_le_nat_alt)
  then have "pos \<le> so_max_bytes (sg_options sg)" using inv(4) by simp
  moreover have "index_ok (SparseIndex_truncate_from pos (sg_index sg))"
    "\<forall>e \<in> set (SparseIndex_truncate_from pos (sg_index sg)). file_pos e < pos"
    using inv(5) by (simp_all add: truncate_from_filter index_ok_def sorted_wrt_filter)
  moreover have "hints_hold ?base us (SparseIndex_truncate_from pos (sg_index sg))"
    using hints_hold_truncate [OF inv(6,5) assms(3)] .
  moreover have "fs_file (view d') (sg_log_file sg) = Some (log_bytes us)"
    unfolding d' using inv(1) by (rule fs_file_put)
  moreover have "\<exists>p m. fs_handles (view d') (sg_log_file sg) = Some (p, m) \<and> m \<noteq> kRead"
    using assms(2) by (simp add: d' seg_inv_def)
  ultimately show ?thesis using d' inv(2) assms(3,5) by (simp add: seg_inv_def)
qed

lemma boundary_found:
  assumes "valid d" and "seg_inv sg (view d) bs" and "no_wrap (sg_base_offset sg) bs"
    and "sg_base_offset sg \<le> offset" and "offset < chain_end (sg_base_offset sg) bs"
    and "pos = (if offset > sg_base_offset sg
                then file_pos (SparseIndex_lookup (ucast (offset - sg_base_offset sg)) (sg_index sg)) else 0)"
  shows "\<exists>r d'. (if offset \<le> sg_base_offset sg then Some (Inr (Some pos), d) else find_boundary ops sg offset pos d)
            = Some (r, d') \<and> valid d' \<and> view d' = view d \<and>
          (case r of
             Inl e \<Rightarrow> (e = kInvalidArgument \<and> \<not> starts_at bs offset) \<or>
                      pread_error ops (\<lambda>x. valid x \<and> view x = view d) (sg_log_file sg) e
           | Inr None \<Rightarrow> \<not> starts_at bs offset
           | Inr (Some p) \<Rightarrow> (\<exists>us b ws. bs = us @ b # ws \<and> chain_end (sg_base_offset sg) us = offset \<and>
                                       unat p = length (log_bytes us)))"
proof (cases "offset \<le> sg_base_offset sg")
  case True
  then have off: "offset = sg_base_offset sg" using assms(4) by simp
  then obtain b ws where "bs = b # ws" using assms(5) by (cases bs) simp_all
  then have "\<exists>us b ws. bs = us @ b # ws \<and> chain_end (sg_base_offset sg) us = offset \<and> unat pos = length (log_bytes us)"
    using off assms(6) by (intro exI [of _ "[]"] exI [of _ b] exI [of _ ws]) simp
  then show ?thesis using True assms(1) by simp
next
  case False
  let ?base = "sg_base_offset sg"
  have ch: "chain ?base bs" using assms(2) by (simp add: seg_inv_def)
  have pos: "pos = file_pos (SparseIndex_lookup (ucast (offset - ?base)) (sg_index sg))"
    using False assms(6) by (simp add: not_le)
  obtain ps qs where bs: "bs = ps @ qs" "unat pos = length (log_bytes ps)" "chain_end ?base ps \<le> offset"
    using lookup_start [OF assms(2,3,4) pos less_imp_le [OF assms(5)]] .
  have skip: "bh_base_offset (fst b) < offset" if "b \<in> set ps" for b
    using starts_before [of ?base ps qs b] ch assms(3) bs that by simp
  have same: "starts_at bs offset = starts_at qs offset"
    unfolding starts_at_def bs(1) using skip by (metis Un_iff order_less_irrefl set_append)
  have inv: "seg_inv sg (view d) (ps @ qs)" "no_wrap ?base (ps @ qs)" using assms(2,3) bs(1) by simp_all
  show ?thesis
    unfolding same using find_boundary_run [OF assms(1) inv(1) bs(2) inv(2), of offset] False
    unfolding bs(1) by simp
qed

text \<open>
  A truncation returns on every open segment. It cuts the chain where a batch begins at the
  offset; without such a batch it refuses and changes nothing.
\<close>

lemma truncate_run:
  assumes "valid d" and "seg_inv sg (view d) bs" and "no_wrap (sg_base_offset sg) bs"
    and "sg_base_offset sg \<le> offset" and "offset < chain_end (sg_base_offset sg) bs"
  shows "\<exists>st sg' d'. Segment_truncate_to ops offset sg d = Some (st, sg', d') \<and> valid d' \<and>
           (case st of
              Inr _ \<Rightarrow> (\<exists>us ws. bs = us @ ws \<and> chain_end (sg_base_offset sg) us = offset \<and> starts_at bs offset \<and>
                         view d' = fs_put (sg_log_file sg) (log_bytes us) (view d) \<and> seg_inv sg' (view d') us \<and>
                         same_identity sg sg')
            | Inl e \<Rightarrow> sg' = sg \<and> view d' = view d \<and>
                (if starts_at bs offset
                 then disk_error ops (\<lambda>x. valid x \<and> view x = view d) (sg_log_file sg) (length (log_bytes bs)) e
                 else e = kInvalidArgument \<or>
                      pread_error ops (\<lambda>x. valid x \<and> view x = view d) (sg_log_file sg) e))"
proof -
  let ?base = "sg_base_offset sg" and ?f = "sg_log_file sg"
  let ?P = "\<lambda>x. valid x \<and> view x = view d"
  have ch: "chain ?base bs" and nx: "sg_next_offset sg = chain_end ?base bs"
    using assms(2) by (simp_all add: seg_inv_def)
  define pos0 where "pos0 = (if offset > ?base
      then file_pos (SparseIndex_lookup (ucast (offset - ?base)) (sg_index sg)) else 0)"
  obtain r d1 where found: "(if offset \<le> ?base then Some (Inr (Some pos0), d) else find_boundary ops sg offset pos0 d)
        = Some (r, d1)"
    and d1: "valid d1" "view d1 = view d"
    and r: "case r of Inl e \<Rightarrow> (e = kInvalidArgument \<and> \<not> starts_at bs offset) \<or> pread_error ops ?P ?f e
            | Inr None \<Rightarrow> \<not> starts_at bs offset
            | Inr (Some p) \<Rightarrow> (\<exists>us b ws. bs = us @ b # ws \<and> chain_end ?base us = offset \<and> unat p = length (log_bytes us))"
    using boundary_found [OF assms(1-5) pos0_def] by blast
  have run: "Segment_truncate_to ops offset sg d = (case (r, d1) of
      (Inl e, d) \<Rightarrow> Some (fail e, sg, d) | (Inr None, d) \<Rightarrow> Some (fail kInvalidArgument, sg, d)
    | (Inr (Some p), d) \<Rightarrow> Some (cut_at ops offset p sg d))"
    unfolding Segment_truncate_to_def pos0_def [symmetric] Let_def found
    using assms(5) nx by (simp add: not_le [symmetric] split: sum.splits option.splits)
  show ?thesis
  proof (cases r)
    case (Inl e)
    then show ?thesis using run r d1 by (auto simp: disk_error_def)
  next
    case (Inr x)
    show ?thesis
    proof (cases x)
      case None
      then show ?thesis using run r d1 Inr by simp
    next
      case (Some p)
      obtain us b ws where bs: "bs = us @ b # ws" and off: "chain_end ?base us = offset" and p: "unat p = length (log_bytes us)"
        using r Inr Some by auto
      have st: "starts_at bs offset" using starts_at_iff [OF ch] bs off by blast
      have run: "Segment_truncate_to ops offset sg d = Some (cut_at ops offset p sg d1)"
        using run Inr Some by simp
      obtain t d2 where t: "dk_truncate ops ?f (ucast p) d1 = (t, d2)" by force
      show ?thesis
      proof (cases t)
        case inl: (Inl e)
        have "disk_error ops ?P ?f (length (log_bytes bs)) e"
          unfolding disk_error_def using t inl d1 p bs
          by (intro disjI2 exI [of _ d1] exI [of _ "ucast p"] exI [of _ d2]) simp
        then show ?thesis
          using run st t inl truncate_fail [OF d1(1) t [unfolded inl]] d1 by (simp add: cut_at_def)
      next
        case inr: (Inr u)
        have cut: "cut_at ops offset p sg d1 = (Inr (), sg\<lparr>sg_size_bytes := p, sg_next_offset := offset,
            sg_index := SparseIndex_truncate_from p (sg_index sg)\<rparr>, d2)"
          using t inr by (simp add: cut_at_def)
        have "seg_inv sg (view d1) (us @ b # ws)" using assms(2) d1 bs by simp
        from cut_inv [OF d1(1) this p t [unfolded inr] refl]
        show ?thesis unfolding run cut using st bs off d1 by (auto simp: same_identity_def)
      qed
    qed
  qed
qed

end

end
