(* ===== verification/Segment_Names.thy ===== *)
theory Segment_Names
  imports Segment
begin

text \<open>
  The names of segment files: twenty zero-padded digits. A name parses back to the offset it was
  made from, and the order of names is the order of offsets, which is why sorting a directory
  listing is enough to recover the segments in the order they were written.
\<close>

fun decimal :: "nat \<Rightarrow> nat \<Rightarrow> string" where
  "decimal 0 n = []"
| "decimal (Suc i) n = decimal i (n div 10) @ [char_of (48 + n mod 10)]"

lemma length_decimal [simp]: "length (decimal i n) = i"
  by (induction i arbitrary: n) simp_all

lemma decimal_zero: "decimal i 0 = replicate i (CHR ''0'')"
proof (induction i)
  case (Suc i)
  have "(of_char (CHR ''0'') :: nat) = 48" by simp
  then have "char_of (48 :: nat) = CHR ''0''" by (metis char_of_char)
  with Suc show ?case by (simp add: replicate_append_same)
qed simp

lemma digit_eq: "digit v = char_of (48 + unat v)"
  by (simp add: digit_def)

lemma write_digits_decimal:
  "unat v < 10 ^ i \<Longrightarrow> write_digits i v (replicate i (CHR ''0'') @ rest) = decimal i (unat v) @ rest"
proof (induction i arbitrary: v rest)
  case (Suc i)
  show ?case
  proof (cases "v > 0")
    case True
    have snoc: "replicate (Suc i) (CHR ''0'') = replicate i (CHR ''0'') @ [CHR ''0'']"
      by (simp add: replicate_append_same)
    have "(replicate (Suc i) (CHR ''0'') @ rest)[i := digit (v mod 10)] =
        replicate i (CHR ''0'') @ digit (v mod 10) # rest"
      unfolding snoc by (simp add: list_update_append)
    moreover have "unat (v div 10) < 10 ^ i"
      using Suc.prems by (simp add: unat_div div_less_iff_less_mult mult.commute)
    ultimately show ?thesis
      using True Suc.IH [of "v div 10" "digit (v mod 10) # rest"]
      by (simp add: digit_eq unat_div unat_mod del: replicate.simps)
  next
    case False
    then have "v = 0" by (simp add: word_gt_0)
    then show ?thesis by (simp add: decimal_zero [of "Suc i"] del: decimal.simps replicate.simps)
  qed
qed simp

lemma of_char_digit: "n < 10 \<Longrightarrow> of_char (char_of (48 + n)) = 48 + (n :: nat)"
  by (simp add: of_char_of)

lemma digit_char_range:
  "n < 10 \<Longrightarrow> \<not> char_of (48 + n :: nat) < CHR ''0'' \<and> \<not> CHR ''9'' < char_of (48 + n)"
  by (simp add: less_char_def of_char_digit)

lemma parse_digits_decimal:
  "n < 10 ^ i \<Longrightarrow> parse_digits (decimal i n @ cs) v = parse_digits cs (v * 10 ^ i + of_nat n)"
proof (induction i arbitrary: n cs v)
  case (Suc i)
  let ?d = "n mod 10"
  have step: "parse_digits (char_of (48 + ?d) # cs) w = parse_digits cs (w * 10 + of_nat ?d)" for w
    using digit_char_range [of ?d] of_char_digit [of ?d] by simp
  have "n div 10 < 10 ^ i" using Suc.prems by (simp add: div_less_iff_less_mult mult.commute)
  then have "parse_digits (decimal (Suc i) n @ cs) v =
      parse_digits cs ((v * 10 ^ i + of_nat (n div 10)) * 10 + of_nat ?d)"
    using Suc.IH [of "n div 10" "char_of (48 + ?d) # cs" v] step by (simp del: parse_digits.simps)
  also have "(v * 10 ^ i + of_nat (n div 10)) * 10 + of_nat ?d = v * 10 ^ Suc i + of_nat (n div 10 * 10 + ?d)"
    by (simp only: of_nat_add of_nat_mult) (simp add: algebra_simps)
  also have "n div 10 * 10 + ?d = n" by (rule div_mult_mod_eq)
  finally show ?case .
qed simp

lemma log_name_eq: "log_name v = decimal 20 (unat v) @ ''.log''"
proof -
  have "unat v < 10 ^ 20" using unat_u64_bound [of v] by (simp del: unat_u64_bound)
  from write_digits_decimal [OF this, of "[]"] show ?thesis
    by (simp add: log_name_def offset_to_name_def kOffsetDigits_def kLogSuffix_def)
qed

lemma index_name_eq: "index_name v = decimal 20 (unat v) @ ''.index''"
proof -
  have "unat v < 10 ^ 20" using unat_u64_bound [of v] by (simp del: unat_u64_bound)
  from write_digits_decimal [OF this, of "[]"] show ?thesis
    by (simp add: index_name_def offset_to_name_def kOffsetDigits_def kIndexSuffix_def)
qed

lemma lex_snoc:
  "length xs = length ys \<Longrightarrow> xs @ [a] < ys @ [b :: char] \<longleftrightarrow> xs < ys \<or> (xs = ys \<and> a < b)"
  by (induction xs ys rule: list_induct2) auto

lemma lex_append_same: "length xs = length ys \<Longrightarrow> xs @ s < ys @ s \<longleftrightarrow> xs < (ys :: string)"
  by (induction xs ys rule: list_induct2) auto

lemma decimal_inj: "m < 10 ^ i \<Longrightarrow> n < 10 ^ i \<Longrightarrow> decimal i m = decimal i n \<Longrightarrow> m = n"
proof (induction i arbitrary: m n)
  case (Suc i)
  have chars: "(char_of (48 + m mod 10) :: char) = char_of (48 + n mod 10)"
    and front: "decimal i (m div 10) = decimal i (n div 10)"
    using Suc.prems(3) by simp_all
  have ones: "m mod 10 = n mod 10"
    using arg_cong [OF chars, of "of_char :: char \<Rightarrow> nat"] of_char_digit [of "m mod 10"]
      of_char_digit [of "n mod 10"] by simp
  have tens: "m div 10 = n div 10"
    using Suc.prems(1,2) by (intro Suc.IH [OF _ _ front]) (simp_all add: div_less_iff_less_mult mult.commute)
  have "m div 10 * 10 + m mod 10 = n div 10 * 10 + n mod 10" by (simp only: ones tens)
  then show ?case by (simp only: div_mult_mod_eq)
qed simp

lemma less_by_digits:
  "(m :: nat) < n \<longleftrightarrow> m div 10 < n div 10 \<or> (m div 10 = n div 10 \<and> m mod 10 < n mod 10)"
proof -
  define q r q' r' where "q = m div 10" and "r = m mod 10" and "q' = n div 10" and "r' = n mod 10"
  have "m = q * 10 + r" "n = q' * 10 + r'" "r < 10" "r' < 10"
    by (simp_all add: q_def r_def q'_def r'_def)
  then show ?thesis
    unfolding q_def [symmetric] r_def [symmetric] q'_def [symmetric] r'_def [symmetric]
    by (cases q q' rule: linorder_cases) auto
qed

lemma decimal_less: "m < 10 ^ i \<Longrightarrow> n < 10 ^ i \<Longrightarrow> decimal i m < decimal i n \<longleftrightarrow> m < n"
proof (induction i arbitrary: m n)
  case (Suc i)
  have bounds: "m div 10 < 10 ^ i" "n div 10 < 10 ^ i"
    using Suc.prems by (simp_all add: div_less_iff_less_mult mult.commute)
  have "char_of (48 + m mod 10) < (char_of (48 + n mod 10) :: char) \<longleftrightarrow> m mod 10 < n mod 10"
    by (simp add: less_char_def of_char_digit)
  moreover have "decimal i (m div 10) = decimal i (n div 10) \<longleftrightarrow> m div 10 = n div 10"
    using decimal_inj [OF bounds] by auto
  ultimately show ?case
    using Suc.IH [OF bounds] less_by_digits [of m n] by (simp add: lex_snoc)
qed simp

section \<open>Properties\<close>

text \<open>C29. The name of a segment file parses back to the base offset it was made from, whatever the
  offset, and two names compare as strings exactly as their offsets compare as numbers.\<close>

theorem log_name_faithful:
  "parse_log_name (log_name v) = Inr v \<and> (log_name v < log_name w \<longleftrightarrow> v < w)"
proof
  have b: "unat v < 10 ^ 20" "unat w < 10 ^ 20"
    using unat_u64_bound [of v] unat_u64_bound [of w] by (simp_all del: unat_u64_bound)
  have "parse_digits (decimal 20 (unat v)) 0 = Inr v"
    using parse_digits_decimal [OF b(1), of "[]" 0] by simp
  then show "parse_log_name (log_name v) = Inr v"
    by (simp add: parse_log_name_def log_name_eq kOffsetDigits_def kLogSuffix_def)
  show "log_name v < log_name w \<longleftrightarrow> v < w"
    using decimal_less [OF b] by (simp add: log_name_eq lex_append_same word_less_nat_alt)
qed

end
