(* ===== verification/Segment_Durability.thy ===== *)
theory Segment_Durability
  imports Segment_Ops Segment_Names Sim_Disk
begin

text \<open>
  Segments on the simulated disk. Opening a segment recovers the batches that parse off the front
  of its file; on a disk that injects no errors reads, truncations and header walks give exactly
  what the specification says; an append adds to what a power cut may take and a flush moves it
  out of reach; after a power cut and a reopen every flushed batch is there, and what else is
  there is a leading part of what was appended since.
\<close>

section \<open>Opening\<close>

context disk
begin

lemma open_holds:
  fixes dir base_offset
  defines "p \<equiv> canon (join_path dir (log_name base_offset))"
    and "q \<equiv> canon (join_path dir (index_name base_offset))"
  assumes "valid d" and "1 < fs_ids (view d)"
    and "c = (case fs_files (view d) p of None \<Rightarrow> [] | Some c \<Rightarrow> c)"
    and "\<And>s. fs_files (view d) q = Some s \<Longrightarrow>
           hints_checked base_offset c (SparseIndex_decode s (of_nat (length c)))"
    and "Segment_open ops dir base_offset options d = (Inr sg, d')"
  shows "valid d' \<and> seg_holds sg (view d') (parse_batches base_offset c) \<and>
         ((\<forall>s. fs_files (view d) q = Some s \<longrightarrow>
              hints_honest base_offset c (SparseIndex_decode s (of_nat (length c)))) \<longrightarrow>
          seg_inv sg (view d') (parse_batches base_offset c)) \<and>
         fs_handles (view d) (sg_log_file sg) = None \<and>
         fs_handles (view d') = (fs_handles (view d))(sg_log_file sg \<mapsto> (p, kCreate)) \<and>
         fs_files (view d') = (fs_files (view d))(p \<mapsto> log_bytes (parse_batches base_offset c)) \<and>
         sg_base_offset sg = base_offset \<and> sg_options sg = options \<and>
         sg_index_path sg = join_path dir (index_name base_offset) \<and>
         length c \<le> unat (so_max_bytes options)"
proof -
  define sg0 where "sg0 = (Segment_new base_offset options)
      \<lparr>sg_log_path := join_path dir (log_name base_offset), sg_index_path := join_path dir (index_name base_offset)\<rparr>"
  obtain f d1 where f: "dk_open ops (join_path dir (log_name base_offset)) kCreate d = (Inr f, d1)"
    and rec: "Segment_recover ops (sg0\<lparr>sg_log_file := f\<rparr>) d1 = (Inr (), sg, d')"
    using assms(7) by (auto simp: Segment_open_def sg0_def Let_def split: prod.splits sum.splits)
  have d1: "valid d1" "fs_handles (view d) f = None" "view d1 = fs_open p kCreate f (view d)"
    using open_ok [OF assms(3) _ f] assms(4) by (simp_all add: p_def)
  have c: "fs_files (view d1) p = Some c"
    using assms(5) by (simp add: d1 fs_open_def split: option.splits)
  have held: "0 < fs_ids (view d1)" "fs_handles (view d1) f = Some (p, kCreate)"
    using assms(4) by (simp_all add: d1 fs_open_def)
  have side: "s = [] \<or> fs_files (view d) q = Some s" if "fs_files (view d1) q = Some s" for s
    using that by (cases "fs_files (view d) q") (auto simp: d1 fs_open_def split: if_splits)
  have none: "SparseIndex_decode [] ls = []" for ls
    using decode_encoded [of "[]" "[]"] by simp
  have checked: "hints_checked base_offset c (SparseIndex_decode s (of_nat (length c)))"
    if "fs_files (view d1) q = Some s" for s
    using side [OF that]
  proof
    assume "s = []"
    then show ?thesis by (simp add: none hints_checked_def)
  qed (rule assms(6))
  have honest: "hints_honest base_offset c (SparseIndex_decode s (of_nat (length c)))"
    if all: "\<forall>s. fs_files (view d) q = Some s \<longrightarrow> hints_honest base_offset c (SparseIndex_decode s (of_nat (length c)))"
      and s: "fs_files (view d1) q = Some s" for s
    using side [OF s]
  proof
    assume "s = []"
    then show ?thesis by (simp add: none hints_honest_def)
  qed (use all in blast)
  have sg0: "sg_log_file (sg0\<lparr>sg_log_file := f\<rparr>) = f" "sg_base_offset (sg0\<lparr>sg_log_file := f\<rparr>) = base_offset"
    "sg_options (sg0\<lparr>sg_log_file := f\<rparr>) = options" "sg_index (sg0\<lparr>sg_log_file := f\<rparr>) = []"
    "sg_index_path (sg0\<lparr>sg_log_file := f\<rparr>) = join_path dir (index_name base_offset)"
    by (simp_all add: sg0_def Segment_new_def)
  have d1': "fs_handles (view d1) = (fs_handles (view d))(f \<mapsto> (p, kCreate))"
    "(fs_files (view d1))(p \<mapsto> v) = (fs_files (view d))(p \<mapsto> v)" for v
    by (simp_all add: d1(3) fs_open_def split: option.splits)
  have r: "valid d' \<and> seg_holds sg (view d') (parse_batches base_offset c) \<and>
         ((\<forall>s. fs_files (view d1) q = Some s \<longrightarrow>
              hints_honest base_offset c (SparseIndex_decode s (of_nat (length c)))) \<longrightarrow>
          seg_inv sg (view d') (parse_batches base_offset c)) \<and>
         fs_handles (view d') = fs_handles (view d1) \<and>
         fs_files (view d') = (fs_files (view d1))(p \<mapsto> log_bytes (parse_batches base_offset c)) \<and>
         sg_base_offset sg = base_offset \<and> sg_options sg = options \<and>
         sg_log_file sg = f \<and> sg_index_path sg = join_path dir (index_name base_offset) \<and>
         length c \<le> unat (so_max_bytes options)"
    by (rule recover_run [where sg = "sg0\<lparr>sg_log_file := f\<rparr>", unfolded sg0, folded q_def,
        OF d1(1) held OpenMode.distinct(4) c refl checked rec])
  have "seg_inv sg (view d') (parse_batches base_offset c)"
    if "\<forall>s. fs_files (view d) q = Some s \<longrightarrow> hints_honest base_offset c (SparseIndex_decode s (of_nat (length c)))"
    using conjunct1 [OF conjunct2 [OF conjunct2 [OF r]]] honest [OF that] by blast
  then show ?thesis using r [unfolded d1'] d1(2) by (elim conjE, intro conjI impI) simp_all
qed

lemma open_run:
  fixes dir base_offset
  defines "p \<equiv> canon (join_path dir (log_name base_offset))"
    and "q \<equiv> canon (join_path dir (index_name base_offset))"
  assumes "valid d" and "1 < fs_ids (view d)"
    and "c = (case fs_files (view d) p of None \<Rightarrow> [] | Some c \<Rightarrow> c)"
    and "\<And>s. fs_files (view d) q = Some s \<Longrightarrow>
           hints_honest base_offset c (SparseIndex_decode s (of_nat (length c)))"
    and "Segment_open ops dir base_offset options d = (Inr sg, d')"
  shows "valid d' \<and> seg_inv sg (view d') (parse_batches base_offset c) \<and>
         fs_handles (view d) (sg_log_file sg) = None \<and>
         fs_handles (view d') = (fs_handles (view d))(sg_log_file sg \<mapsto> (p, kCreate)) \<and>
         fs_files (view d') = (fs_files (view d))(p \<mapsto> log_bytes (parse_batches base_offset c)) \<and>
         sg_base_offset sg = base_offset \<and> sg_options sg = options \<and>
         sg_index_path sg = join_path dir (index_name base_offset) \<and>
         length c \<le> unat (so_max_bytes options)"
  using open_holds [OF assms(3,4), where dir = dir and base_offset = base_offset, folded p_def q_def,
      OF assms(5) honest_checked [OF assms(6)] assms(7)] assms(6) by blast

end

section \<open>On a disk that answers\<close>

context reliable_disk
begin

lemma no_pread_error:
  "fs_file v f \<noteq> None \<Longrightarrow> \<not> pread_error ops (\<lambda>x. healthy x \<and> view x = v) f e"
  unfolding pread_error_def using pread_total by (metis Inl_Inr_False prod.inject)

lemma no_disk_error:
  assumes "seg_inv sg v bs" and "n \<le> cap"
  shows "\<not> disk_error ops (\<lambda>x. healthy x \<and> view x = v) (sg_log_file sg) n e"
proof -
  obtain p m where pm: "fs_handles v (sg_log_file sg) = Some (p, m)" "m \<noteq> kRead" and p: "fs_files v p \<noteq> None"
    using assms(1) by (auto simp: seg_inv_def fs_file_def)
  have "fs_file v (sg_log_file sg) \<noteq> None" using assms(1) by (simp add: seg_inv_def)
  moreover have "\<not> (healthy x \<and> view x = v \<and> unat sz \<le> n \<and> dk_truncate ops (sg_log_file sg) sz x = (Inl e, x'))" for x x' sz
    using truncate_total [of x "sg_log_file sg" p m sz] pm p assms(2) by auto
  ultimately show ?thesis unfolding disk_error_def using no_pread_error by blast
qed

lemma header_at_total:
  assumes "healthy d" and "fs_file (view d) (sg_log_file sg) = Some c"
  shows "\<exists>h d'. header_at ops sg pos d = (Inr h, d') \<and> healthy d' \<and> view d' = view d \<and>
           h = (case decode_header (drop (unat pos) c) of Inl e \<Rightarrow> None | Inr h \<Rightarrow> Some h)"
proof -
  obtain res d' where run: "header_at ops sg pos d = (res, d')" by force
  obtain s d1 where "dk_pread ops (sg_log_file sg) kBatchHeaderBytes (ucast pos) d = (Inr s, d1)"
    using pread_total [OF assms(1)] assms(2) by blast
  then obtain h where "res = Inr h"
    using run by (auto simp: header_at_def split: if_splits sum.splits)
  then show ?thesis using up.header_at_run [OF assms run] run by auto
qed

lemma scan_total:
  assumes "healthy d" and "fs_file (view d) (sg_log_file sg) = Some c"
  shows "\<exists>st' d'. scan ops sg file_size st d = (Inr st', d') \<and> healthy d' \<and> view d' = view d"
  using assms
proof (induction "unat file_size - unat (sc_pos st)" arbitrary: st d rule: less_induct)
  case less
  show ?case
  proof (cases "sc_pos st < file_size")
    case False
    then show ?thesis using less.prems(1) by (subst scan.simps) simp
  next
    case True
    obtain h d1 where h: "header_at ops sg (sc_pos st) d = (Inr h, d1)" "healthy d1" "view d1 = view d"
      using header_at_total [OF less.prems] by blast
    show ?thesis
    proof (cases h)
      case None
      then show ?thesis using True h by (subst scan.simps) simp
    next
      case (Some h')
      let ?tot = "total_bytes h'"
      obtain body d2 where body: "dk_pread ops (sg_log_file sg) ?tot (ucast (sc_pos st)) d1 = (Inr body, d2)"
        using pread_total [OF h(2)] less.prems(2) h(3) by fastforce
      have d2: "healthy d2" "view d2 = view d" using up.pread_ok [OF h(2) body] h(3) by auto
      show ?thesis
      proof (cases "?tot \<le> unat (file_size - sc_pos st)")
        case small: True
        have "unat (sc_pos st + of_nat ?tot) = unat (sc_pos st) + ?tot" "52 \<le> ?tot"
          using scan_advance [OF True small] header_at_Some [of ops sg "sc_pos st" d h' d1] h Some by simp_all
        then have "unat file_size - unat (sc_pos (scan_next sg h' st)) < unat file_size - unat (sc_pos st)"
          using True by (simp add: scan_next_def word_less_nat_alt)
        from less.hyps [OF this d2(1)] less.prems(2) d2(2)
        obtain st' d' where rest: "scan ops sg file_size (scan_next sg h' st) d2 = (Inr st', d')"
          "healthy d'" "view d' = view d" by auto
        then show ?thesis
          using True h Some body small d2 by (subst scan.simps) (auto simp: Let_def scan_next_def)
      qed (use True h Some in \<open>subst scan.simps, simp add: Let_def\<close>)
    qed
  qed
qed

lemma recover_total:
  assumes "healthy d" and "0 < fs_ids (view d)"
    and "fs_handles (view d) (sg_log_file sg) = Some (p, kCreate)" and "fs_files (view d) p = Some c"
    and "sg_index sg = []" and "length c \<le> unat (so_max_bytes (sg_options sg))" and "length c \<le> cap"
  shows "\<exists>sg' d'. Segment_recover ops sg d = (Inr (), sg', d') \<and> healthy d'"
proof -
  let ?f = "sg_log_file sg"
  have file0: "fs_file (view d) ?f = Some c" using assms(3,4) by (simp add: fs_file_def)
  obtain sz d1 where sz: "dk_size ops ?f d = (Inr sz, d1)"
    using size_total [OF assms(1)] file0 by blast
  have d1: "healthy d1" "view d1 = view d" and len: "unat sz = length c"
    using up.size_view [OF assms(1) sz] up.size_ok [OF assms(1) sz] file0 by auto
  have ok: "\<not> sz > ucast (so_max_bytes (sg_options sg))"
    using len assms(6) by (simp add: word_less_nat_alt)
  obtain idx0 d2 where li: "load_index ops (sg_index_path sg) (ucast sz) [] d1 = (idx0, d2)" by force
  obtain n where d2: "healthy d2" "view d2 = (view d)\<lparr>fs_ids := n\<rparr>"
    using up.load_index_run [OF d1(1) _ li] d1(2) assms(2) by auto
  have file2: "fs_file (view d2) ?f = Some c" using assms(3,4) by (simp add: d2 fs_file_def)
  obtain start idx d3 where ps: "pick_start ops sg idx0 d2 = ((start, idx), d3)" by (metis prod_cases3 prod.collapse)
  have d3: "healthy d3" "view d3 = view d2" using up.pick_start_run [OF d2(1) file2 ps] by blast+
  define sg1 where "sg1 = sg\<lparr>sg_index := idx,
    sg_recovery := (sg_recovery sg)\<lparr>rr_index_was_usable := start \<noteq> None\<rparr>\<rparr>"
  have "fs_file (view d3) (sg_log_file sg1) = Some c" using file2 d3(2) by (simp add: sg1_def)
  then obtain st d4 where sc: "scan ops sg1 (ucast sz) (scan_start sg start idx) d3 = (Inr st, d4)"
    and d4: "healthy d4" "view d4 = view d3"
    using scan_total [OF d3(1)] by blast
  have "\<exists>sg' d'. recover_finish ops sg1 (ucast sz) st d4 = (Inr (), sg', d') \<and> healthy d'"
  proof (cases "sc_pos st < ucast sz")
    case True
    have "unat (ucast (sc_pos st) :: u64) \<le> cap"
    proof -
      have "unat (sc_pos st) < unat (ucast sz :: u32)" using True by (simp add: word_less_nat_alt)
      also have "\<dots> \<le> unat sz" by (simp add: unsigned_ucast_eq take_bit_nat_less_eq_self)
      finally show ?thesis using len assms(7) by simp
    qed
    then obtain d5 where t: "dk_truncate ops (sg_log_file sg1) (ucast (sc_pos st)) d4 = (Inr (), d5)"
      using truncate_total [of d4 "sg_log_file sg1" p kCreate "ucast (sc_pos st)"] d4 d3 d2 assms(3,4) by (auto simp: sg1_def)
    then show ?thesis
      using True up.truncate_ok [OF _ t] d4 by (auto simp: recover_finish_def Let_def sg1_def)
  qed (use d4 d3 in \<open>simp add: recover_finish_def Let_def\<close>)
  then show ?thesis
    using sz ok li ps sc by (auto simp: Segment_recover_def assms(5) sg1_def Let_def)
qed

text \<open>
  Whatever the file and the sidecar hold, opening a file that is not larger than a segment may be
  succeeds: recovery never gives up on content.
\<close>

lemma open_total:
  assumes "healthy d" and "1 < fs_ids (view d)" and "fs_files (view d) (canon (join_path dir (log_name b))) = Some c"
    and "length c \<le> unat (so_max_bytes options)" and "length c \<le> cap"
  shows "\<exists>sg d'. Segment_open ops dir b options d = (Inr sg, d') \<and> healthy d'"
proof -
  let ?p = "canon (join_path dir (log_name b))"
  obtain f d1 where f: "dk_open ops (join_path dir (log_name b)) kCreate d = (Inr f, d1)"
    using open_existing [OF assms(1), of "join_path dir (log_name b)" kCreate] assms(3) by auto
  have d1: "healthy d1" "view d1 = fs_open ?p kCreate f (view d)"
    using up.open_ok [OF assms(1) _ f] assms(2) by simp_all
  define sg where "sg = (Segment_new b options)
      \<lparr>sg_log_path := join_path dir (log_name b), sg_index_path := join_path dir (index_name b), sg_log_file := f\<rparr>"
  have hold: "fs_handles (view d1) f = Some (?p, kCreate)" "fs_files (view d1) ?p = Some c" "0 < fs_ids (view d1)"
    using assms(2,3) by (simp_all add: d1 fs_open_def)
  obtain sg' d' where "Segment_recover ops sg d1 = (Inr (), sg', d')" "healthy d'"
    using recover_total [OF d1(1) hold(3), of sg ?p c] hold(1,2) assms(4,5)
    by (auto simp: sg_def Segment_new_def)
  then show ?thesis
    using f by (auto simp: Segment_open_def sg_def Let_def Segment_new_def)
qed

lemma open_too_large:
  assumes "healthy d" and "0 < fs_ids (view d)" and "fs_files (view d) (canon (join_path dir (log_name b))) = Some c"
    and "unat (so_max_bytes options) < length c"
  shows "\<exists>d'. Segment_open ops dir b options d = (Inl kCorruptRecord, d') \<and> healthy d' \<and>
           fs_files (view d') = fs_files (view d)"
proof -
  let ?p = "canon (join_path dir (log_name b))"
  obtain f d1 where f: "dk_open ops (join_path dir (log_name b)) kCreate d = (Inr f, d1)"
    using open_existing [OF assms(1), of "join_path dir (log_name b)" kCreate] assms(3) by auto
  have d1: "healthy d1" "view d1 = fs_open ?p kCreate f (view d)"
    using up.open_ok [OF assms(1,2) f] by simp_all
  have held: "fs_file (view d1) f = Some c" "fs_files (view d1) = fs_files (view d)"
    using assms(3) by (auto simp: d1 fs_open_def fs_file_def)
  obtain sz d2 where sz: "dk_size ops f d1 = (Inr sz, d2)" using size_total [OF d1(1)] held by blast
  have d2: "healthy d2" "view d2 = view d1" and "unat sz = length c"
    using up.size_view [OF d1(1) sz] up.size_ok [OF d1(1) sz] held by auto
  then have "sz > ucast (so_max_bytes options)" using assms(4) by (simp add: word_less_nat_alt)
  then have "Segment_open ops dir b options d = (Inl kCorruptRecord, dk_close ops f d2)"
    using f sz by (simp add: Segment_open_def Segment_recover_def Segment_new_def Let_def)
  then show ?thesis using up.close [OF d2(1), of f] d2(2) held(2) by (simp add: fs_close_def)
qed

lemma read_total:
  assumes "healthy d" and "seg_inv sg (view d) bs" and "no_wrap (sg_base_offset sg) bs"
  shows "\<exists>d'. Segment_read ops sg offset n d = Some (read_spec n (batch_at offset bs), d') \<and>
              healthy d' \<and> view d' = view d"
proof -
  have "fs_file (view d) (sg_log_file sg) \<noteq> None" using assms(2) by (simp add: seg_inv_def)
  then show ?thesis using up.read_run [OF assms, of offset n] no_pread_error by blast
qed

lemma scan_headers_total:
  assumes "healthy d" and "seg_inv sg (view d) bs"
  shows "\<exists>d'. Segment_scan_headers ops sg visit s d = Some (Inr (), visit_headers visit s (map fst bs), d') \<and>
              healthy d' \<and> view d' = view d"
proof -
  have "fs_file (view d) (sg_log_file sg) \<noteq> None" using assms(2) by (simp add: seg_inv_def)
  then show ?thesis using up.scan_headers_run [OF assms, of visit s] no_pread_error by blast
qed

lemma truncate_to_total:
  assumes "healthy d" and "seg_inv sg (view d) bs" and "no_wrap (sg_base_offset sg) bs"
    and "sg_base_offset sg \<le> offset" and "offset < chain_end (sg_base_offset sg) bs"
    and "length (log_bytes bs) \<le> cap"
  shows "\<exists>st sg' d'. Segment_truncate_to ops offset sg d = Some (st, sg', d') \<and> healthy d' \<and>
           (if starts_at bs offset
            then st = Inr () \<and> (\<exists>us ws. bs = us @ ws \<and> chain_end (sg_base_offset sg) us = offset \<and>
                   view d' = fs_put (sg_log_file sg) (log_bytes us) (view d) \<and> seg_inv sg' (view d') us \<and>
                   same_identity sg sg')
            else st = Inl kInvalidArgument \<and> sg' = sg \<and> view d' = view d)"
proof -
  have "fs_file (view d) (sg_log_file sg) \<noteq> None" using assms(2) by (simp add: seg_inv_def)
  note ne = no_pread_error [OF this] no_disk_error [OF assms(2,6)]
  obtain st sg' d' where run: "Segment_truncate_to ops offset sg d = Some (st, sg', d')" "healthy d'"
    and res: "case st of
              Inr _ \<Rightarrow> (\<exists>us ws. bs = us @ ws \<and> chain_end (sg_base_offset sg) us = offset \<and> starts_at bs offset \<and>
                         view d' = fs_put (sg_log_file sg) (log_bytes us) (view d) \<and> seg_inv sg' (view d') us \<and>
                         same_identity sg sg')
            | Inl e \<Rightarrow> sg' = sg \<and> view d' = view d \<and>
                (if starts_at bs offset
                 then disk_error ops (\<lambda>x. healthy x \<and> view x = view d) (sg_log_file sg) (length (log_bytes bs)) e
                 else e = kInvalidArgument \<or>
                      pread_error ops (\<lambda>x. healthy x \<and> view x = view d) (sg_log_file sg) e)"
    using up.truncate_run [OF assms(1-5)] by blast
  show ?thesis
    using run res ne by (cases st) (auto split: if_splits)
qed

text \<open>An offset before the segment cuts everything and becomes the next offset.\<close>

lemma truncate_below_total:
  assumes "healthy d" and "seg_inv sg (view d) bs" and "no_wrap (sg_base_offset sg) bs"
    and "offset < sg_base_offset sg"
  shows "\<exists>d'. Segment_truncate_to ops offset sg d =
             Some (Inr (), sg\<lparr>sg_size_bytes := 0, sg_next_offset := offset, sg_index := []\<rparr>, d') \<and>
           healthy d' \<and> view d' = fs_put (sg_log_file sg) [] (view d)"
proof -
  have nx: "sg_next_offset sg = chain_end (sg_base_offset sg) bs" using assms(2) by (simp add: seg_inv_def)
  have "sg_base_offset sg \<le> chain_end (sg_base_offset sg) bs"
    using chain_end_mono [of "sg_base_offset sg" "[]" bs] assms(3) by simp
  then have before: "\<not> sg_next_offset sg \<le> offset" using assms(4) nx by simp
  obtain p m where pm: "fs_handles (view d) (sg_log_file sg) = Some (p, m)" "m \<noteq> kRead" and p: "fs_files (view d) p \<noteq> None"
    using assms(2) by (auto simp: seg_inv_def fs_file_def)
  obtain d' where t: "dk_truncate ops (sg_log_file sg) 0 d = (Inr (), d')"
    using truncate_total [OF assms(1) pm p, of 0] by auto
  have "healthy d'" "view d' = fs_put (sg_log_file sg) [] (view d)"
    using up.truncate_ok [OF assms(1) t] by (auto simp: resize_def)
  moreover have "SparseIndex_truncate_from 0 (sg_index sg) = []"
    using assms(2) by (simp add: seg_inv_def truncate_from_filter)
  ultimately show ?thesis
    using t before less_imp_le [OF assms(4)] less_not_sym [OF assms(4)]
    by (simp add: Segment_truncate_to_def cut_at_def Let_def)
qed

end

section \<open>What is out of reach of a power cut\<close>

text \<open>
  The batches \<open>ds\<close> of a segment are flushed and the batches \<open>es\<close> are not: the durable image of
  the file holds the first, and what is pending appends the rest.
\<close>

definition flushed_split :: "Segment \<Rightarrow> SimDisk \<Rightarrow> batch list \<Rightarrow> batch list \<Rightarrow> bool" where
  "flushed_split sg d ds es \<longleftrightarrow>
     (\<exists>h f. sd_open d (sg_log_file sg) = Some h \<and> map_of (sd_files d) (hd_path h) = Some f \<and>
            f_durable f = log_bytes ds \<and> appending (length (f_durable f)) (f_pending f) \<and>
            f_visible f = log_bytes (ds @ es))"

lemma append_flushed_split:
  assumes "sim_ok d" and "seg_inv sg (sim_view (d, r)) (ds @ es)" and "flushed_split sg d ds es"
    and "batch_wf h vs"
    and "Segment_append (sim_disk_ops rops) (batch_bytes h vs) h sg (d, r) = (Inr (), sg', (d', r'))"
  shows "flushed_split sg' d' ds (es @ [(h, vs)])"
proof -
  let ?b = "batch_bytes h vs"
  obtain hd f where hd: "sd_open d (sg_log_file sg) = Some hd" "map_of (sd_files d) (hd_path hd) = Some f"
    and f: "f_durable f = log_bytes ds" "appending (length (f_durable f)) (f_pending f)" "f_visible f = log_bytes (ds @ es)"
    using assms(3) by (auto simp: flushed_split_def)
  have size: "unat (sg_size_bytes sg) = length (f_visible f)" using assms(2) f(3) by (simp add: seg_inv_def)
  have vis: "f_visible f = f_durable f @ concat (map pw_bytes (f_pending f))"
    using sim_ok_file [OF assms(1) hd(2)] appending_fold [OF f(2)] by (simp add: file_ok_def)
  have ne: "?b \<noteq> []" using batch_enc_nonempty [of "(h, vs)"] by (auto simp: batch_enc_def simp del: length_batch_bytes)
  have run: "SimDisk_pwrite rops (sg_log_file sg) ?b (ucast (sg_size_bytes sg)) (d, r) = (Inr (length ?b), (d', r'))"
    and sg': "sg_log_file sg' = sg_log_file sg"
    using assms(5) by (auto simp: Segment_append_def sim_disk_ops_def split: if_splits prod.splits sum.splits)
  let ?f = "f\<lparr>f_visible := f_visible f @ ?b, f_pending := f_pending f @ [\<lparr>pw_offset = ucast (sg_size_bytes sg), pw_bytes = ?b\<rparr>]\<rparr>"
  have "d' = SimDisk_set_file (hd_path hd) ?f d"
    using run hd size ne
    by (auto simp: SimDisk_pwrite_def SimDisk_resolve_def Let_def split: if_splits prod.splits)
  moreover have "appending (length (f_durable ?f)) (f_pending ?f)"
    using f(2) size vis by (simp add: appending_snoc)
  ultimately show ?thesis
    using hd f assms(1)
    by (auto simp: flushed_split_def sg' map_of_set_file SimDisk_set_file_def map_of_omap_put sim_ok_def batch_enc_def)
qed

lemma fsync_flushed_split:
  assumes "sim_ok d" and "flushed_split sg d ds es"
    and "Segment_fsync (sim_disk_ops rops) sg (d, r) = (Inr (), (d', r'))"
  shows "flushed_split sg d' (ds @ es) []"
proof -
  obtain hd f where hd: "sd_open d (sg_log_file sg) = Some hd" "map_of (sd_files d) (hd_path hd) = Some f"
    and f: "f_visible f = log_bytes (ds @ es)"
    using assms(2) by (auto simp: flushed_split_def)
  have vis: "f_visible f = fold apply_write (f_pending f) (f_durable f)"
    using sim_ok_file [OF assms(1) hd(2)] by (simp add: file_ok_def)
  have "d' = SimDisk_set_file (hd_path hd) (f\<lparr>f_durable := f_visible f, f_pending := []\<rparr>) d"
    using assms(3) hd
    by (auto simp: Segment_fsync_def sim_disk_ops_def SimDisk_fsync_def SimDisk_resolve_def Let_def vis
        split: if_splits prod.splits)
  then show ?thesis
    using hd f assms(1) by (auto simp: flushed_split_def map_of_set_file SimDisk_set_file_def map_of_omap_put sim_ok_def)
qed

text \<open>
  The index sidecar. It is honest when it holds an index that names boundaries of the chain in the
  log, as the one written by an index flush does. Appends and flushes keep it honest; a power cut
  that takes unflushed batches, or a truncation, need not: neither rewrites the sidecar, so entries
  for batches that are gone stay in it, and later batches may take their place.
\<close>

definition sidecar_ok :: "SimDisk \<Rightarrow> string \<Rightarrow> u64 \<Rightarrow> batch list \<Rightarrow> bool" where
  "sidecar_ok d q start bs \<longleftrightarrow>
     (\<forall>g. map_of (sd_files d) q = Some g \<longrightarrow>
        appending (length (f_durable g)) (f_pending g) \<and>
        (\<exists>idx. index_ok idx \<and> hints_hold start bs idx \<and> f_visible g = concat (map entry_bytes idx)))"

text \<open>
  What recovery needs of a sidecar, honest or stale: whatever a power cut leaves of it, an entry that
  passes the header check of recovery names a boundary of the chain. An entry that fails the check
  may say anything.
\<close>

definition sidecar_checked :: "SimDisk \<Rightarrow> string \<Rightarrow> u64 \<Rightarrow> batch list \<Rightarrow> bool" where
  "sidecar_checked d q start bs \<longleftrightarrow>
     (\<forall>g img ls. map_of (sd_files d) q = Some g \<longrightarrow> img \<in> crash_images (f_pending g) (f_durable g) \<longrightarrow>
        (\<forall>e \<in> set (SparseIndex_decode img ls). looks_like (log_bytes bs) start e \<longrightarrow>
           boundary start bs (unat (file_pos e)) (start + ucast (rel_offset e))))"

lemma take_entries:
  "\<exists>part. length part < 8 \<and>
     take n (concat (map entry_bytes idx)) = concat (map entry_bytes (take (n div 8) idx)) @ part"
proof (induction idx arbitrary: n)
  case (Cons e idx)
  show ?case
  proof (cases "n < 8")
    case True
    then show ?thesis by (intro exI [of _ "take n (entry_bytes e)"]) simp
  next
    case False
    then have n: "n div 8 = Suc ((n - 8) div 8)" by (simp add: le_div_geq)
    obtain part where "length part < 8" "take (n - 8) (concat (map entry_bytes idx)) =
        concat (map entry_bytes (take ((n - 8) div 8) idx)) @ part" using Cons by blast
    then show ?thesis using False n by (intro exI [of _ part]) simp
  qed
qed simp

lemma crash_prefix:
  assumes "sim_ok d" and "SimDisk_crash rops (d, r) = Some (d', r')" and "map_of (sd_files d) p = Some f"
    and "appending (length (f_durable f)) (f_pending f)"
  shows "\<exists>n \<ge> length (f_durable f). map_option f_visible (map_of (sd_files d') p) = Some (take n (f_visible f))"
proof -
  obtain f' where f': "map_of (sd_files d') p = Some f'"
    and v: "f_visible f' \<in> crash_images (f_pending f) (f_durable f)"
    using crash_file(1) [OF assms(2), of p] assms(3) by (auto simp: option_rel_Some1)
  have "f_visible f = fold apply_write (f_pending f) (f_durable f)"
    using sim_ok_file [OF assms(1,3)] by (simp add: file_ok_def)
  then show ?thesis using crash_images_appending [OF v assms(4)] f' by auto
qed

lemma honest_after_cut:
  assumes "chain start bs" and "index_ok idx" and "hints_hold start bs idx"
    and "length (take n (log_bytes bs)) < 4294967296"
  shows "hints_honest start (take n (log_bytes bs))
           (SparseIndex_decode (take m (concat (map entry_bytes idx))) (of_nat (length (take n (log_bytes bs)))))"
proof -
  let ?c = "take n (log_bytes bs)"
  obtain part where part: "length part < 8"
    and t: "take m (concat (map entry_bytes idx)) = concat (map entry_bytes (take (m div 8) idx)) @ part"
    using take_entries by blast
  have "boundary start (parse_batches start ?c) (unat (file_pos e)) (start + ucast (rel_offset e))"
    if "e \<in> set (SparseIndex_decode (take m (concat (map entry_bytes idx))) (of_nat (length ?c)))" for e
  proof -
    have e: "e \<in> set idx" "file_pos e < of_nat (length ?c)"
      using that decode_encoded [OF index_ok_take [OF assms(2), of "m div 8"] part] t by (auto dest: in_set_takeD)
    then have "unat (file_pos e) < n"
      using assms(4) by (simp add: word_less_nat_alt unat_of_nat_u32)
    moreover have "boundary start bs (unat (file_pos e)) (start + ucast (rel_offset e))"
      using e(1) assms(3) by (simp add: hints_hold_def)
    ultimately show ?thesis using boundary_cut parse_batches_cut [OF assms(1)] by simp
  qed
  then show ?thesis by (simp add: hints_honest_def)
qed

lemma decode_of_cut:
  assumes "index_ok idx" and "e \<in> set (SparseIndex_decode (take m (concat (map entry_bytes idx))) ls)"
  shows "e \<in> set idx"
proof -
  obtain part where part: "length part < 8"
    and t: "take m (concat (map entry_bytes idx)) = concat (map entry_bytes (take (m div 8) idx)) @ part"
    using take_entries by blast
  show ?thesis
    using assms(2) decode_encoded [OF index_ok_take [OF assms(1), of "m div 8"] part] t by (auto dest: in_set_takeD)
qed

lemma sidecar_ok_checked:
  assumes "sim_ok d" and "sidecar_ok d q start bs"
  shows "sidecar_checked d q start bs"
  unfolding sidecar_checked_def
proof (intro allI impI ballI)
  fix g img ls e
  assume g: "map_of (sd_files d) q = Some g" and img: "img \<in> crash_images (f_pending g) (f_durable g)"
    and e: "e \<in> set (SparseIndex_decode img ls)"
  obtain idx where idx: "index_ok idx" "hints_hold start bs idx" "f_visible g = concat (map entry_bytes idx)"
    and app: "appending (length (f_durable g)) (f_pending g)"
    using assms(2) g by (auto simp: sidecar_ok_def)
  have "f_visible g = fold apply_write (f_pending g) (f_durable g)"
    using sim_ok_file [OF assms(1) g] by (simp add: file_ok_def)
  then obtain m where "img = take m (concat (map entry_bytes idx))"
    using crash_images_appending [OF img app] idx(3) by auto
  then have "e \<in> set idx" using decode_of_cut [OF idx(1)] e by blast
  then show "boundary start bs (unat (file_pos e)) (start + ucast (rel_offset e))"
    using idx(2) by (simp add: hints_hold_def)
qed

lemma no_sidecar_ok: "map_of (sd_files d) q = None \<Longrightarrow> sidecar_ok d q start bs"
  by (simp add: sidecar_ok_def)

lemma sidecar_ok_frame:
  assumes "sidecar_ok d q start bs" and "map_of (sd_files d') q = map_of (sd_files d) q"
  shows "sidecar_ok d' q start (bs @ cs)"
  using assms hints_hold_append unfolding sidecar_ok_def by metis

lemma append_sidecar_ok:
  assumes "sim_ok d" and "sidecar_ok d q start bs"
    and "map_option hd_path (sd_open d (sg_log_file sg)) \<noteq> Some q"
    and "Segment_append (sim_disk_ops rops) framed h sg (d, r) = (st, sg', (d', r'))"
  shows "sidecar_ok d' q start (bs @ cs)"
proof (rule sidecar_ok_frame [OF assms(2)])
  have "d' = d \<or> (\<exists>hd f. sd_open d (sg_log_file sg) = Some hd \<and> d' = SimDisk_set_file (hd_path hd) f d)"
    using assms(4)
    by (auto simp: Segment_append_def sim_disk_ops_def SimDisk_pwrite_def SimDisk_resolve_def Let_def
        split: if_splits prod.splits sum.splits option.splits)
  then show "map_of (sd_files d') q = map_of (sd_files d) q"
    using assms(3) map_of_set_file [OF assms(1)] by auto
qed

lemma fsync_sidecar_ok:
  assumes "sim_ok d" and "sidecar_ok d q start bs"
    and "map_option hd_path (sd_open d (sg_log_file sg)) \<noteq> Some q"
    and "Segment_fsync (sim_disk_ops rops) sg (d, r) = (st, (d', r'))"
  shows "sidecar_ok d' q start bs"
proof (rule sidecar_ok_frame [OF assms(2), where cs = "[]", simplified])
  have "d' = d \<or> (\<exists>hd f. sd_open d (sg_log_file sg) = Some hd \<and> d' = SimDisk_set_file (hd_path hd) f d)"
    using assms(4)
    by (auto simp: Segment_fsync_def sim_disk_ops_def SimDisk_fsync_def SimDisk_resolve_def Let_def
        split: if_splits prod.splits sum.splits option.splits)
  then show "map_of (sd_files d') q = map_of (sd_files d) q"
    using assms(3) map_of_set_file [OF assms(1)] by auto
qed

lemma holds_index_ok:
  assumes "omap_ok (sd_files d)" and "index_ok idx" and "hints_hold start bs idx"
    and "g = \<lparr>f_durable = [], f_visible = [], f_pending = []\<rparr> \<or>
         g = \<lparr>f_durable = [], f_visible = concat (map entry_bytes idx),
               f_pending = [\<lparr>pw_offset = 0, pw_bytes = concat (map entry_bytes idx)\<rparr>]\<rparr>"
  shows "sidecar_ok (SimDisk_set_file q g d) q start bs"
proof -
  have at: "map_of (sd_files (SimDisk_set_file q g d)) q = Some g"
    using map_of_omap_put [OF assms(1)] by (simp add: SimDisk_set_file_def)
  have "index_ok []" "hints_hold start bs []" by (simp_all add: index_ok_def hints_hold_def)
  moreover have "f_visible g = concat (map entry_bytes []) \<or> f_visible g = concat (map entry_bytes idx)"
    using assms(4) by auto
  ultimately have "\<exists>idx. index_ok idx \<and> hints_hold start bs idx \<and> f_visible g = concat (map entry_bytes idx)"
    using assms(2,3) by blast
  moreover have "appending (length (f_durable g)) (f_pending g)" using assms(4) by auto
  ultimately show ?thesis by (simp add: sidecar_ok_def at)
qed

text \<open>An index flush leaves an honest sidecar, also when a write of it fails.\<close>

lemma flush_index_sidecar_ok:
  assumes "sim_ok d" and "index_ok (sg_index sg)" and "hints_hold start bs (sg_index sg)"
    and "q = normalize (sg_index_path sg)" and "sidecar_ok d q start bs"
    and "Segment_flush_index (sim_disk_ops rops) sg (d, r) = (st, (d', r'))"
  shows "sidecar_ok d' q start bs"
proof -
  let ?ops = "sim_disk_ops rops" and ?empty = "\<lparr>f_durable = [], f_visible = [], f_pending = []\<rparr>"
  let ?out = "concat (map entry_bytes (sg_index sg))"
  let ?full = "\<lparr>f_durable = [], f_visible = ?out, f_pending = [\<lparr>pw_offset = 0, pw_bytes = ?out\<rparr>]\<rparr>"
  have out: "Buffer_slice (SparseIndex_encode (sg_index sg) Buffer_new) = ?out"
    using encode_bytes [of Buffer_new "sg_index sg"] by simp
  show ?thesis
  proof (cases "fst (dk_open ?ops (sg_index_path sg) kCreate (d, r))")
    case (Inl e)
    then have "d' = d"
      using assms(6) by (auto simp: Segment_flush_index_def sim_disk_ops_def SimDisk_open_def Let_def
          split: prod.splits sum.splits if_splits)
    then show ?thesis using assms(5) by simp
  next
    case (Inr f)
    let ?d0 = "if map_of (sd_files d) q = None then SimDisk_set_file q ?empty d else d"
    let ?d1 = "?d0\<lparr>sd_next_id := sd_next_id d + 1, sd_open := (sd_open d)(f \<mapsto> \<lparr>hd_path = q, hd_mode = kCreate\<rparr>)\<rparr>"
    have free: "sd_open d (sd_next_id d) = None" using assms(1) by (auto simp: sim_ok_def)
    have f: "f = sd_next_id d" and pw: "sd_powered d" and o: "dk_open ?ops (sg_index_path sg) kCreate (d, r) = (Inr f, (?d1, r))"
      using Inr free assms(4) by (auto simp: sim_disk_ops_def SimDisk_open_def Let_def split: if_splits)
    have ok0: "omap_ok (sd_files d)" using assms(1) by (simp add: sim_ok_def)
    then have ok1: "omap_ok (sd_files ?d1)" by (simp add: SimDisk_set_file_def omap_put_ok)
    have "map_of (sd_files ?d1) q \<noteq> None" using map_of_omap_put [OF ok0] by (simp add: SimDisk_set_file_def)
    then obtain g where g: "map_of (sd_files ?d1) q = Some g" by blast
    have res: "SimDisk_resolve f True ?d1 = Inr (q, g)" using pw g by (simp add: SimDisk_resolve_def)
    define d2 where "d2 = SimDisk_set_file q ?empty ?d1"
    have "filter (\<lambda>w. pw_bytes w \<noteq> []) (map (trim_write 0) ws) = []" for ws
      by (induction ws) (simp_all add: trim_write_def)
    then have t: "dk_truncate ?ops f 0 (?d1, r) = (Inr (), (d2, r))"
      by (cases g) (simp add: sim_disk_ops_def SimDisk_truncate_def res Let_def resize_def d2_def)
    have ok2: "omap_ok (sd_files d2)" using ok1 by (simp add: d2_def SimDisk_set_file_def omap_put_ok)
    have res2: "SimDisk_resolve f True d2 = Inr (q, ?empty)"
      using pw map_of_omap_put [OF ok1] by (simp add: SimDisk_resolve_def d2_def SimDisk_set_file_def)
    obtain pr d3 r3 where p: "dk_pwrite ?ops f ?out 0 (d2, r) = (pr, (d3, r3))" by (metis prod.collapse)
    then have d3: "d3 = d2 \<or> d3 = SimDisk_set_file q ?full d2"
      by (auto simp: sim_disk_ops_def SimDisk_pwrite_def res2 Let_def apply_bytes_append [of "[]", simplified] split: prod.splits if_splits)
    have "d' = d2\<lparr>sd_open := (sd_open d2)(f := None)\<rparr> \<or> d' = d3\<lparr>sd_open := (sd_open d3)(f := None)\<rparr>"
      using assms(6) p unfolding Segment_flush_index_def Let_def o out
      by (auto simp: t out, auto simp: sim_disk_ops_def SimDisk_close_def split: sum.splits if_splits)
    moreover have "sidecar_ok d2 q start bs" "sidecar_ok d3 q start bs"
      using holds_index_ok [OF ok1 assms(2,3)] holds_index_ok [OF ok2 assms(2,3)] d2_def d3 by auto
    ultimately show ?thesis by (auto simp: sidecar_ok_def)
  qed
qed

lemma looks_like_take:
  assumes "looks_like (take n p) start e"
  shows "looks_like p start e" and "unat (file_pos e) < n"
proof -
  let ?k = "unat (file_pos e)"
  obtain h where h: "decode_header (drop ?k (take n p)) = Inr h" "bh_base_offset h = start + ucast (rel_offset e)"
    using assms by (auto simp: looks_like_def split: sum.splits)
  have "52 \<le> length (drop ?k (take n p))"
    using h(1) by (auto simp: decode_header_def kBatchHeaderBytes_def split: if_splits)
  then have n: "52 \<le> n - ?k" by simp
  then show "unat (file_pos e) < n" by simp
  show "looks_like p start e"
    using h n decode_header_take [of "n - ?k" "drop ?k p"] by (simp add: looks_like_def drop_take)
qed

lemma crash_sidecar:
  assumes "SimDisk_crash rops (d, r) = Some (d', r')" and "map_option f_visible (map_of (sd_files d') q) = Some s"
  shows "\<exists>g. map_of (sd_files d) q = Some g \<and> s \<in> crash_images (f_pending g) (f_durable g)"
  using crash_file(1) [OF assms(1), of q] assms(2) by (auto simp: option_rel_Some2)

text \<open>After a power cut the entries that pass the check name boundaries of what is left.\<close>

lemma checked_after_crash:
  assumes "chain start bs" and "sidecar_checked d q start bs"
    and "SimDisk_crash rops (d, r) = Some (d', r')" and "map_option f_visible (map_of (sd_files d') q) = Some s"
  shows "hints_checked start (take n (log_bytes bs)) (SparseIndex_decode s ls)"
  unfolding hints_checked_def
proof (intro ballI impI)
  fix e assume e: "e \<in> set (SparseIndex_decode s ls)" and like: "looks_like (take n (log_bytes bs)) start e"
  have "boundary start bs (unat (file_pos e)) (start + ucast (rel_offset e))"
    using assms(2) crash_sidecar [OF assms(3,4)] e looks_like_take(1) [OF like] unfolding sidecar_checked_def by blast
  then show "boundary start (parse_batches start (take n (log_bytes bs))) (unat (file_pos e)) (start + ucast (rel_offset e))"
    using boundary_cut looks_like_take(2) [OF like] parse_batches_cut [OF assms(1)] by simp
qed

lemma honest_after_crash:
  assumes "sim_ok d" and "chain start bs" and "sidecar_ok d q start bs" and "length (log_bytes bs) < 4294967296"
    and "SimDisk_crash rops (d, r) = Some (d', r')" and "map_option f_visible (map_of (sd_files d') q) = Some s"
  shows "hints_honest start (take n (log_bytes bs))
           (SparseIndex_decode s (of_nat (length (take n (log_bytes bs)))))"
proof -
  obtain g where g: "map_of (sd_files d) q = Some g" using crash_sidecar [OF assms(5,6)] by blast
  obtain idx where idx: "index_ok idx" "hints_hold start bs idx" "f_visible g = concat (map entry_bytes idx)"
    and app: "appending (length (f_durable g)) (f_pending g)"
    using assms(3) g by (auto simp: sidecar_ok_def)
  obtain m where "s = take m (concat (map entry_bytes idx))"
    using crash_prefix [OF assms(1,5) g app] assms(6) idx(3) by auto
  then show ?thesis using honest_after_cut [OF assms(2) idx(1,2)] assms(4) by simp
qed

text \<open>The batch a read finds begins at or before the wanted offset, when that is not below the chain.\<close>

lemma batch_at_covers:
  assumes "chain start bs" and "batch_at want bs = b # ws" and "start \<le> want"
  shows "bh_base_offset (fst b) \<le> want"
proof -
  obtain us where us: "bs = us @ b # ws" and below: "\<forall>c \<in> set us. next_offset (fst c) \<le> want"
    using assms(2) unfolding batch_at_def by (metis set_takeWhileD takeWhile_dropWhile_id)
  show ?thesis
  proof (cases us rule: rev_cases)
    case Nil
    then show ?thesis using assms(1,3) us by (cases b) simp
  next
    case (snoc ts c)
    then have "bh_base_offset (fst b) = next_offset (fst c)"
      using chain_next_offset(2) [of start us b ws] chain_next_offset(1) [of start ts c "b # ws"] assms(1) us by simp
    then show ?thesis using below snoc by simp
  qed
qed

lemma whole_within_take: "\<exists>k \<le> length bs. whole_within n bs = take k bs"
  using whole_within_prefix [of bs n] by (metis append_eq_conv_conj length_append le_add1)

section \<open>A concrete segment\<close>

text \<open>A concrete segment: one batch flushed, one not.\<close>

definition sample_options :: SegmentOptions where
  "sample_options = \<lparr>so_max_bytes = 4096, so_index_interval_bytes = 100\<rparr>"

definition sample_entry :: "u64 \<Rightarrow> batch" where
  "sample_entry bo = (finished_header bo sample_meta [[7, 8], [9]], [[7, 8], [9]])"

definition sample_path :: string where
  "sample_path = ''d/00000000000000000000.log''"

definition sample_segment :: Segment where
  "sample_segment = (Segment_new 0 sample_options)
     \<lparr>sg_log_file := 0, sg_log_path := sample_path, sg_index_path := join_path ''d'' (index_name 0),
      sg_next_offset := 4, sg_size_bytes := 126\<rparr>"

definition sample_file :: File where
  "sample_file =
     \<lparr>f_durable = log_bytes [sample_entry 0], f_visible = log_bytes [sample_entry 0, sample_entry 2],
      f_pending = [\<lparr>pw_offset = 63, pw_bytes = batch_enc (sample_entry 2)\<rparr>]\<rparr>"

definition sample_disk :: SimDisk where
  "sample_disk = (SimDisk_new no_faults)
     \<lparr>sd_files := [(sample_path, sample_file)], sd_dirs := {'''', ''/'', ''d''},
      sd_open := [0 \<mapsto> \<lparr>hd_path = sample_path, hd_mode = kCreate\<rparr>], sd_next_id := 1\<rparr>"

definition sample_crashed :: SimDisk where
  "sample_crashed = sample_disk
     \<lparr>sd_crashes := 1, sd_bytes_lost := 63, sd_powered := False, sd_open := (\<lambda>_. None),
      sd_files := [(sample_path, \<lparr>f_durable = log_bytes [sample_entry 0], f_visible = log_bytes [sample_entry 0],
                                  f_pending = []\<rparr>)]\<rparr>"

lemma sample_entry_wf: "batch_wf (fst (sample_entry bo)) (snd (sample_entry bo))"
  by (simp add: sample_entry_def sample_batch_wf)

lemma length_sample_entry: "length (batch_enc (sample_entry bo)) = 63"
  by (simp add: sample_entry_def batch_enc_def)

lemma sample_chain: "chain 0 [sample_entry 0, sample_entry 2]"
  using batch_wf_next_offset [OF sample_entry_wf, of 0] sample_batch_wf
  by (simp add: sample_entry_def finished_header_def unsealed_header_def)

lemma sample_paths:
  "normalize (join_path ''d'' (log_name 0)) = sample_path"
  "normalize (join_path ''d'' (index_name 0)) \<noteq> sample_path"
  by (simp_all add: sample_path_def log_name_def index_name_def offset_to_name_def join_path_def normalize.simps
      kOffsetDigits_def kLogSuffix_def kIndexSuffix_def numeral_eq_Suc)

lemma sample_disk_ok: "sim_ok sample_disk"
  by (simp add: sim_ok_def sample_disk_def SimDisk_new_def sample_file_def file_ok_def apply_write_def
      length_sample_entry consts_of apply_bytes_append [of "batch_enc (sample_entry 0)", unfolded length_sample_entry])

lemma sample_healthy: "sim_healthy (sample_disk, r)"
  using sample_disk_ok
  by (simp add: sim_healthy_def sample_disk_def SimDisk_new_def no_faults_def sample_path_def)

lemma sample_split: "flushed_split sample_segment sample_disk [sample_entry 0] [sample_entry 2]"
  by (simp add: flushed_split_def sample_segment_def sample_disk_def sample_file_def length_sample_entry Segment_new_def)

lemma sample_inv: "seg_inv sample_segment (sim_view (sample_disk, r)) [sample_entry 0, sample_entry 2]"
  using sample_chain
  by (simp add: seg_inv_def sample_segment_def Segment_new_def sample_options_def sample_disk_def sim_view_def
      fs_file_def sample_file_def length_sample_entry hints_hold_def chain_end_def)
    (simp add: sample_entry_def)

lemma sample_crash: "SimDisk_crash seeded_ops (sample_disk, r) = Some (sample_crashed, r)"
  by (simp add: SimDisk_crash_def sample_disk_def sample_crashed_def SimDisk_new_def sample_file_def
      no_faults_def tear_probability_def round_double_def crash_applied_def no_error length_sample_entry)

lemma sample_reboot: "sim_healthy (SimDisk_power_on sample_crashed, r)"
  using crash_ok [OF sample_disk_ok sample_crash]
  by (simp add: sim_healthy_def SimDisk_power_on_def sim_ok_def)
    (simp add: sample_crashed_def sample_disk_def SimDisk_new_def no_faults_def sample_path_def)

lemma sample_append:
  "\<exists>sg' x'. Segment_append (sim_disk_ops seeded_ops) (batch_bytes (fst (sample_entry 4)) (snd (sample_entry 4)))
       (fst (sample_entry 4)) sample_segment (sample_disk, r) = (Inr (), sg', x') \<and> sim_healthy x'"
proof -
  let ?x = "(sample_disk, r)" and ?h = "fst (sample_entry 4)" and ?vs = "snd (sample_entry 4)"
  have off: "bh_base_offset ?h = 4" by (simp add: sample_entry_def finished_header_def unsealed_header_def)
  have len: "length (batch_bytes ?h ?vs) = 63" using length_sample_entry [of 4] by (simp add: batch_enc_def)
  have h: "sim_healthy ?x" by (rule sample_healthy)
  let ?pw = "dk_pwrite (sim_disk_ops seeded_ops) (sg_log_file sample_segment) (batch_bytes ?h ?vs)
      (ucast (sg_size_bytes sample_segment)) ?x"
  have "\<exists>y. ?pw = (Inr (length (batch_bytes ?h ?vs)), y)"
    by (rule sim_rel.pwrite_total [OF h, where p = sample_path and m = kCreate])
      (simp_all add: sample_segment_def Segment_new_def sample_disk_def sim_view_def sample_file_def consts_of len del: length_batch_bytes)
  then obtain x' where pw: "?pw = (Inr (length (batch_bytes ?h ?vs)), x')" by blast
  then obtain sg' where a: "Segment_append (sim_disk_ops seeded_ops) (batch_bytes ?h ?vs) ?h sample_segment ?x = (Inr (), sg', x')"
    using off len by (auto simp: Segment_append_def) (simp_all add: sample_segment_def Segment_new_def sample_options_def)
  have h': "sim_healthy x'"
    using sim_rel.healthy_pwrite [OF h] pw by (metis snd_conv)
  show ?thesis using a h' by blast
qed

text \<open>
  The same segment with an index sidecar on the disk. Its first entry names the boundary between the
  two batches; the second points into the middle of the second batch, at bytes that are no header.
\<close>

definition sample_index :: SparseIndex where
  "sample_index = [\<lparr>rel_offset = 2, file_pos = 63\<rparr>, \<lparr>rel_offset = 3, file_pos = 80\<rparr>]"

definition sample_index_path :: string where
  "sample_index_path = ''d/00000000000000000000.index''"

definition sample_index_file :: File where
  "sample_index_file =
     \<lparr>f_durable = concat (map entry_bytes sample_index), f_visible = concat (map entry_bytes sample_index),
      f_pending = []\<rparr>"

definition sample_side_disk :: SimDisk where
  "sample_side_disk = sample_disk\<lparr>sd_files := [(sample_index_path, sample_index_file), (sample_path, sample_file)]\<rparr>"

definition sample_side_crashed :: SimDisk where
  "sample_side_crashed = sample_crashed
     \<lparr>sd_files := [(sample_index_path, sample_index_file),
                   (sample_path, \<lparr>f_durable = log_bytes [sample_entry 0], f_visible = log_bytes [sample_entry 0],
                                  f_pending = []\<rparr>)]\<rparr>"

lemma sample_index_ok: "index_ok sample_index"
  by (simp add: index_ok_def sample_index_def)

lemma sample_index_paths:
  "normalize (join_path ''d'' (index_name 0)) = sample_index_path" "sample_index_path < sample_path"
  "sample_path \<noteq> sample_index_path"
  by (simp_all add: sample_path_def sample_index_path_def index_name_def offset_to_name_def join_path_def normalize.simps
      kOffsetDigits_def kIndexSuffix_def numeral_eq_Suc less_char_def)

lemma sample_side_ok: "sim_ok sample_side_disk"
  using sample_disk_ok sample_index_paths
  by (auto simp: sim_ok_def sample_side_disk_def sample_index_file_def file_ok_def length_encoded sample_index_def consts_of)
    (auto simp: sample_disk_def SimDisk_new_def split: if_splits)

lemma sample_side_split: "flushed_split sample_segment sample_side_disk [sample_entry 0] [sample_entry 2]"
  using sample_index_paths(3)
  by (simp add: flushed_split_def sample_segment_def sample_side_disk_def sample_disk_def sample_file_def
      length_sample_entry Segment_new_def)

lemma sample_side_view:
  "fs_handles (sim_view (sample_side_disk, r)) = fs_handles (sim_view (sample_disk, r))"
  "fs_files (sim_view (sample_side_disk, r)) sample_path = fs_files (sim_view (sample_disk, r)) sample_path"
  "fs_files (sim_view (sample_side_disk, r)) sample_index_path = Some (concat (map entry_bytes sample_index))"
  using sample_index_paths(3)
  by (simp_all add: sim_view_def sample_side_disk_def sample_disk_def sample_index_file_def)

lemma sample_side_inv: "seg_inv sample_segment (sim_view (sample_side_disk, r)) [sample_entry 0, sample_entry 2]"
proof -
  have "fs_handles (sim_view (sample_disk, r)) (sg_log_file sample_segment) = Some (sample_path, kCreate)"
    by (simp add: sim_view_def sample_disk_def sample_segment_def Segment_new_def)
  then show ?thesis using sample_inv [of r] by (simp add: seg_inv_def fs_file_def sample_side_view)
qed

lemma sample_side_healthy: "sim_healthy (sample_side_disk, r)"
  using sample_side_ok
  by (simp add: sim_healthy_def sample_side_disk_def sample_disk_def SimDisk_new_def no_faults_def sample_path_def
      sample_index_path_def)

lemma sample_side_crash: "SimDisk_crash seeded_ops (sample_side_disk, r) = Some (sample_side_crashed, r)"
  by (simp add: SimDisk_crash_def sample_side_disk_def sample_side_crashed_def sample_disk_def sample_crashed_def
      SimDisk_new_def sample_file_def sample_index_file_def
      no_faults_def tear_probability_def round_double_def crash_applied_def no_error length_sample_entry)

lemma sample_side_reboot: "sim_healthy (SimDisk_power_on sample_side_crashed, r)"
  using crash_ok [OF sample_side_ok sample_side_crash]
  by (simp add: sim_healthy_def SimDisk_power_on_def sim_ok_def)
    (simp add: sample_side_crashed_def sample_crashed_def sample_disk_def SimDisk_new_def no_faults_def sample_path_def
      sample_index_path_def)

lemma sample_index_checked:
  assumes "e \<in> set (SparseIndex_decode (concat (map entry_bytes sample_index)) ls)"
    and "looks_like (log_bytes [sample_entry 0, sample_entry 2]) 0 e"
  shows "boundary 0 [sample_entry 0, sample_entry 2] (unat (file_pos e)) (0 + ucast (rel_offset e))"
proof -
  have "e \<in> set sample_index"
    using decode_encoded [OF sample_index_ok, of "[]" ls] assms(1) by simp
  moreover have "\<not> looks_like (log_bytes [sample_entry 0, sample_entry 2]) 0 \<lparr>rel_offset = 3, file_pos = 80\<rparr>"
    by (simp add: looks_like_def decode_header_def kBatchHeaderBytes_def length_sample_entry)
  ultimately have e: "e = \<lparr>rel_offset = 2, file_pos = 63\<rparr>" using assms(2) by (auto simp: sample_index_def)
  have "chain_end 0 [sample_entry 0] = 2" using sample_chain by (simp add: chain_end_def) (simp add: sample_entry_def)
  then show ?thesis
    unfolding boundary_def by (intro exI [of _ "[sample_entry 0]"] exI [of _ "[sample_entry 2]"])
      (simp add: e length_sample_entry)
qed

lemma sample_side_checked:
  "sidecar_checked sample_side_disk sample_index_path 0 [sample_entry 0, sample_entry 2]"
  unfolding sidecar_checked_def
proof (intro allI impI ballI)
  fix g img ls e
  assume g: "map_of (sd_files sample_side_disk) sample_index_path = Some g"
    and img: "img \<in> crash_images (f_pending g) (f_durable g)"
    and e: "e \<in> set (SparseIndex_decode img ls)" "looks_like (log_bytes [sample_entry 0, sample_entry 2]) 0 e"
  have "img = concat (map entry_bytes sample_index)"
    using g img by (auto simp: sample_side_disk_def sample_index_file_def crash_images_def)
  then show "boundary 0 [sample_entry 0, sample_entry 2] (unat (file_pos e)) (0 + ucast (rel_offset e))"
    using sample_index_checked e by blast
qed

section \<open>Properties\<close>

text \<open>C2. Durability across a power cut. A segment whose flushed batches are \<open>ds\<close> and whose unflushed
  ones are \<open>es\<close> loses power, whatever of the unflushed writes the disk keeps, tears or drops. When
  it can be opened again, it holds every flushed batch, followed by a leading part of the unflushed
  ones, and nothing else; its next offset continues that chain. This assumes of the index sidecar that
  whatever the power cut leaves of it, an entry that passes recovery's header check names a batch
  boundary; entries that fail the check may be arbitrary. There is no such entry without a sidecar, and
  \<open>sidecar_ok_checked\<close>, \<open>append_sidecar_ok\<close>, \<open>fsync_sidecar_ok\<close> and \<open>flush_index_sidecar_ok\<close> show it of
  every sidecar written by an index flush and followed by appends and flushes. It is an assumption
  after a truncation or an earlier power cut, which leave stale entries in the sidecar. When the
  sidecar is honest the reopened index names boundaries as well.\<close>

theorem flushed_batches_survive:
  assumes "sim_ok d" and "seg_inv sg (sim_view (d, r)) (ds @ es)" and "flushed_split sg d ds es"
    and "map_option hd_path (sd_open d (sg_log_file sg)) = Some (normalize (join_path dir (log_name (sg_base_offset sg))))"
    and "sidecar_checked d (normalize (join_path dir (index_name (sg_base_offset sg)))) (sg_base_offset sg) (ds @ es)"
    and "SimDisk_crash rops (d, r) = Some (d1, r1)" and "unat (sd_next_id d) + 2 < 2 ^ 64"
    and "Segment_open (sim_disk_ops rops) dir (sg_base_offset sg) options (SimDisk_power_on d1, r1) = (Inr sg', x)"
  shows "\<exists>k \<le> length es. seg_holds sg' (sim_view x) (ds @ take k es) \<and> sg_base_offset sg' = sg_base_offset sg \<and>
           sg_next_offset sg' = chain_end (sg_base_offset sg) (ds @ take k es) \<and>
           (sidecar_ok d (normalize (join_path dir (index_name (sg_base_offset sg)))) (sg_base_offset sg) (ds @ es) \<longrightarrow>
            seg_inv sg' (sim_view x) (ds @ take k es))"
proof -
  let ?base = "sg_base_offset sg" and ?bs = "ds @ es"
  let ?p = "normalize (join_path dir (log_name ?base))" and ?q = "normalize (join_path dir (index_name ?base))"
  have ch: "chain ?base ?bs" using assms(2) by (simp add: seg_inv_def)
  have small: "length (log_bytes ?bs) < 4294967296"
    using assms(2) unat_u32_bound [of "sg_size_bytes sg"] by (simp add: seg_inv_def del: unat_u32_bound)
  obtain f where f: "map_of (sd_files d) ?p = Some f" "f_durable f = log_bytes ds"
      "appending (length (f_durable f)) (f_pending f)" "f_visible f = log_bytes ?bs"
    using assms(3,4) by (auto simp: flushed_split_def)
  obtain n where n: "length (log_bytes ds) \<le> n"
    and c: "map_option f_visible (map_of (sd_files d1) ?p) = Some (take n (log_bytes ?bs))"
    using crash_prefix [OF assms(1,6) f(1,3)] f by auto
  let ?c = "take n (log_bytes ?bs)" and ?y = "(SimDisk_power_on d1, r1)"
  have valid: "sim_valid ?y"
    using crash_ok [OF assms(1,6)] by (simp add: sim_valid_def SimDisk_power_on_def sim_ok_def)
  have view: "fs_files (sim_view ?y) = (\<lambda>p. map_option f_visible (map_of (sd_files d1) p))" "1 < fs_ids (sim_view ?y)"
    using crash_file(3) [OF assms(6)] assms(7) by (simp_all add: sim_view_def SimDisk_power_on_def)
  have c': "?c = (case fs_files (sim_view ?y) ?p of None \<Rightarrow> [] | Some c \<Rightarrow> c)" using c view(1) by auto
  have checked: "hints_checked ?base ?c (SparseIndex_decode s (of_nat (length ?c)))"
    if "fs_files (sim_view ?y) ?q = Some s" for s
    using checked_after_crash [OF ch assms(5,6)] that view(1) by simp
  have honest: "hints_honest ?base ?c (SparseIndex_decode s (of_nat (length ?c)))"
    if "sidecar_ok d ?q ?base ?bs" "fs_files (sim_view ?y) ?q = Some s" for s
    using honest_after_crash [OF assms(1) ch that(1) small assms(6)] that(2) view(1) by simp
  note run = sim.open_holds [OF valid view(2) c' checked assms(8)]
  have "parse_batches ?base ?c = ds @ whole_within (n - length (log_bytes ds)) es"
    using parse_batches_cut [OF ch] whole_within_append [OF n] by simp
  then obtain k where k: "k \<le> length es" "parse_batches ?base ?c = ds @ take k es"
    using whole_within_take [of es "n - length (log_bytes ds)"] by auto
  have "seg_holds sg' (sim_view x) (ds @ take k es)" "sg_base_offset sg' = ?base"
    "sidecar_ok d ?q ?base ?bs \<Longrightarrow> seg_inv sg' (sim_view x) (ds @ take k es)"
    using run honest unfolding k(2) by blast+
  then show ?thesis using k(1) by (auto simp: seg_holds_def)
qed

theorem flushed_batches_survive_witness:
  "\<exists>sg' x. Segment_open (sim_disk_ops seeded_ops) ''d'' 0 sample_options (SimDisk_power_on sample_side_crashed, reseed 1)
            = (Inr sg', x) \<and>
     (\<exists>k \<le> length [sample_entry 2]. seg_holds sg' (sim_view x) ([sample_entry 0] @ take k [sample_entry 2]) \<and>
        sg_next_offset sg' = chain_end 0 ([sample_entry 0] @ take k [sample_entry 2]))"
proof -
  let ?y = "(SimDisk_power_on sample_side_crashed, reseed 1)"
  have files: "fs_files (sim_view ?y) (normalize (join_path ''d'' (log_name 0))) = Some (log_bytes [sample_entry 0])"
    and ids: "1 < fs_ids (sim_view ?y)"
    using sample_index_paths(3)
    by (simp_all add: sim_view_def SimDisk_power_on_def sample_side_crashed_def sample_crashed_def sample_disk_def
        SimDisk_new_def sample_paths)
  obtain sg' x where run: "Segment_open (sim_disk_ops seeded_ops) ''d'' 0 sample_options ?y = (Inr sg', x)"
    using sim_rel.open_total [OF sample_side_reboot ids files, of sample_options seeded_ops]
    by (auto simp: length_sample_entry sample_options_def consts_of)
  have base: "sg_base_offset sample_segment = 0" by (simp add: sample_segment_def Segment_new_def)
  have "seg_inv sample_segment (sim_view (sample_side_disk, reseed 1)) ([sample_entry 0] @ [sample_entry 2])"
    using sample_side_inv by simp
  from flushed_batches_survive [OF sample_side_ok this sample_side_split _ _ sample_side_crash, of "''d''" sample_options sg' x]
  show ?thesis
    using run base sample_paths(1) sample_index_paths(1) sample_side_checked
    by (auto simp: sample_side_disk_def sample_disk_def sample_segment_def SimDisk_new_def Segment_new_def)
qed

text \<open>C30. An append that succeeds extends the chain in the file by exactly the batch given, at the offset
  the segment expected next, and is within reach of a power cut; once a flush succeeds the batch and
  everything before it is out of reach.\<close>

theorem append_then_fsync_flushed:
  assumes "sim_ok d" and "seg_inv sg (sim_view (d, r)) (ds @ es)" and "flushed_split sg d ds es"
    and "batch_wf h vs"
    and "Segment_append (sim_disk_ops rops) (batch_bytes h vs) h sg (d, r) = (Inr (), sg', (d', r'))"
    and "Segment_fsync (sim_disk_ops rops) sg' (d', r') = (Inr (), (d'', r''))"
  shows "bh_base_offset h = sg_next_offset sg \<and> sg_next_offset sg' = next_offset h \<and>
         flushed_split sg' d' ds (es @ [(h, vs)]) \<and>
         seg_inv sg' (sim_view (d'', r'')) (ds @ es @ [(h, vs)]) \<and>
         flushed_split sg' d'' (ds @ es @ [(h, vs)]) []"
proof -
  have v: "sim_valid (d, r)" using assms(1) by (simp add: sim_valid_def)
  have a: "sim_valid (d', r')" "seg_inv sg' (sim_view (d', r')) (ds @ es @ [(h, vs)])"
    using sim.append_ok [OF v assms(2,4,5)] unfolding append_assoc by blast+
  have "sim_view (d'', r'') = sim_view (d', r')"
    using sim.fsync_view [OF a(1), of rops "sg_log_file sg'" "Inr ()" "(d'', r'')"] assms(6) by (simp add: Segment_fsync_def)
  moreover note fs = append_flushed_split [OF assms(1-5)]
  moreover have "flushed_split sg' d'' (ds @ es @ [(h, vs)]) []"
    using fsync_flushed_split [OF _ fs assms(6)] a(1) by (simp add: sim_valid_def)
  moreover have "bh_base_offset h = sg_next_offset sg" "sg_next_offset sg' = next_offset h"
    using assms(5) by (auto simp: Segment_append_def split: if_splits prod.splits sum.splits)
  ultimately show ?thesis using a(2) by simp
qed

theorem append_then_fsync_flushed_witness:
  "\<exists>sg' d' d''.
     Segment_append (sim_disk_ops seeded_ops) (batch_enc (sample_entry 4)) (fst (sample_entry 4)) sample_segment
       (sample_disk, reseed 1) = (Inr (), sg', (d', reseed 1)) \<and>
     Segment_fsync (sim_disk_ops seeded_ops) sg' (d', reseed 1) = (Inr (), (d'', reseed 1)) \<and>
     flushed_split sg' d'' [sample_entry 0, sample_entry 2, sample_entry 4] []"
proof -
  let ?x = "(sample_disk, reseed 1)" and ?h = "fst (sample_entry 4)" and ?vs = "snd (sample_entry 4)"
  obtain sg' x' where a: "Segment_append (sim_disk_ops seeded_ops) (batch_bytes ?h ?vs) ?h sample_segment ?x = (Inr (), sg', x')"
    and h': "sim_healthy x'"
    using sample_append by blast
  obtain d' r' where x': "x' = (d', r')" by force
  have inv: "seg_inv sg' (sim_view x') ([sample_entry 0, sample_entry 2] @ [(?h, ?vs)])"
    using sim.append_ok [OF sim_rel.healthy_valid [OF sample_healthy] sample_inv sample_entry_wf a] by blast
  then obtain x'' where f: "Segment_fsync (sim_disk_ops seeded_ops) sg' x' = (Inr (), x'')"
    using sim_rel.fsync_total [OF h'] by (fastforce simp: Segment_fsync_def seg_inv_def)
  obtain d'' r'' where x'': "x'' = (d'', r'')" by force
  have "r' = reseed 1" "r'' = reseed 1"
    using a f x' x'' by (auto simp: Segment_append_def Segment_fsync_def sim_disk_ops_def SimDisk_pwrite_def SimDisk_fsync_def
        SimDisk_resolve_def no_error sample_disk_def SimDisk_new_def no_faults_def Let_def split: if_splits prod.splits sum.splits option.splits)
  then show ?thesis
    using append_then_fsync_flushed [OF sample_disk_ok _ sample_split sample_entry_wf, of "reseed 1" seeded_ops 4 sg' d' r' d'' r'']
      sample_inv [of "reseed 1"] a f x' x'' by (auto simp: batch_enc_def)
qed

text \<open>C8. Recovery never gives up on content. On a disk that answers, opening a segment file longer than
  a segment may be is refused with \<^verbatim>\<open>kCorruptRecord\<close> and leaves every file as it was; any other file
  opens, whatever bytes it and its index sidecar hold. If moreover every sidecar entry that passes
  recovery's header check names a batch boundary (there is none without a sidecar), the segment holds
  exactly the longest leading run of valid batches whose offsets continue one another from the base
  offset, and the file is cut to it. Batches before an entry that recovery trusts are not read again,
  so without that condition nothing is claimed of what is held. Without a sidecar the new index names
  boundaries too.\<close>

theorem open_recovers_any_content:
  assumes "sim_healthy x" and "1 < fs_ids (sim_view x)"
    and "fs_files (sim_view x) (normalize (join_path dir (log_name b))) = Some c"
    and "length c \<le> kMaxFileBytes"
  shows "if unat (so_max_bytes options) < length c
         then \<exists>x'. Segment_open (sim_disk_ops rops) dir b options x = (Inl kCorruptRecord, x') \<and>
                fs_files (sim_view x') = fs_files (sim_view x)
         else \<exists>sg x'. Segment_open (sim_disk_ops rops) dir b options x = (Inr sg, x') \<and>
           ((\<forall>s. fs_files (sim_view x) (normalize (join_path dir (index_name b))) = Some s \<longrightarrow>
                hints_checked b c (SparseIndex_decode s (of_nat (length c)))) \<longrightarrow>
            seg_holds sg (sim_view x') (parse_batches b c) \<and>
            fs_files (sim_view x') (normalize (join_path dir (log_name b))) = Some (log_bytes (parse_batches b c)) \<and>
            sg_next_offset sg = chain_end b (parse_batches b c) \<and>
            (fs_files (sim_view x) (normalize (join_path dir (index_name b))) = None \<longrightarrow>
             seg_inv sg (sim_view x') (parse_batches b c)))"
proof (cases "unat (so_max_bytes options) < length c")
  case True
  have "0 < fs_ids (sim_view x)" using assms(2) by simp
  from sim_rel.open_too_large [OF assms(1) this assms(3) True, of rops] True show ?thesis by auto
next
  case False
  let ?q = "normalize (join_path dir (index_name b))"
  have c: "c = (case fs_files (sim_view x) (normalize (join_path dir (log_name b))) of None \<Rightarrow> [] | Some c \<Rightarrow> c)"
    using assms(3) by simp
  have v: "sim_valid x" using assms(1) by (rule sim_rel.healthy_valid)
  obtain sg x' where run: "Segment_open (sim_disk_ops rops) dir b options x = (Inr sg, x')"
    using sim_rel.open_total [OF assms(1,2,3) leI [OF False] assms(4), of rops] by blast
  have "seg_holds sg (sim_view x') (parse_batches b c) \<and>
      fs_files (sim_view x') (normalize (join_path dir (log_name b))) = Some (log_bytes (parse_batches b c)) \<and>
      sg_next_offset sg = chain_end b (parse_batches b c) \<and>
      (fs_files (sim_view x) ?q = None \<longrightarrow> seg_inv sg (sim_view x') (parse_batches b c))"
    if checked: "\<forall>s. fs_files (sim_view x) ?q = Some s \<longrightarrow> hints_checked b c (SparseIndex_decode s (of_nat (length c)))"
  proof -
    have "hints_checked b c (SparseIndex_decode s (of_nat (length c)))" if "fs_files (sim_view x) ?q = Some s" for s
      using checked that by blast
    from sim.open_holds [OF v assms(2) c this run] show ?thesis by (auto simp: seg_holds_def)
  qed
  then show ?thesis using False run by auto
qed

theorem open_recovers_any_content_witness:
  "(\<exists>sg x'. Segment_open (sim_disk_ops seeded_ops) ''d'' 0 sample_options (sample_side_disk, reseed 1) = (Inr sg, x') \<and>
     seg_holds sg (sim_view x') (parse_batches 0 (log_bytes [sample_entry 0, sample_entry 2])) \<and>
     fs_files (sim_view x') (normalize (join_path ''d'' (log_name 0)))
       = Some (log_bytes (parse_batches 0 (log_bytes [sample_entry 0, sample_entry 2]))) \<and>
     sg_next_offset sg = chain_end 0 (parse_batches 0 (log_bytes [sample_entry 0, sample_entry 2]))) \<and>
   (\<exists>x'. Segment_open (sim_disk_ops seeded_ops) ''d'' 0 (sample_options\<lparr>so_max_bytes := 100\<rparr>) (sample_side_disk, reseed 1)
       = (Inl kCorruptRecord, x'))"
proof -
  let ?x = "(sample_side_disk, reseed 1)" and ?bs = "[sample_entry 0, sample_entry 2]"
  have file_eq: "fs_files (sim_view ?x) (normalize (join_path ''d'' (log_name 0))) = Some (log_bytes ?bs)"
    unfolding sample_paths sample_side_view by (simp add: sim_view_def sample_disk_def SimDisk_new_def sample_file_def)
  have side: "fs_files (sim_view ?x) (normalize (join_path ''d'' (index_name 0))) = Some (concat (map entry_bytes sample_index))"
    unfolding sample_index_paths sample_side_view by (rule refl)
  have ids: "1 < fs_ids (sim_view ?x)" by (simp add: sim_view_def sample_side_disk_def sample_disk_def SimDisk_new_def)
  have len: "length (log_bytes ?bs) = 126" by (simp add: length_sample_entry)
  then have cap: "length (log_bytes ?bs) \<le> kMaxFileBytes" by (simp add: consts_of)
  have "parse_batches 0 (log_bytes ?bs) = ?bs"
    using parse_batches_cut [OF sample_chain, of 126] len by (simp add: length_sample_entry)
  then have "hints_checked 0 (log_bytes ?bs) (SparseIndex_decode (concat (map entry_bytes sample_index)) ls)" for ls
    using sample_index_checked [of _ ls] by (simp add: hints_checked_def)
  note checked = this
  note opened = open_recovers_any_content [OF sample_side_healthy ids file_eq cap, where rops = seeded_ops]
  show ?thesis
    using opened [of sample_options] opened [of "sample_options\<lparr>so_max_bytes := 100\<rparr>"] checked
    unfolding side len by (simp add: sample_options_def, blast)
qed

text \<open>C31. Reading. On a disk that answers, a read returns for every offset and every buffer size: nothing
  exactly when the reader is at the end, \<^verbatim>\<open>kMessageTooLarge\<close> exactly when the batch with the wanted
  offset does not fit the buffer, and otherwise that batch and as many whole batches after it as fit.
  It changes nothing.\<close>

theorem segment_read_spec:
  assumes "sim_healthy x" and "seg_inv sg (sim_view x) bs" and "no_wrap (sg_base_offset sg) bs" and "bs \<noteq> []"
  shows "\<exists>x'. Segment_read (sim_disk_ops rops) sg offset n x = Some (read_spec n (batch_at offset bs), x') \<and>
              sim_healthy x' \<and> sim_view x' = sim_view x \<and>
              (batch_at offset bs = [] \<longleftrightarrow> sg_next_offset sg \<le> offset) \<and>
              (\<forall>b ws. batch_at offset bs = b # ws \<longrightarrow>
                 offset < next_offset (fst b) \<and> (sg_base_offset sg \<le> offset \<longrightarrow> bh_base_offset (fst b) \<le> offset))"
proof -
  have ch: "chain (sg_base_offset sg) bs" and nx: "sg_next_offset sg = chain_end (sg_base_offset sg) bs"
    using assms(2) by (simp_all add: seg_inv_def)
  have "offset < next_offset (fst b) \<and> (sg_base_offset sg \<le> offset \<longrightarrow> bh_base_offset (fst b) \<le> offset)"
    if at: "batch_at offset bs = b # ws" for b ws
  proof
    show "offset < next_offset (fst b)"
      using dropWhile_eq_Cons_conv [of "\<lambda>b. next_offset (fst b) \<le> offset" bs b ws] at by (simp add: batch_at_def not_le)
    show "sg_base_offset sg \<le> offset \<longrightarrow> bh_base_offset (fst b) \<le> offset"
      using batch_at_covers [OF ch at] by blast
  qed
  then show ?thesis
    using sim_rel.read_total [OF assms(1-3), of rops offset n] batch_at_end [OF ch assms(3)] nx assms(4) by auto
qed

theorem segment_read_spec_witness:
  "\<exists>x'. Segment_read (sim_disk_ops seeded_ops) sample_segment 3 100 (sample_disk, reseed 1)
          = Some (read_spec 100 (batch_at 3 [sample_entry 0, sample_entry 2]), x') \<and>
        sim_healthy x' \<and> sim_view x' = sim_view (sample_disk, reseed 1) \<and>
        (batch_at 3 [sample_entry 0, sample_entry 2] = [] \<longleftrightarrow> sg_next_offset sample_segment \<le> 3) \<and>
        (\<forall>b ws. batch_at 3 [sample_entry 0, sample_entry 2] = b # ws \<longrightarrow>
           3 < next_offset (fst b) \<and> (sg_base_offset sample_segment \<le> 3 \<longrightarrow> bh_base_offset (fst b) \<le> 3))"
  by (rule segment_read_spec [OF sample_healthy sample_inv])
    (simp_all add: no_wrap_def sample_segment_def Segment_new_def sample_entry_def)

text \<open>C32. Truncation, at every offset, on a disk that answers. At or past the next offset there is
  nothing to cut and nothing changes. At an offset inside the segment at which a batch begins, exactly
  the batches before it are left, in the file and in what the segment knows; at any other offset inside
  the segment the cut is refused with \<^verbatim>\<open>kInvalidArgument\<close> and nothing changes. An offset before the base
  offset is accepted: the file is emptied and the next offset is set to the offset, below the base, which
  the log never asks for since it drops such a segment whole.\<close>

theorem segment_truncate_spec:
  assumes "sim_healthy x" and "seg_inv sg (sim_view x) bs" and "no_wrap (sg_base_offset sg) bs"
    and "length (log_bytes bs) \<le> kMaxFileBytes"
  shows "\<exists>st sg' x'. Segment_truncate_to (sim_disk_ops rops) offset sg x = Some (st, sg', x') \<and> sim_healthy x' \<and>
           (if sg_next_offset sg \<le> offset then st = Inr () \<and> sg' = sg \<and> sim_view x' = sim_view x
            else if offset < sg_base_offset sg
            then st = Inr () \<and> sg' = sg\<lparr>sg_size_bytes := 0, sg_next_offset := offset, sg_index := []\<rparr> \<and>
                 sim_view x' = fs_put (sg_log_file sg) [] (sim_view x)
            else if \<exists>b \<in> set bs. bh_base_offset (fst b) = offset
            then st = Inr () \<and> (\<exists>us ws. bs = us @ ws \<and> chain_end (sg_base_offset sg) us = offset \<and>
                   sim_view x' = fs_put (sg_log_file sg) (log_bytes us) (sim_view x) \<and> seg_inv sg' (sim_view x') us \<and>
                   same_identity sg sg')
            else st = Inl kInvalidArgument \<and> sg' = sg \<and> sim_view x' = sim_view x)"
proof -
  have next_eq: "sg_next_offset sg = chain_end (sg_base_offset sg) bs" using assms(2) by (simp add: seg_inv_def)
  consider "sg_next_offset sg \<le> offset" | "\<not> sg_next_offset sg \<le> offset" "offset < sg_base_offset sg"
    | "\<not> sg_next_offset sg \<le> offset" "sg_base_offset sg \<le> offset" by (metis not_less)
  then show ?thesis
  proof cases
    case 1
    then show ?thesis using assms(1) by (simp add: Segment_truncate_to_def)
  next
    case 2
    then show ?thesis using sim_rel.truncate_below_total [OF assms(1-3)] by auto
  next
    case 3
    then have "offset < chain_end (sg_base_offset sg) bs" using next_eq by (simp add: not_le)
    from sim_rel.truncate_to_total [OF assms(1-3) 3(2) this assms(4)] show ?thesis
      using 3 by (simp add: starts_at_def leD)
  qed
qed

text \<open>The three answers for a base offset of zero: a cut, a refusal, and nothing to do.\<close>

theorem segment_truncate_spec_witness:
  "(\<exists>sg' x' us ws. Segment_truncate_to (sim_disk_ops seeded_ops) 2 sample_segment (sample_disk, reseed 1)
       = Some (Inr (), sg', x') \<and> [sample_entry 0, sample_entry 2] = us @ ws \<and> chain_end 0 us = 2 \<and>
     seg_inv sg' (sim_view x') us) \<and>
   (\<exists>x'. Segment_truncate_to (sim_disk_ops seeded_ops) 3 sample_segment (sample_disk, reseed 1)
       = Some (Inl kInvalidArgument, sample_segment, x')) \<and>
   (\<exists>x'. Segment_truncate_to (sim_disk_ops seeded_ops) 9 sample_segment (sample_disk, reseed 1)
       = Some (Inr (), sample_segment, x'))"
proof -
  have nw: "no_wrap (sg_base_offset sample_segment) [sample_entry 0, sample_entry 2]"
    and len: "length (log_bytes [sample_entry 0, sample_entry 2]) \<le> kMaxFileBytes"
    and seg: "sg_base_offset sample_segment = 0" "sg_next_offset sample_segment = 4"
    and off: "bh_base_offset (fst (sample_entry bo)) = bo" for bo
    by (simp_all add: no_wrap_def sample_segment_def Segment_new_def length_sample_entry consts_of)
      (simp_all add: sample_entry_def finished_header_def unsealed_header_def)
  note cut = segment_truncate_spec [OF sample_healthy [of "reseed 1"] sample_inv nw len, where rops = seeded_ops, unfolded seg]
  have "\<exists>b \<in> set [sample_entry 0, sample_entry 2]. bh_base_offset (fst b) = 2" by (simp add: off)
  with cut [of 2] obtain sg' x' us ws where
    "Segment_truncate_to (sim_disk_ops seeded_ops) 2 sample_segment (sample_disk, reseed 1) = Some (Inr (), sg', x')"
    "[sample_entry 0, sample_entry 2] = us @ ws" "chain_end 0 us = 2" "seg_inv sg' (sim_view x') us"
    by (simp del: split_paired_Ex, blast)
  moreover have "\<not> (\<exists>b \<in> set [sample_entry 0, sample_entry 2]. bh_base_offset (fst b) = 3)" by (simp add: off)
  with cut [of 3] have "\<exists>x'. Segment_truncate_to (sim_disk_ops seeded_ops) 3 sample_segment (sample_disk, reseed 1)
       = Some (Inl kInvalidArgument, sample_segment, x')"
    by (simp del: split_paired_Ex, blast)
  moreover from cut [of 9] have "\<exists>x'. Segment_truncate_to (sim_disk_ops seeded_ops) 9 sample_segment (sample_disk, reseed 1)
       = Some (Inr (), sample_segment, x')"
    by (simp del: split_paired_Ex, blast)
  ultimately show ?thesis by blast
qed

end
