(* ===== verification/Log_Store.thy ===== *)
theory Log_Store
  imports Segment_Durability
begin

text \<open>
  \<^verbatim>\<open>src/src/storage/log.h\<close> and \<^verbatim>\<open>log.cpp\<close>: the log of a partition, an ordered run
  of segments in one directory, over an arbitrary disk. The last segment takes the appends; the
  vector of segments is a list whose last element is the active one. Destructors are explicit:
  \<open>Log_destroy\<close> flushes the indexes and closes every segment.
\<close>

section \<open>State (\<^verbatim>\<open>log.h\<close>)\<close>

record EpochBoundary =
  eb_epoch :: u32
  eb_start_offset :: u64

record LogRecoveryReport =
  lr_segments_opened :: u64
  lr_segments_discarded :: u64
  lr_batches_scanned :: u64
  lr_bytes_truncated :: u64
  lr_truncated :: bool

definition LogRecoveryReport_new :: LogRecoveryReport where
  "LogRecoveryReport_new =
     \<lparr>lr_segments_opened = 0, lr_segments_discarded = 0, lr_batches_scanned = 0,
      lr_bytes_truncated = 0, lr_truncated = False\<rparr>"

record LogOptions =
  lo_segment_max_bytes :: u32
  lo_index_interval_bytes :: u32

record Log =
  lg_dir :: string
  lg_options :: LogOptions
  lg_segments :: "Segment list"
  lg_start_offset :: u64
  lg_next_offset :: u64
  lg_recovery :: LogRecoveryReport

definition Log_new :: "string \<Rightarrow> LogOptions \<Rightarrow> Log" where
  "Log_new dir options =
     \<lparr>lg_dir = dir, lg_options = options, lg_segments = [], lg_start_offset = 0, lg_next_offset = 0,
      lg_recovery = LogRecoveryReport_new\<rparr>"

abbreviation Log_active :: "Log \<Rightarrow> Segment" where
  "Log_active lg \<equiv> last (lg_segments lg)"

definition Log_set_active :: "Segment \<Rightarrow> Log \<Rightarrow> Log" where
  "Log_set_active sg lg = lg\<lparr>lg_segments := butlast (lg_segments lg) @ [sg]\<rparr>"

section \<open>Flushing the indexes and closing (\<^verbatim>\<open>log.cpp\<close>)\<close>

fun flush_index_list :: "'d disk_ops \<Rightarrow> Segment list \<Rightarrow> status \<Rightarrow> 'd \<Rightarrow> status \<times> 'd" where
  "flush_index_list ops [] res d = (res, d)"
| "flush_index_list ops (sg # sgs) res d =
     (case Segment_flush_index ops sg d of
        (Inl e, d) \<Rightarrow> flush_index_list ops sgs (fail e) d
      | (Inr _, d) \<Rightarrow> flush_index_list ops sgs res d)"

definition Log_flush_indexes :: "'d disk_ops \<Rightarrow> Log \<Rightarrow> 'd \<Rightarrow> status \<times> 'd" where
  "Log_flush_indexes ops lg d = flush_index_list ops (lg_segments lg) (Inr ()) d"

definition Log_destroy :: "'d disk_ops \<Rightarrow> Log \<Rightarrow> 'd \<Rightarrow> 'd" where
  "Log_destroy ops lg d = fold (Segment_destroy ops) (lg_segments lg) (snd (Log_flush_indexes ops lg d))"

section \<open>Opening\<close>

fun parse_log_names :: "string list \<Rightarrow> u64 list" where
  "parse_log_names [] = []"
| "parse_log_names (n # ns) =
     (case parse_log_name n of Inr b \<Rightarrow> b # parse_log_names ns | Inl e \<Rightarrow> parse_log_names ns)"

definition existing_segment_offsets :: "'d disk_ops \<Rightarrow> Log \<Rightarrow> 'd \<Rightarrow> u64 list result \<times> 'd" where
  "existing_segment_offsets ops lg d =
     (case dk_list_directory ops (lg_dir lg) d of
        (Inl e, d) \<Rightarrow> (fail e, d)
      | (Inr names, d) \<Rightarrow> (Inr (sort (parse_log_names names)), d))"

definition Log_add_segment :: "'d disk_ops \<Rightarrow> u64 \<Rightarrow> Log \<Rightarrow> 'd \<Rightarrow> status \<times> Log \<times> 'd" where
  "Log_add_segment ops base_offset lg d =
     (let seg_options = \<lparr>so_max_bytes = lo_segment_max_bytes (lg_options lg),
                         so_index_interval_bytes = lo_index_interval_bytes (lg_options lg)\<rparr>
      in case Segment_open ops (lg_dir lg) base_offset seg_options d of
           (Inl e, d) \<Rightarrow> (fail e, lg, d)
         | (Inr sg, d) \<Rightarrow> (Inr (), lg\<lparr>lg_segments := lg_segments lg @ [sg]\<rparr>, d))"

definition remove_segment_files :: "'d disk_ops \<Rightarrow> string \<Rightarrow> u64 \<Rightarrow> 'd \<Rightarrow> 'd" where
  "remove_segment_files ops dir base_offset d =
     (let d = snd (dk_remove ops (join_path dir (log_name base_offset)) d)
      in snd (dk_remove ops (join_path dir (index_name base_offset)) d))"

definition count_recovery :: "RecoveryReport \<Rightarrow> LogRecoveryReport \<Rightarrow> LogRecoveryReport" where
  "count_recovery r rep =
     rep\<lparr>lr_segments_opened := lr_segments_opened rep + 1,
         lr_batches_scanned := lr_batches_scanned rep + rr_batches_scanned r,
         lr_bytes_truncated := lr_bytes_truncated rep + rr_bytes_truncated r,
         lr_truncated := lr_truncated rep \<or> rr_truncated r\<rparr>"

text \<open>
  The loop over the bases found. It stops at a hole and after a segment that lost its tail, and
  leaves the bases that are to be discarded.
\<close>

fun recover_segments ::
  "'d disk_ops \<Rightarrow> u64 list \<Rightarrow> Log \<Rightarrow> 'd \<Rightarrow> u64 list result \<times> Log \<times> 'd" where
  "recover_segments ops [] lg d = (Inr [], lg, d)"
| "recover_segments ops (b # bases) lg d =
     (if lg_segments lg \<noteq> [] \<and> b \<noteq> sg_next_offset (Log_active lg) then (Inr (b # bases), lg, d)
      else case Log_add_segment ops b lg d of
             (Inl e, lg, d) \<Rightarrow> (fail e, lg, d)
           | (Inr _, lg, d) \<Rightarrow>
               let r = sg_recovery (Log_active lg);
                   lg = lg\<lparr>lg_recovery := count_recovery r (lg_recovery lg)\<rparr>
               in if rr_truncated r then (Inr bases, lg, d) else recover_segments ops bases lg d)"

fun discard_segments :: "'d disk_ops \<Rightarrow> u64 list \<Rightarrow> Log \<Rightarrow> 'd \<Rightarrow> Log \<times> 'd" where
  "discard_segments ops [] lg d = (lg, d)"
| "discard_segments ops (b # bases) lg d =
     discard_segments ops bases
       (lg\<lparr>lg_recovery := (lg_recovery lg)\<lparr>lr_segments_discarded := lr_segments_discarded (lg_recovery lg) + 1\<rparr>\<rparr>)
       (remove_segment_files ops (lg_dir lg) b d)"

definition Log_set_offsets :: "Log \<Rightarrow> Log" where
  "Log_set_offsets lg =
     lg\<lparr>lg_start_offset := sg_base_offset (hd (lg_segments lg)),
        lg_next_offset := sg_next_offset (Log_active lg)\<rparr>"

definition Log_recover :: "'d disk_ops \<Rightarrow> Log \<Rightarrow> 'd \<Rightarrow> status \<times> Log \<times> 'd" where
  "Log_recover ops lg d =
     (case existing_segment_offsets ops lg d of
        (Inl e, d) \<Rightarrow> (fail e, lg, d)
      | (Inr bases, d) \<Rightarrow>
          (case recover_segments ops bases lg d of
             (Inl e, lg, d) \<Rightarrow> (fail e, lg, d)
           | (Inr dropped, lg, d) \<Rightarrow>
               (case discard_segments ops dropped lg d of
                  (lg, d) \<Rightarrow>
                    if lg_segments lg = []
                    then case Log_add_segment ops 0 lg d of
                           (Inl e, lg, d) \<Rightarrow> (fail e, lg, d)
                         | (Inr _, lg, d) \<Rightarrow>
                             (Inr (),
                              Log_set_offsets
                                (lg\<lparr>lg_recovery := (lg_recovery lg)
                                      \<lparr>lr_segments_opened := lr_segments_opened (lg_recovery lg) + 1\<rparr>\<rparr>), d)
                    else (Inr (), Log_set_offsets lg, d))))"

definition Log_open :: "'d disk_ops \<Rightarrow> string \<Rightarrow> LogOptions \<Rightarrow> 'd \<Rightarrow> Log result \<times> 'd" where
  "Log_open ops dir options d =
     (case dk_make_directories ops dir d of
        (Inl e, d) \<Rightarrow> (fail e, d)
      | (Inr _, d) \<Rightarrow>
          (case Log_recover ops (Log_new dir options) d of
             (Inl e, lg, d) \<Rightarrow> (fail e, Log_destroy ops lg d)
           | (Inr _, lg, d) \<Rightarrow> (Inr lg, d)))"

section \<open>Appending\<close>

definition Log_roll :: "'d disk_ops \<Rightarrow> Log \<Rightarrow> 'd \<Rightarrow> status \<times> Log \<times> 'd" where
  "Log_roll ops lg d =
     (case Segment_fsync ops (Log_active lg) d of
        (Inl e, d) \<Rightarrow> (fail e, lg, d)
      | (Inr _, d) \<Rightarrow>
          (case Segment_flush_index ops (Log_active lg) d of
             (Inl e, d) \<Rightarrow> (fail e, lg, d)
           | (Inr _, d) \<Rightarrow> Log_add_segment ops (lg_next_offset lg) lg d))"

text \<open>Both append paths roll when the batch does not fit what is left of a segment in use.\<close>

definition make_room :: "'d disk_ops \<Rightarrow> nat \<Rightarrow> Log \<Rightarrow> 'd \<Rightarrow> status \<times> Log \<times> 'd" where
  "make_room ops n lg d =
     (if \<not> Segment_empty (Log_active lg) \<and>
         n > unat (lo_segment_max_bytes (lg_options lg) - sg_size_bytes (Log_active lg))
      then Log_roll ops lg d else (Inr (), lg, d))"

text \<open>And both hand the framed batch to the active segment and advance the offset.\<close>

definition append_active :: "'d disk_ops \<Rightarrow> bytes \<Rightarrow> BatchHeader \<Rightarrow> Log \<Rightarrow> 'd \<Rightarrow> status \<times> Log \<times> 'd" where
  "append_active ops framed h lg d =
     (case Segment_append ops framed h (Log_active lg) d of
        (Inl e, sg, d) \<Rightarrow> (fail e, Log_set_active sg lg, d)
      | (Inr _, sg, d) \<Rightarrow> (Inr (), (Log_set_active sg lg)\<lparr>lg_next_offset := next_offset h\<rparr>, d))"

definition Log_append ::
  "'d disk_ops \<Rightarrow> BatchBuilder \<Rightarrow> BatchMeta \<Rightarrow> Log \<Rightarrow> 'd \<Rightarrow> u64 result \<times> BatchBuilder \<times> Log \<times> 'd" where
  "Log_append ops builder meta lg d =
     (if BatchBuilder_empty builder then (fail kInvalidRequest, builder, lg, d)
      else if BatchBuilder_framed_bytes builder > unat (lo_segment_max_bytes (lg_options lg))
           then (fail kMessageTooLarge, builder, lg, d)
      else case make_room ops (BatchBuilder_framed_bytes builder) lg d of
             (Inl e, lg, d) \<Rightarrow> (fail e, builder, lg, d)
           | (Inr _, lg, d) \<Rightarrow>
               let base_offset = lg_next_offset lg;
                   (framed, builder) = BatchBuilder_finish base_offset meta builder
               in case decode_header framed of
                    Inl e \<Rightarrow> (fail e, builder, lg, d)
                  | Inr h \<Rightarrow>
                      (case append_active ops framed h lg d of
                         (Inl e, lg, d) \<Rightarrow> (fail e, builder, lg, d)
                       | (Inr _, lg, d) \<Rightarrow> (Inr base_offset, builder, lg, d)))"

definition Log_append_replicated :: "'d disk_ops \<Rightarrow> bytes \<Rightarrow> Log \<Rightarrow> 'd \<Rightarrow> status \<times> Log \<times> 'd" where
  "Log_append_replicated ops framed lg d =
     (case decode_header framed of
        Inl e \<Rightarrow> (fail e, lg, d)
      | Inr h \<Rightarrow>
          if length framed \<noteq> total_bytes h then (fail kInvalidRequest, lg, d)
          else if bh_base_offset h \<noteq> lg_next_offset lg then (fail kInvalidArgument, lg, d)
          else if \<not> result_ok (validate_batch framed) then (fail kCorruptRecord, lg, d)
          else if length framed > unat (lo_segment_max_bytes (lg_options lg)) then (fail kMessageTooLarge, lg, d)
          else case make_room ops (length framed) lg d of
                 (Inl e, lg, d) \<Rightarrow> (fail e, lg, d)
               | (Inr _, lg, d) \<Rightarrow> append_active ops framed h lg d)"

section \<open>Truncating\<close>

text \<open>Whole segments from the cut on are dropped, newest first, but never the last one left.\<close>

function drop_segments :: "'d disk_ops \<Rightarrow> u64 \<Rightarrow> Log \<Rightarrow> 'd \<Rightarrow> Log \<times> 'd" where
  "drop_segments ops offset lg d =
     (if length (lg_segments lg) > 1 \<and> sg_base_offset (Log_active lg) \<ge> offset
      then let base = sg_base_offset (Log_active lg);
               d = Segment_destroy ops (Log_active lg) d
           in drop_segments ops offset (lg\<lparr>lg_segments := butlast (lg_segments lg)\<rparr>)
                (remove_segment_files ops (lg_dir lg) base d)
      else (lg, d))"
  by pat_completeness auto
termination
  by (relation "measure (\<lambda>(_, _, lg, _). length (lg_segments lg))") auto

declare drop_segments.simps [simp del]

definition Log_truncate_to :: "'d disk_ops \<Rightarrow> u64 \<Rightarrow> Log \<Rightarrow> 'd \<Rightarrow> (status \<times> Log \<times> 'd) option" where
  "Log_truncate_to ops offset lg d =
     (if offset > lg_next_offset lg then Some (fail kInvalidArgument, lg, d)
      else if offset < lg_start_offset lg then Some (fail kInvalidArgument, lg, d)
      else if offset = lg_next_offset lg then Some (Inr (), lg, d)
      else case drop_segments ops offset lg d of
             (lg, d) \<Rightarrow>
               (case Segment_truncate_to ops offset (Log_active lg) d of
                  None \<Rightarrow> None
                | Some (Inl e, sg, d) \<Rightarrow> Some (fail e, Log_set_active sg lg, d)
                | Some (Inr _, sg, d) \<Rightarrow>
                    Some (Inr (), (Log_set_active sg lg)\<lparr>lg_next_offset := sg_next_offset sg\<rparr>, d)))"

section \<open>Epochs, flushing and reading\<close>

text \<open>The visitor of \<^verbatim>\<open>scan_epochs\<close>: one boundary per change of epoch.\<close>

definition note_epoch :: "EpochBoundary list \<Rightarrow> BatchHeader \<Rightarrow> EpochBoundary list \<times> bool" where
  "note_epoch epochs h =
     (if epochs = [] \<or> eb_epoch (last epochs) \<noteq> bh_leader_epoch h
      then epochs @ [\<lparr>eb_epoch = bh_leader_epoch h, eb_start_offset = bh_base_offset h\<rparr>]
      else epochs, True)"

fun scan_epochs_list ::
  "'d disk_ops \<Rightarrow> Segment list \<Rightarrow> EpochBoundary list \<Rightarrow> 'd \<Rightarrow> (EpochBoundary list result \<times> 'd) option" where
  "scan_epochs_list ops [] epochs d = Some (Inr epochs, d)"
| "scan_epochs_list ops (sg # sgs) epochs d =
     (case Segment_scan_headers ops sg note_epoch epochs d of
        None \<Rightarrow> None
      | Some (Inl e, _, d) \<Rightarrow> Some (fail e, d)
      | Some (Inr _, epochs, d) \<Rightarrow> scan_epochs_list ops sgs epochs d)"

definition Log_scan_epochs :: "'d disk_ops \<Rightarrow> Log \<Rightarrow> 'd \<Rightarrow> (EpochBoundary list result \<times> 'd) option" where
  "Log_scan_epochs ops lg d = scan_epochs_list ops (lg_segments lg) [] d"

definition Log_fsync :: "'d disk_ops \<Rightarrow> Log \<Rightarrow> 'd \<Rightarrow> status \<times> 'd" where
  "Log_fsync ops lg d = Segment_fsync ops (Log_active lg) d"

fun read_segments ::
  "'d disk_ops \<Rightarrow> Segment list \<Rightarrow> u64 \<Rightarrow> nat \<Rightarrow> 'd \<Rightarrow> (bytes result \<times> 'd) option" where
  "read_segments ops [] offset out_size d = Some (Inr [], d)"
| "read_segments ops (sg # sgs) offset out_size d =
     (case Segment_read ops sg offset out_size d of
        None \<Rightarrow> None
      | Some (Inl e, d) \<Rightarrow> Some (fail e, d)
      | Some (Inr got, d) \<Rightarrow>
          if length got > 0 then Some (Inr got, d) else read_segments ops sgs offset out_size d)"

definition Log_read :: "'d disk_ops \<Rightarrow> Log \<Rightarrow> u64 \<Rightarrow> nat \<Rightarrow> 'd \<Rightarrow> (bytes result \<times> 'd) option" where
  "Log_read ops lg offset out_size d =
     (if offset \<ge> lg_next_offset lg then Some (Inr [], d)
      else if offset < lg_start_offset lg then Some (fail kOffsetOutOfRange, d)
      else let i = upper_bound (\<lambda>target sg. target < sg_base_offset sg) (lg_segments lg) offset;
               i = (if i > 0 then i - 1 else i)
           in read_segments ops (drop i (lg_segments lg)) offset out_size d)"

end
