(* ===== verification/Log_Ops.thy ===== *)
theory Log_Ops
  imports Log_Store
begin

text \<open>
  What a log promises, on any disk that meets the contract: its segments hold one chain of batches
  between them, each beginning at the offset the one before ends at, each in a file of its own. An
  append adds one batch at the end of the chain, a read returns whole batches of it, a truncation
  leaves the batches before a boundary, the epoch scan is a function of it, and recovery rebuilds
  it from the files.
\<close>

section \<open>Paths\<close>

text \<open>A file name is not touched by the disk's own normalisation of paths.\<close>

locale log_disk = reliable_disk ops valid view canon healthy cap
  for ops :: "'d disk_ops" and valid view canon healthy cap +
  assumes canon_file: "p \<noteq> [] \<Longrightarrow> last p \<noteq> CHR ''/'' \<Longrightarrow> canon p = p"

lemma normalize_file: "p \<noteq> [] \<Longrightarrow> last p \<noteq> CHR ''/'' \<Longrightarrow> normalize p = p"
  by (subst normalize.simps) simp

interpretation sim_log: log_disk "sim_disk_ops rops" sim_valid sim_view normalize sim_healthy kMaxFileBytes
  by unfold_locales (rule normalize_file)

lemma log_name_inj: "log_name v = log_name w \<Longrightarrow> v = w"
proof -
  have b: "unat v < 10 ^ 20" "unat w < 10 ^ 20"
    using unat_u64_bound [of v] unat_u64_bound [of w] by (simp_all del: unat_u64_bound)
  assume "log_name v = log_name w"
  then have "unat v = unat w" using decimal_inj [OF b] by (simp add: log_name_eq)
  then show "v = w" by (rule unsigned_word_eqI)
qed

lemma last_names: "log_name b \<noteq> []" "last (log_name b) = CHR ''g''" "index_name b \<noteq> []" "last (index_name b) = CHR ''x''"
  by (simp_all add: log_name_def index_name_def offset_to_name_def kLogSuffix_def kIndexSuffix_def)

lemma join_path_inj: "join_path dir n = join_path dir m \<longleftrightarrow> n = m"
  by (simp add: join_path_def)

lemma last_join_path: "n \<noteq> [] \<Longrightarrow> last (join_path dir n) = last n \<and> join_path dir n \<noteq> []"
  by (simp add: join_path_def)

lemma log_path_not_index_path: "join_path dir (log_name b) \<noteq> join_path dir (index_name c)"
proof
  assume "join_path dir (log_name b) = join_path dir (index_name c)"
  then have "last (log_name b) = last (index_name c)" by (simp add: join_path_inj)
  then show False by (simp add: last_names)
qed

context log_disk
begin

lemma canon_log_path: "canon (join_path dir (log_name b)) = join_path dir (log_name b)"
  and canon_index_path: "canon (join_path dir (index_name b)) = join_path dir (index_name b)"
  using last_join_path last_names by (simp_all add: canon_file)

end

section \<open>The invariant\<close>

definition log_segment_options :: "Log \<Rightarrow> SegmentOptions" where
  "log_segment_options lg =
     \<lparr>so_max_bytes = lo_segment_max_bytes (lg_options lg),
      so_index_interval_bytes = lo_index_interval_bytes (lg_options lg)\<rparr>"

text \<open>What the invariant says of one segment.\<close>

definition seg_here :: "string \<Rightarrow> SegmentOptions \<Rightarrow> fs \<Rightarrow> u64 \<Rightarrow> Segment \<Rightarrow> batch list \<Rightarrow> bool" where
  "seg_here dir opts v off sg bs \<longleftrightarrow>
     seg_inv sg v bs \<and> sg_base_offset sg = off \<and> sg_options sg = opts \<and>
     sg_index_path sg = join_path dir (index_name off) \<and>
     fs_handles v (sg_log_file sg) = Some (join_path dir (log_name off), kCreate)"

text \<open>
  Segments \<open>sgs\<close> in directory \<open>dir\<close> hold the chains \<open>bss\<close>, one each, the first from
  offset \<open>off\<close> and each of the others from where the one before ends; only the last may be empty.
\<close>

fun segs_inv :: "string \<Rightarrow> SegmentOptions \<Rightarrow> fs \<Rightarrow> u64 \<Rightarrow> Segment list \<Rightarrow> batch list list \<Rightarrow> bool" where
  "segs_inv dir opts v off [] bss \<longleftrightarrow> bss = []"
| "segs_inv dir opts v off (sg # sgs) bss \<longleftrightarrow>
     (case bss of
        [] \<Rightarrow> False
      | bs # bss \<Rightarrow>
          seg_here dir opts v off sg bs \<and> (sgs \<noteq> [] \<longrightarrow> bs \<noteq> []) \<and> segs_inv dir opts v (chain_end off bs) sgs bss)"

definition log_inv :: "Log \<Rightarrow> fs \<Rightarrow> batch list list \<Rightarrow> bool" where
  "log_inv lg v bss \<longleftrightarrow>
     lg_segments lg \<noteq> [] \<and>
     segs_inv (lg_dir lg) (log_segment_options lg) v (lg_start_offset lg) (lg_segments lg) bss \<and>
     lg_next_offset lg = chain_end (lg_start_offset lg) (concat bss) \<and>
     no_wrap (lg_start_offset lg) (concat bss)"

lemma segs_inv_append:
  "segs_inv dir opts v off (sgs @ [sg]) (init @ [bs]) \<longleftrightarrow>
   segs_inv dir opts v off sgs init \<and> (\<forall>b \<in> set init. b \<noteq> []) \<and>
   seg_here dir opts v (chain_end off (concat init)) sg bs"
proof (induction sgs arbitrary: off init)
  case Nil
  show ?case by (cases init) auto
next
  case (Cons s sgs)
  show ?case
  proof (cases init)
    case Nil
    then show ?thesis by (cases sgs) auto
  next
    case (Cons bs' init')
    then show ?thesis using Cons.IH [of "chain_end off bs'" init'] by (auto simp: chain_end_append)
  qed
qed

lemma segs_inv_length: "segs_inv dir opts v off sgs bss \<Longrightarrow> length sgs = length bss"
proof (induction sgs arbitrary: off bss)
  case (Cons sg sgs)
  then show ?case by (cases bss) auto
qed simp

lemma segs_inv_chain: "segs_inv dir opts v off sgs bss \<Longrightarrow> chain off (concat bss)"
proof (induction sgs arbitrary: off bss)
  case (Cons sg sgs)
  then show ?case by (cases bss) (auto simp: chain_append seg_inv_def seg_here_def)
qed simp

lemma log_inv_chain: "log_inv lg v bss \<Longrightarrow> chain (lg_start_offset lg) (concat bss)"
  unfolding log_inv_def using segs_inv_chain by blast

lemma log_inv_active:
  assumes "log_inv lg v bss"
  obtains sgs sg init bs where "lg_segments lg = sgs @ [sg]" and "bss = init @ [bs]"
    and "segs_inv (lg_dir lg) (log_segment_options lg) v (lg_start_offset lg) sgs init"
    and "\<forall>b \<in> set init. b \<noteq> []"
    and "seg_here (lg_dir lg) (log_segment_options lg) v (chain_end (lg_start_offset lg) (concat init)) sg bs"
proof -
  obtain sgs sg where sgs: "lg_segments lg = sgs @ [sg]"
    using assms by (cases "lg_segments lg" rule: rev_cases) (auto simp: log_inv_def)
  have "length bss = Suc (length sgs)"
    using assms sgs segs_inv_length by (fastforce simp: log_inv_def)
  then obtain init bs where bss: "bss = init @ [bs]" by (cases bss rule: rev_cases) auto
  show thesis
    using that [OF sgs bss] assms sgs bss segs_inv_append by (auto simp: log_inv_def)
qed

lemma log_invI:
  assumes "lg_segments lg = sgs @ [sg]" and "bss = init @ [bs]"
    and "segs_inv (lg_dir lg) (log_segment_options lg) v (lg_start_offset lg) sgs init"
    and "\<forall>b \<in> set init. b \<noteq> []"
    and "seg_here (lg_dir lg) (log_segment_options lg) v (chain_end (lg_start_offset lg) (concat init)) sg bs"
    and "lg_next_offset lg = chain_end (lg_start_offset lg) (concat bss)"
    and "no_wrap (lg_start_offset lg) (concat bss)"
  shows "log_inv lg v bss"
  using assms by (simp add: log_inv_def segs_inv_append)

section \<open>Frames\<close>

lemma seg_inv_frame:
  assumes "seg_inv sg v bs" and "fs_handles v (sg_log_file sg) = Some (p, m)"
    and "fs_handles v' (sg_log_file sg) = Some (p, m)" and "fs_files v' p = fs_files v p"
  shows "seg_inv sg v' bs"
  using assms by (simp add: seg_inv_def fs_file_def)

lemma seg_here_frame:
  assumes "seg_here dir opts v off sg bs"
    and "fs_handles v' (sg_log_file sg) = fs_handles v (sg_log_file sg)"
    and "fs_files v' (join_path dir (log_name off)) = fs_files v (join_path dir (log_name off))"
  shows "seg_here dir opts v' off sg bs"
  using assms seg_inv_frame [of sg v bs "join_path dir (log_name off)" kCreate v'] by (simp add: seg_here_def)

lemma segs_inv_frame:
  assumes "segs_inv dir opts v off sgs bss"
    and "\<And>sg. sg \<in> set sgs \<Longrightarrow>
      fs_handles v' (sg_log_file sg) = fs_handles v (sg_log_file sg) \<and>
      fs_files v' (join_path dir (log_name (sg_base_offset sg))) = fs_files v (join_path dir (log_name (sg_base_offset sg)))"
  shows "segs_inv dir opts v' off sgs bss"
  using assms
proof (induction sgs arbitrary: off bss)
  case (Cons sg sgs)
  then obtain bs bss' where bss: "bss = bs # bss'" by (cases bss) auto
  have sg: "seg_here dir opts v off sg bs" "segs_inv dir opts v (chain_end off bs) sgs bss'" "sgs \<noteq> [] \<longrightarrow> bs \<noteq> []"
    using Cons.prems(1) bss by simp_all
  then have "sg_base_offset sg = off" by (simp add: seg_here_def)
  then have "seg_here dir opts v' off sg bs"
    using Cons.prems(2) [of sg] by (intro seg_here_frame [OF sg(1)]) simp_all
  moreover have "segs_inv dir opts v' (chain_end off bs) sgs bss'"
    using Cons.prems(2) by (intro Cons.IH [OF sg(2)]) simp
  ultimately show ?case using sg(3) bss by simp
qed simp

lemma segs_inv_handle:
  assumes "segs_inv dir opts v off sgs bss" and "sg \<in> set sgs"
  shows "fs_handles v (sg_log_file sg) = Some (join_path dir (log_name (sg_base_offset sg)), kCreate)"
  using assms
proof (induction sgs arbitrary: off bss)
  case (Cons s sgs)
  then obtain bs bss' where bss: "bss = bs # bss'" by (cases bss) auto
  then show ?case using Cons by (cases "sg = s") (auto simp: seg_here_def)
qed simp

text \<open>The segments of a log begin at offsets of their own, all at or before its end.\<close>

lemma segs_inv_bases:
  assumes "segs_inv dir opts v off sgs init" and "\<forall>b \<in> set init. b \<noteq> []" and "no_wrap off (concat init)"
    and "sg \<in> set sgs"
  shows "sg_base_offset sg < chain_end off (concat init)"
  using assms
proof (induction sgs arbitrary: off init)
  case (Cons s sgs)
  then obtain bs bss where init: "init = bs # bss" by (cases init) auto
  have ch: "chain off bs" "bs \<noteq> []" using Cons.prems init by (auto simp: seg_inv_def seg_here_def)
  then have pos: "0 < nrecs bs"
    using chain_batch_wf [OF ch(1), of "hd bs"] by (cases bs) (auto simp: batch_wf_def)
  have nw: "no_wrap (chain_end off bs) (concat bss)"
    using Cons.prems(3) init unat_chain_end [of off bs] by (simp add: no_wrap_def)
  have eq: "chain_end (chain_end off bs) (concat bss) = chain_end off (concat init)"
    by (simp add: init chain_end_append)
  have "off < chain_end off (concat init)"
    using unat_chain_end [OF Cons.prems(3)] pos by (simp add: init word_less_nat_alt)
  moreover have "sg_base_offset sg < chain_end off (concat init)" if "sg \<in> set sgs"
    using Cons.IH [of "chain_end off bs" bss] Cons.prems init nw eq that by auto
  ultimately show ?case using Cons.prems init by (auto simp: seg_here_def)
qed simp

section \<open>Which segment holds an offset\<close>

lemma partitioned_split:
  assumes "\<forall>x \<in> set xs. q x" and "\<forall>y \<in> set ys. \<not> q y"
  shows "partitioned q (xs @ ys)" and "takeWhile q (xs @ ys) = xs"
proof -
  have "sorted_wrt (\<lambda>a b. q b \<longrightarrow> q a) xs" using assms(1) by (induction xs) auto
  moreover have "sorted_wrt (\<lambda>a b. q b \<longrightarrow> q a) ys" using assms(2) by (induction ys) auto
  ultimately show "partitioned q (xs @ ys)" using assms by (auto simp: partitioned_def sorted_wrt_append)
  show "takeWhile q (xs @ ys) = xs" using assms by (induction xs) (auto simp: takeWhile_eq_Nil_iff)
qed

lemma segs_base_ge:
  assumes "segs_inv dir opts v off sgs bss" and "no_wrap off (concat bss)" and "sg \<in> set sgs"
  shows "off \<le> sg_base_offset sg"
  using assms
proof (induction sgs arbitrary: off bss)
  case (Cons s sgs)
  then obtain bs bss' where bss: "bss = bs # bss'" by (cases bss) auto
  have nw: "no_wrap (chain_end off bs) (concat bss')" "no_wrap off bs"
    using Cons.prems(2) bss unat_chain_end [of off bs] by (simp_all add: no_wrap_def)
  have "off \<le> chain_end off bs" using unat_chain_end [OF nw(2)] by (simp add: word_le_nat_alt)
  then show ?case
    using Cons nw(1) bss by (cases "sg = s") (fastforce simp: seg_here_def)+
qed simp

lemma owner_split:
  assumes "segs_inv dir opts v off sgs bss" and "no_wrap off (concat bss)"
    and "off \<le> want" and "want < chain_end off (concat bss)"
  shows "\<exists>pre sg post ipre bs ipost. sgs = pre @ sg # post \<and> bss = ipre @ bs # ipost \<and>
           segs_inv dir opts v off pre ipre \<and>
           seg_here dir opts v (chain_end off (concat ipre)) sg bs \<and>
           chain_end off (concat ipre) \<le> want \<and> want < chain_end (chain_end off (concat ipre)) bs \<and>
           no_wrap (chain_end off (concat ipre)) bs \<and>
           (\<forall>s \<in> set pre. sg_base_offset s \<le> want) \<and> (\<forall>s \<in> set post. want < sg_base_offset s)"
  using assms
proof (induction sgs arbitrary: off bss)
  case (Cons s sgs)
  then obtain bs bss' where bss: "bss = bs # bss'" by (cases bss) auto
  have here: "seg_here dir opts v off s bs" and rest: "segs_inv dir opts v (chain_end off bs) sgs bss'"
    and ne: "sgs \<noteq> [] \<longrightarrow> bs \<noteq> []"
    using Cons.prems(1) bss by simp_all
  have nw: "no_wrap (chain_end off bs) (concat bss')" "no_wrap off bs"
    using Cons.prems(2) bss unat_chain_end [of off bs] by (simp_all add: no_wrap_def)
  have base: "sg_base_offset s = off" using here by (simp add: seg_here_def)
  show ?case
  proof (cases "want < chain_end off bs")
    case True
    then have "\<forall>t \<in> set sgs. want < sg_base_offset t"
      using segs_base_ge [OF rest nw(1)] order_less_le_trans by blast
    then show ?thesis
      using True here nw(2) Cons.prems(3) bss
      by (intro exI [of _ "[]"] exI [of _ s] exI [of _ sgs] exI [of _ "[]"] exI [of _ bs] exI [of _ bss']) simp
  next
    case False
    then have "chain_end off bs \<le> want" "want < chain_end (chain_end off bs) (concat bss')"
      using Cons.prems(4) bss by (simp_all add: chain_end_append)
    from Cons.IH [OF rest nw(1) this] obtain pre sg post ipre cs ipost where
      *: "sgs = pre @ sg # post" "bss' = ipre @ cs # ipost" "segs_inv dir opts v (chain_end off bs) pre ipre"
        "seg_here dir opts v (chain_end off (concat (bs # ipre))) sg cs"
        "chain_end off (concat (bs # ipre)) \<le> want" "want < chain_end (chain_end off (concat (bs # ipre))) cs"
        "no_wrap (chain_end off (concat (bs # ipre))) cs"
        "\<forall>s \<in> set pre. sg_base_offset s \<le> want" "\<forall>s \<in> set post. want < sg_base_offset s"
      by (auto simp: chain_end_append)
    moreover have "segs_inv dir opts v off (s # pre) (bs # ipre)" using *(1,3) here ne by simp
    ultimately show ?thesis
      using bss base Cons.prems(3)
      by (intro exI [of _ "s # pre"] exI [of _ sg] exI [of _ post] exI [of _ "bs # ipre"] exI [of _ cs] exI [of _ ipost]) simp
  qed
qed simp

lemma batch_at_concat:
  assumes "chain start (concat (ipre @ bs # ipost))" and "no_wrap start (concat (ipre @ bs # ipost))"
    and "chain_end start (concat ipre) \<le> want" and "want < chain_end (chain_end start (concat ipre)) bs"
  shows "batch_at want (concat (ipre @ bs # ipost)) = batch_at want bs @ concat ipost \<and> batch_at want bs \<noteq> []"
proof -
  let ?off = "chain_end start (concat ipre)"
  have nw: "no_wrap start (concat ipre)" using assms(2) by (simp add: no_wrap_def)
  have ch: "chain ?off bs" "no_wrap ?off bs"
    using assms(1,2) unat_chain_end [OF nw] by (simp_all add: chain_append no_wrap_def)
  have "bs \<noteq> []" using assms(3,4) by auto
  then have ne: "batch_at want bs \<noteq> []" using batch_at_end [OF ch] assms(4) by simp
  have "batch_at want (concat (ipre @ bs # ipost)) = batch_at want (bs @ concat ipost)"
    using batch_at_skip [of start "concat ipre" "bs @ concat ipost" want] assms(1-3) by simp
  also obtain b where "b \<in> set bs" "\<not> next_offset (fst b) \<le> want"
    using ne unfolding batch_at_def dropWhile_eq_Nil_conv by blast
  then have "batch_at want (bs @ concat ipost) = batch_at want bs @ concat ipost"
    unfolding batch_at_def by (rule dropWhile_append1)
  finally show ?thesis using ne by simp
qed

section \<open>Appending\<close>

text \<open>What no operation on a log changes, short of opening and closing it.\<close>

definition same_log :: "Log \<Rightarrow> Log \<Rightarrow> bool" where
  "same_log lg lg' \<longleftrightarrow>
     lg_dir lg' = lg_dir lg \<and> lg_options lg' = lg_options lg \<and> lg_start_offset lg' = lg_start_offset lg"

lemma same_log_options: "same_log lg lg' \<Longrightarrow> log_segment_options lg' = log_segment_options lg"
  by (simp add: same_log_def log_segment_options_def)

text \<open>A change of the disk that is confined to the contents of one file.\<close>

definition only_file :: "string \<Rightarrow> fs \<Rightarrow> fs \<Rightarrow> bool" where
  "only_file q v v' \<longleftrightarrow>
     fs_handles v' = fs_handles v \<and> fs_ids v' = fs_ids v \<and> (\<forall>p. p \<noteq> q \<longrightarrow> fs_files v' p = fs_files v p)"

lemma only_file_refl [simp]: "only_file q v v"
  by (simp add: only_file_def)

lemma only_file_trans: "only_file q u v \<Longrightarrow> only_file q v w \<Longrightarrow> only_file q u w"
  by (simp add: only_file_def)

lemma only_file_put: "fs_handles v f = Some (q, m) \<Longrightarrow> only_file q v (fs_put f c v)"
  by (simp add: only_file_def fs_put_def)

context log_disk
begin

lemma truncate_only:
  assumes "valid d" and "fs_handles (view d) f = Some (q, m)" and "dk_truncate ops f sz d = (r, d')"
  shows "valid d' \<and> only_file q (view d) (view d')"
proof (cases r)
  case (Inl e)
  then show ?thesis using truncate_fail assms(1,3) by auto
next
  case (Inr u)
  obtain c where "view d' = fs_put f (resize (unat sz) 0 c) (view d)" "valid d'"
    using truncate_ok [OF assms(1) assms(3) [unfolded Inr]] by blast
  then show ?thesis using only_file_put [OF assms(2)] by simp
qed

lemma pwrite_only:
  assumes "valid d" and "fs_handles (view d) f = Some (q, m)" and "dk_pwrite ops f s off d = (r, d')"
  shows "valid d' \<and> only_file q (view d) (view d')"
proof (cases r)
  case (Inl e)
  then show ?thesis using pwrite_fail assms(1,3) by auto
next
  case (Inr u)
  obtain c where "view d' = fs_put f (apply_bytes c (unat off) s) (view d)" "valid d'"
    using pwrite_ok [OF assms(1) assms(3) [unfolded Inr]] by blast
  then show ?thesis using only_file_put [OF assms(2)] by simp
qed

lemma flush_index_run:
  assumes "valid d" and "0 < fs_ids (view d)" and "sg_index_path sg = join_path dir (index_name b)"
    and "Segment_flush_index ops sg d = (st, d')"
  shows "valid d' \<and> fs_handles (view d') = fs_handles (view d) \<and> fs_ids (view d) - 1 \<le> fs_ids (view d') \<and>
         (\<forall>p. p \<noteq> join_path dir (index_name b) \<longrightarrow> fs_files (view d') p = fs_files (view d) p)"
proof -
  let ?q = "join_path dir (index_name b)" and ?out = "SparseIndex_encode (sg_index sg) Buffer_new"
  obtain fr d1 where fr: "dk_open ops ?q kCreate d = (fr, d1)" by force
  show ?thesis
  proof (cases fr)
    case (Inl e)
    then show ?thesis
      using assms(3,4) fr open_fail [OF assms(1) fr [unfolded Inl]] by (simp add: Segment_flush_index_def Let_def)
  next
    case (Inr f)
    have o: "valid d1" "fs_handles (view d) f = None" "view d1 = fs_open ?q kCreate f (view d)"
      using open_ok [OF assms(1,2) fr [unfolded Inr]] canon_index_path by simp_all
    have h1: "fs_handles (view d1) f = Some (?q, kCreate)" by (simp add: o fs_open_def)
    obtain tr d2 where tr: "dk_truncate ops f 0 d1 = (tr, d2)" by force
    note t = truncate_only [OF o(1) h1 tr]
    have h2: "fs_handles (view d2) f = Some (?q, kCreate)" using t h1 by (simp add: only_file_def)
    obtain pw d3 where pw: "dk_pwrite ops f (Buffer_slice ?out) 0 d2 = (pw, d3)" by force
    note p = pwrite_only [OF conjunct1 [OF t] h2 pw]
    have "d' = dk_close ops f d2 \<or> d' = dk_close ops f d3"
      using assms(3,4) fr Inr tr pw
      by (auto simp: Segment_flush_index_def Let_def split: sum.splits if_splits)
    moreover have "valid d2 \<and> only_file ?q (view d1) (view d2)" "valid d3 \<and> only_file ?q (view d1) (view d3)"
      using t p only_file_trans by blast+
    ultimately obtain x where x: "d' = dk_close ops f x" "valid x" "only_file ?q (view d1) (view x)" by blast
    have "view d' = fs_close f (view x)" "valid d'" using close [OF x(2)] x(1) by simp_all
    then show ?thesis
      using x(3) o(2,3) by (auto simp: fs_close_def fs_open_def only_file_def)
  qed
qed

lemma add_segment_ok:
  assumes "valid d" and "1 < fs_ids (view d)"
    and "c = (case fs_files (view d) (join_path (lg_dir lg) (log_name b)) of None \<Rightarrow> [] | Some c \<Rightarrow> c)"
    and "\<And>s. fs_files (view d) (join_path (lg_dir lg) (index_name b)) = Some s \<Longrightarrow>
           hints_honest b c (SparseIndex_decode s (of_nat (length c)))"
    and "Log_add_segment ops b lg d = (Inr u, lg', d')"
  shows "\<exists>sg. lg' = lg\<lparr>lg_segments := lg_segments lg @ [sg]\<rparr> \<and> valid d' \<and>
           seg_here (lg_dir lg) (log_segment_options lg) (view d') b sg (parse_batches b c) \<and>
           (\<forall>f. fs_handles (view d) f \<noteq> None \<longrightarrow> fs_handles (view d') f = fs_handles (view d) f) \<and>
           fs_files (view d') = (fs_files (view d))(join_path (lg_dir lg) (log_name b) \<mapsto> log_bytes (parse_batches b c))"
proof -
  obtain sg where sg: "Segment_open ops (lg_dir lg) b (log_segment_options lg) d = (Inr sg, d')"
    and lg': "lg' = lg\<lparr>lg_segments := lg_segments lg @ [sg]\<rparr>"
    using assms(5) by (auto simp: Log_add_segment_def log_segment_options_def Let_def split: prod.splits sum.splits)
  note run = open_run [OF assms(1,2) _ _ sg, unfolded canon_log_path canon_index_path, OF assms(3) assms(4)]
  show ?thesis using run lg' by (auto simp: seg_here_def)
qed

text \<open>
  Rolling: the active segment is flushed, its index written, and an empty segment opened after it.
  The path of the new segment must be free, as it is unless a removal failed.
\<close>

lemma roll_ok:
  assumes "valid d" and "log_inv lg (view d) bss" and "2 < fs_ids (view d)" and "last bss \<noteq> []"
    and "fs_files (view d) (join_path (lg_dir lg) (log_name (lg_next_offset lg))) = None"
    and "Log_roll ops lg d = (Inr u, lg', d')"
  shows "valid d' \<and> log_inv lg' (view d') (bss @ [[]]) \<and> same_log lg lg' \<and> lg_next_offset lg' = lg_next_offset lg"
proof -
  let ?dir = "lg_dir lg" and ?next = "lg_next_offset lg" and ?opts = "log_segment_options lg"
  obtain sgs sg init bs where sgs: "lg_segments lg = sgs @ [sg]" and bss: "bss = init @ [bs]"
    and rest: "segs_inv ?dir ?opts (view d) (lg_start_offset lg) sgs init" "\<forall>b \<in> set init. b \<noteq> []"
    and here: "seg_here ?dir ?opts (view d) (chain_end (lg_start_offset lg) (concat init)) sg bs"
    using log_inv_active [OF assms(2)] .
  obtain d1 d2 where f: "Segment_fsync ops sg d = (Inr (), d1)" and fi: "Segment_flush_index ops sg d1 = (Inr (), d2)"
    and add: "Log_add_segment ops ?next lg d2 = (Inr u, lg', d')"
    using assms(6) sgs by (auto simp: Log_roll_def split: prod.splits sum.splits)
  have d1: "valid d1" "view d1 = view d" using fsync_view [OF assms(1)] f by (auto simp: Segment_fsync_def)
  have "sg_index_path sg = join_path ?dir (index_name (chain_end (lg_start_offset lg) (concat init)))"
    using here by (simp add: seg_here_def)
  note fl = flush_index_run [OF d1(1) _ this fi]
  have d2: "valid d2" "fs_handles (view d2) = fs_handles (view d)" "1 < fs_ids (view d2)"
    "fs_files (view d2) (join_path ?dir (log_name b)) = fs_files (view d) (join_path ?dir (log_name b))" for b
    using fl d1(2) assms(3) log_path_not_index_path by auto
  have "hints_honest ?next [] (SparseIndex_decode s (of_nat (length [])))" for s
    using decode_bounded [of _ s 0] by (fastforce simp: hints_honest_def Let_def)
  then obtain sg2 where lg': "lg' = lg\<lparr>lg_segments := lg_segments lg @ [sg2]\<rparr>" and v: "valid d'"
    and here2: "seg_here ?dir ?opts (view d') ?next sg2 (parse_batches ?next [])"
    and handles: "\<forall>f. fs_handles (view d2) f \<noteq> None \<longrightarrow> fs_handles (view d') f = fs_handles (view d2) f"
    and files: "fs_files (view d') = (fs_files (view d2))(join_path ?dir (log_name ?next) \<mapsto> log_bytes (parse_batches ?next []))"
    using add_segment_ok [OF d2(1,3) _ _ add, of "[]"] d2(4) assms(5) by auto
  have parse: "parse_batches ?next [] = []" using parse_batches_log [of ?next "[]"] by simp
  have all: "segs_inv ?dir ?opts (view d) (lg_start_offset lg) (lg_segments lg) bss" "\<forall>b \<in> set bss. b \<noteq> []"
    using assms(2,4) bss rest(2) by (auto simp: log_inv_def)
  have nw: "no_wrap (lg_start_offset lg) (concat bss)" and nx: "?next = chain_end (lg_start_offset lg) (concat bss)"
    using assms(2) by (simp_all add: log_inv_def)
  have "segs_inv ?dir ?opts (view d') (lg_start_offset lg) (lg_segments lg) bss"
  proof (rule segs_inv_frame [OF all(1)])
    fix s assume s: "s \<in> set (lg_segments lg)"
    have "sg_base_offset s \<noteq> ?next" using segs_inv_bases [OF all nw s] nx by simp
    then have "join_path ?dir (log_name (sg_base_offset s)) \<noteq> join_path ?dir (log_name ?next)"
      using log_name_inj by (auto simp: join_path_inj)
    moreover have "fs_handles (view d) (sg_log_file s) \<noteq> None"
      using segs_inv_handle [OF all(1) s] by simp
    ultimately show "fs_handles (view d') (sg_log_file s) = fs_handles (view d) (sg_log_file s) \<and>
        fs_files (view d') (join_path ?dir (log_name (sg_base_offset s))) = fs_files (view d) (join_path ?dir (log_name (sg_base_offset s)))"
      using handles d2 files by auto
  qed
  then have "log_inv lg' (view d') (bss @ [[]])"
    using all(2) here2 nx nw parse lg' by (intro log_invI [where sgs = "lg_segments lg" and sg = sg2]) (simp_all add: log_segment_options_def)
  then show ?thesis using v lg' by (simp add: same_log_def)
qed

lemma append_active_ok:
  assumes "valid d" and "log_inv lg (view d) bss" and "batch_wf h vs"
    and "no_wrap (lg_start_offset lg) (concat bss @ [(h, vs)])"
    and "append_active ops (batch_bytes h vs) h lg d = (Inr u, lg', d')"
  shows "valid d' \<and> log_inv lg' (view d') (butlast bss @ [last bss @ [(h, vs)]]) \<and> same_log lg lg' \<and>
         bh_base_offset h = lg_next_offset lg \<and> lg_next_offset lg' = next_offset h"
proof -
  let ?dir = "lg_dir lg" and ?opts = "log_segment_options lg" and ?start = "lg_start_offset lg"
  obtain sgs sg init bs where sgs: "lg_segments lg = sgs @ [sg]" and bss: "bss = init @ [bs]"
    and rest: "segs_inv ?dir ?opts (view d) ?start sgs init" "\<forall>b \<in> set init. b \<noteq> []"
    and here: "seg_here ?dir ?opts (view d) (chain_end ?start (concat init)) sg bs"
    using log_inv_active [OF assms(2)] .
  have nw: "no_wrap ?start (concat bss)" and nx: "lg_next_offset lg = chain_end ?start (concat bss)"
    using assms(2) by (simp_all add: log_inv_def)
  obtain sg' where app: "Segment_append ops (batch_bytes h vs) h sg d = (Inr (), sg', d')"
    and lg': "lg' = (Log_set_active sg' lg)\<lparr>lg_next_offset := next_offset h\<rparr>"
    using assms(5) sgs by (auto simp: append_active_def split: prod.splits sum.splits)
  have inv: "seg_inv sg (view d) bs" and hd: "fs_handles (view d) (sg_log_file sg) = Some (join_path ?dir (log_name (sg_base_offset sg)), kCreate)"
    and base: "sg_base_offset sg = chain_end ?start (concat init)"
    using here by (auto simp: seg_here_def)
  note a = append_ok [OF assms(1) inv assms(3) app]
  have off: "bh_base_offset h = sg_next_offset sg"
    using app by (auto simp: Segment_append_def split: if_splits)
  then have nxt: "bh_base_offset h = lg_next_offset lg"
    using inv base nx bss by (simp add: seg_inv_def chain_end_append)
  have only: "only_file (join_path ?dir (log_name (sg_base_offset sg))) (view d) (view d')"
    using a only_file_put [OF hd] by simp
  have "segs_inv ?dir ?opts (view d') ?start sgs init"
  proof (rule segs_inv_frame [OF rest(1)])
    fix s assume s: "s \<in> set sgs"
    have "sg_base_offset s \<noteq> sg_base_offset sg"
      using segs_inv_bases [OF rest _ s] nw base bss by (simp add: no_wrap_def)
    then have "join_path ?dir (log_name (sg_base_offset s)) \<noteq> join_path ?dir (log_name (sg_base_offset sg))"
      using log_name_inj by (auto simp: join_path_inj)
    then show "fs_handles (view d') (sg_log_file s) = fs_handles (view d) (sg_log_file s) \<and>
        fs_files (view d') (join_path ?dir (log_name (sg_base_offset s))) = fs_files (view d) (join_path ?dir (log_name (sg_base_offset s)))"
      using only by (simp add: only_file_def)
  qed
  moreover have "seg_here ?dir ?opts (view d') (chain_end ?start (concat init)) sg' (bs @ [(h, vs)])"
    using a here only by (auto simp: seg_here_def same_identity_def only_file_def)
  moreover have "next_offset h = chain_end ?start (concat bss @ [(h, vs)])"
    using batch_wf_next_offset [OF assms(3)] nxt nx by (simp add: chain_end_def add.assoc)
  ultimately have "log_inv lg' (view d') (init @ [bs @ [(h, vs)]])"
    using rest(2) assms(4) lg' sgs bss
    by (intro log_invI [where sgs = sgs and sg = sg'])
      (simp_all add: Log_set_active_def log_segment_options_def)
  then show ?thesis
    using a nxt lg' bss by (simp add: same_log_def Log_set_active_def)
qed

lemma seg_here_empty:
  assumes "seg_here dir opts v off sg bs"
  shows "Segment_empty sg \<longleftrightarrow> bs = []"
proof -
  have "unat (sg_size_bytes sg) = length (log_bytes bs)" using assms by (simp add: seg_here_def seg_inv_def)
  then show ?thesis
    using batch_enc_nonempty by (cases bs) (auto simp: Segment_empty_def simp flip: unsigned_eq_0_iff [where ?'a = nat])
qed

lemma make_room_ok:
  assumes "valid d" and "log_inv lg (view d) bss" and "2 < fs_ids (view d)"
    and "fs_files (view d) (join_path (lg_dir lg) (log_name (lg_next_offset lg))) = None \<or> last bss = []"
    and "make_room ops n lg d = (Inr u, lg', d')"
  shows "\<exists>bss'. concat bss' = concat bss \<and> valid d' \<and> log_inv lg' (view d') bss' \<and> same_log lg lg' \<and>
                lg_next_offset lg' = lg_next_offset lg"
proof -
  obtain sgs sg init bs where sgs: "lg_segments lg = sgs @ [sg]" and bss: "bss = init @ [bs]"
    and here: "seg_here (lg_dir lg) (log_segment_options lg) (view d) (chain_end (lg_start_offset lg) (concat init)) sg bs"
    using log_inv_active [OF assms(2)] .
  show ?thesis
  proof (cases "lg' = lg \<and> d' = d")
    case True
    then show ?thesis using assms(1,2) by (auto simp: same_log_def)
  next
    case False
    then have roll: "Log_roll ops lg d = (Inr u, lg', d')" and "\<not> Segment_empty sg"
      using assms(5) sgs by (auto simp: make_room_def split: if_splits)
    then have "last bss \<noteq> []" using seg_here_empty [OF here] bss by simp
    with roll_ok [OF assms(1-3) _ _ roll] assms(4) show ?thesis
      by (intro exI [of _ "bss @ [[]]"]) simp
  qed
qed

lemma append_room_ok:
  assumes "valid d" and "log_inv lg (view d) bss" and "2 < fs_ids (view d)"
    and "fs_files (view d) (join_path (lg_dir lg) (log_name (lg_next_offset lg))) = None \<or> last bss = []"
    and "make_room ops n lg d = (Inr u, lg1, d1)" and "batch_wf h vs"
    and "no_wrap (lg_start_offset lg) (concat bss @ [(h, vs)])"
    and "append_active ops (batch_bytes h vs) h lg1 d1 = (Inr u', lg', d')"
  shows "\<exists>bss'. concat bss' = concat bss @ [(h, vs)] \<and> valid d' \<and> log_inv lg' (view d') bss' \<and> same_log lg lg' \<and>
                bh_base_offset h = lg_next_offset lg \<and> lg_next_offset lg' = next_offset h"
proof -
  obtain bss1 where m: "concat bss1 = concat bss" "valid d1" "log_inv lg1 (view d1) bss1" "same_log lg lg1"
      "lg_next_offset lg1 = lg_next_offset lg"
    using make_room_ok [OF assms(1-5)] by blast
  have "no_wrap (lg_start_offset lg1) (concat bss1 @ [(h, vs)])" using assms(7) m by (simp add: same_log_def)
  note a = append_active_ok [OF m(2,3) assms(6) this assms(8)]
  have "bss1 \<noteq> []" using m(3) log_inv_active by blast
  then have "concat (butlast bss1 @ [last bss1 @ [(h, vs)]]) = concat bss @ [(h, vs)]"
    using m(1) by (cases bss1 rule: rev_cases) auto
  with a m show ?thesis
    by (intro exI [of _ "butlast bss1 @ [last bss1 @ [(h, vs)]]"]) (auto simp: same_log_def)
qed

text \<open>
  The leader's append: the batch is framed at the log's own next offset and becomes the last one.
\<close>

lemma log_append_ok:
  assumes "valid d" and "log_inv lg (view d) bss" and "2 < fs_ids (view d)"
    and "fs_files (view d) (join_path (lg_dir lg) (log_name (lg_next_offset lg))) = None \<or> last bss = []"
    and "builds builder vs" and "no_wrap (lg_start_offset lg) (concat bss @ [(finished_header (lg_next_offset lg) meta vs, vs)])"
    and "Log_append ops builder meta lg d = (Inr off, builder', lg', d')"
  shows "off = lg_next_offset lg \<and>
         (\<exists>bss'. concat bss' = concat bss @ [(finished_header off meta vs, vs)] \<and> valid d' \<and>
                 log_inv lg' (view d') bss' \<and> same_log lg lg' \<and>
                 lg_next_offset lg' = off + of_nat (length vs))"
proof -
  let ?n = "lg_next_offset lg" and ?h = "finished_header (lg_next_offset lg) meta vs"
  have vs: "vs \<noteq> []" "52 + length (records_bytes vs) \<le> kMaxBatchBytes"
    using assms(5,7) by (auto simp: Log_append_def builds_def BatchBuilder_empty_def unsigned_eq_0_iff split: if_splits)
  then have wf: "batch_wf ?h vs" by (rule finished_header_wf)
  obtain lg1 d1 where room: "make_room ops (BatchBuilder_framed_bytes builder) lg d = (Inr (), lg1, d1)"
    using assms(7) by (auto simp: Log_append_def split: if_splits prod.splits sum.splits)
  have n1: "lg_next_offset lg1 = ?n" using make_room_ok [OF assms(1-4) room] by blast
  have framed: "fst (BatchBuilder_finish ?n meta builder) = batch_bytes ?h vs" by (rule finish_bytes [OF assms(5)])
  have dec: "decode_header (batch_bytes ?h vs) = Inr ?h" using batch_wf_decode [OF wf, of "[]"] by simp
  have app: "append_active ops (batch_bytes ?h vs) ?h lg1 d1 = (Inr (), lg', d')" and off: "off = ?n"
    using assms(7) room n1 framed dec
    by (auto simp: Log_append_def Let_def split: if_splits prod.splits sum.splits)
  obtain bss' where "concat bss' = concat bss @ [(?h, vs)]" "valid d'" "log_inv lg' (view d') bss'" "same_log lg lg'"
      "bh_base_offset ?h = ?n" "lg_next_offset lg' = next_offset ?h"
    using append_room_ok [OF assms(1-4) room wf assms(6) app] by blast
  then show ?thesis using off batch_wf_next_offset [OF wf] by auto
qed

text \<open>
  The follower's append takes exactly the byte strings that are one valid batch at the next
  offset, and stores them as they are.
\<close>

lemma log_append_replicated_ok:
  assumes "valid d" and "log_inv lg (view d) bss" and "2 < fs_ids (view d)"
    and "fs_files (view d) (join_path (lg_dir lg) (log_name (lg_next_offset lg))) = None \<or> last bss = []"
    and "\<And>h vs. framed = batch_bytes h vs \<Longrightarrow> no_wrap (lg_start_offset lg) (concat bss @ [(h, vs)])"
    and "Log_append_replicated ops framed lg d = (Inr u, lg', d')"
  shows "\<exists>h vs bss'. framed = batch_bytes h vs \<and> batch_wf h vs \<and> bh_base_offset h = lg_next_offset lg \<and>
           concat bss' = concat bss @ [(h, vs)] \<and> valid d' \<and> log_inv lg' (view d') bss' \<and> same_log lg lg' \<and>
           lg_next_offset lg' = next_offset h"
proof -
  obtain h where dec: "decode_header framed = Inr h" and len: "length framed = total_bytes h"
    and val: "validate_batch framed = Inr ()"
    using assms(6) by (auto simp: Log_append_replicated_def result_ok_def split: if_splits sum.splits)
  obtain vs where wf: "batch_wf (load_header framed) vs" and bytes: "take (total_bytes (load_header framed)) framed = batch_bytes (load_header framed) vs"
    using validate_batch_bytes [OF val] by blast
  have h: "h = load_header framed" using decode_header_load [OF dec] .
  have framed: "framed = batch_bytes h vs" using bytes len h by simp
  obtain lg1 d1 where room: "make_room ops (length framed) lg d = (Inr (), lg1, d1)"
    and app: "append_active ops framed h lg1 d1 = (Inr u, lg', d')"
    using assms(6) dec by (auto simp: Log_append_replicated_def split: if_splits prod.splits sum.splits)
  have wf': "batch_wf h vs" using wf h by simp
  from append_room_ok [OF assms(1-4) room wf' assms(5) [OF framed] app [unfolded framed]] framed wf'
  show ?thesis by blast
qed

end

section \<open>Reading\<close>

lemma read_spec_nonempty: "ws \<noteq> [] \<Longrightarrow> read_spec n ws = Inr got \<Longrightarrow> got \<noteq> []"
  using batch_enc_nonempty by (cases ws) (auto simp: read_spec_def split: if_splits)

context log_disk
begin

lemma log_read_total:
  assumes "healthy d" and "log_inv lg (view d) bss"
  shows "\<exists>res d'. Log_read ops lg offset n d = Some (res, d') \<and> healthy d' \<and> view d' = view d \<and>
           (if lg_next_offset lg \<le> offset then res = Inr []
            else if offset < lg_start_offset lg then res = fail kOffsetOutOfRange
            else \<exists>ws rest. batch_at offset (concat bss) = ws @ rest \<and> ws \<noteq> [] \<and> res = read_spec n ws)"
proof (cases "lg_next_offset lg \<le> offset \<or> offset < lg_start_offset lg")
  case True
  then show ?thesis using assms(1) by (auto simp: Log_read_def)
next
  case False
  let ?start = "lg_start_offset lg"
  have inv: "segs_inv (lg_dir lg) (log_segment_options lg) (view d) ?start (lg_segments lg) bss"
    and nw: "no_wrap ?start (concat bss)" and nx: "lg_next_offset lg = chain_end ?start (concat bss)"
    using assms(2) by (simp_all add: log_inv_def)
  have range: "?start \<le> offset" "offset < chain_end ?start (concat bss)"
    using False nx by (simp_all add: not_le not_less)
  obtain pre sg post ipre bs ipost where split: "lg_segments lg = pre @ sg # post" "bss = ipre @ bs # ipost"
    and here: "seg_here (lg_dir lg) (log_segment_options lg) (view d) (chain_end ?start (concat ipre)) sg bs"
    and own: "chain_end ?start (concat ipre) \<le> offset" "offset < chain_end (chain_end ?start (concat ipre)) bs"
    and nws: "no_wrap (chain_end ?start (concat ipre)) bs"
    and bases: "\<forall>s \<in> set pre. sg_base_offset s \<le> offset" "\<forall>s \<in> set post. offset < sg_base_offset s"
    using owner_split [OF inv nw range] by blast
  have base: "sg_base_offset sg = chain_end ?start (concat ipre)" and sinv: "seg_inv sg (view d) bs"
    using here by (simp_all add: seg_here_def)
  have ub: "upper_bound (\<lambda>target s. target < sg_base_offset s) (lg_segments lg) offset = Suc (length pre)"
  proof -
    let ?q = "\<lambda>s. \<not> offset < sg_base_offset s"
    have "\<forall>s \<in> set (pre @ [sg]). ?q s" "\<forall>s \<in> set post. \<not> ?q s"
      using bases base own(1) by auto
    from partitioned_split [OF this] show ?thesis
      using upper_bound_eq [of "\<lambda>t s. t < sg_base_offset s" offset "lg_segments lg"] split(1) by simp
  qed
  have "chain ?start (concat bss)" using segs_inv_chain [OF inv] .
  then have at: "batch_at offset (concat bss) = batch_at offset bs @ concat ipost" and ne: "batch_at offset bs \<noteq> []"
    using batch_at_concat [of ?start ipre bs ipost offset] nw own split(2) by simp_all
  obtain d' where rd: "Segment_read ops sg offset n d = Some (read_spec n (batch_at offset bs), d')"
      "healthy d'" "view d' = view d"
    using read_total [OF assms(1) sinv] nws base by auto
  have "Log_read ops lg offset n d = Some (read_spec n (batch_at offset bs), d')"
    using False ub split(1) rd(1) read_spec_nonempty [OF ne]
    by (cases "read_spec n (batch_at offset bs)") (auto simp: Log_read_def Let_def)
  then show ?thesis using rd at ne False by auto
qed

end

section \<open>Epochs\<close>

text \<open>One boundary for every change of epoch along the chain.\<close>

definition epochs_of :: "EpochBoundary list \<Rightarrow> BatchHeader list \<Rightarrow> EpochBoundary list" where
  "epochs_of es hs = fold (\<lambda>h es. fst (note_epoch es h)) hs es"

lemma visit_note_epoch: "visit_headers note_epoch es hs = epochs_of es hs"
  by (induction hs arbitrary: es) (auto simp: epochs_of_def note_epoch_def)

lemma epochs_of_append: "epochs_of es (hs @ ks) = epochs_of (epochs_of es hs) ks"
  by (simp add: epochs_of_def)

context log_disk
begin

lemma scan_epochs_list_total:
  assumes "healthy d" and "segs_inv dir opts (view d) off sgs bss"
  shows "\<exists>d'. scan_epochs_list ops sgs es d = Some (Inr (epochs_of es (map fst (concat bss))), d') \<and>
              healthy d' \<and> view d' = view d"
  using assms
proof (induction sgs arbitrary: off bss es d)
  case Nil
  then show ?case by (simp add: epochs_of_def)
next
  case (Cons sg sgs)
  then obtain bs bss' where bss: "bss = bs # bss'" by (cases bss) auto
  have inv: "seg_inv sg (view d) bs" and rest: "segs_inv dir opts (view d) (chain_end off bs) sgs bss'"
    using Cons.prems(2) bss by (simp_all add: seg_here_def)
  obtain d1 where d1: "Segment_scan_headers ops sg note_epoch es d = Some (Inr (), epochs_of es (map fst bs), d1)"
      "healthy d1" "view d1 = view d"
    using scan_headers_total [OF Cons.prems(1) inv, of note_epoch es] by (auto simp: visit_note_epoch)
  then show ?case
    using Cons.IH [OF d1(2), of "chain_end off bs" bss'] rest bss by (simp add: epochs_of_append)
qed

lemma log_scan_epochs_total:
  assumes "healthy d" and "log_inv lg (view d) bss"
  shows "\<exists>d'. Log_scan_epochs ops lg d = Some (Inr (epochs_of [] (map fst (concat bss))), d') \<and>
              healthy d' \<and> view d' = view d"
  using scan_epochs_list_total [OF assms(1)] assms(2) unfolding Log_scan_epochs_def log_inv_def by blast

end

section \<open>Truncating\<close>

lemma starts_at_append: "starts_at (xs @ ys) off \<longleftrightarrow> starts_at xs off \<or> starts_at ys off"
  by (auto simp: starts_at_def)

context log_disk
begin

lemma remove_files_run:
  assumes "healthy d"
  shows "healthy (remove_segment_files ops dir b d) \<and>
         fs_handles (view (remove_segment_files ops dir b d)) = fs_handles (view d) \<and>
         (\<forall>p. p \<noteq> join_path dir (log_name b) \<longrightarrow> p \<noteq> join_path dir (index_name b) \<longrightarrow>
            fs_files (view (remove_segment_files ops dir b d)) p = fs_files (view d) p)"
proof -
  have rm: "healthy (snd (dk_remove ops p x)) \<and>
      (view (snd (dk_remove ops p x)) = view x \<or>
       view (snd (dk_remove ops p x)) = (view x)\<lparr>fs_files := (fs_files (view x))(canon p := None)\<rparr>)"
    if "healthy x" for p x
    using up.remove_ok [OF that, of p] up.remove_fail [OF that, of p]
    by (cases "dk_remove ops p x"; cases "fst (dk_remove ops p x)") auto
  define d1 where "d1 = snd (dk_remove ops (join_path dir (log_name b)) d)"
  have "healthy d1" "healthy (snd (dk_remove ops (join_path dir (index_name b)) d1))"
    using rm [OF assms] rm by (simp_all add: d1_def)
  then show ?thesis
    using rm [OF assms, of "join_path dir (log_name b)"] rm [of d1 "join_path dir (index_name b)"]
    by (auto simp: remove_segment_files_def d1_def [symmetric] canon_log_path canon_index_path)
qed

lemma destroy_run:
  assumes "healthy d"
  shows "healthy (Segment_destroy ops sg d) \<and>
         (\<forall>f. f \<noteq> sg_log_file sg \<longrightarrow> fs_handles (view (Segment_destroy ops sg d)) f = fs_handles (view d) f) \<and>
         fs_files (view (Segment_destroy ops sg d)) = fs_files (view d)"
  using up.close [OF assms, of "sg_log_file sg"] assms by (auto simp: Segment_destroy_def fs_close_def)

text \<open>Dropping the last segment of two or more leaves the others as they were.\<close>

lemma drop_last_ok:
  assumes "healthy d" and "segs_inv dir opts (view d) off (sgs @ [sg]) (bss @ [bs])"
    and "no_wrap off (concat (bss @ [bs]))"
    and "d' = remove_segment_files ops dir (sg_base_offset sg) (Segment_destroy ops sg d)"
  shows "healthy d' \<and> segs_inv dir opts (view d') off sgs bss"
proof -
  have rest: "segs_inv dir opts (view d) off sgs bss" "\<forall>b \<in> set bss. b \<noteq> []"
    and here: "seg_here dir opts (view d) (chain_end off (concat bss)) sg bs"
    using assms(2) by (simp_all add: segs_inv_append)
  have nw: "no_wrap off (concat bss)" using assms(3) by (simp add: no_wrap_def)
  have ds: "healthy (Segment_destroy ops sg d)" using destroy_run [OF assms(1)] by blast
  have "segs_inv dir opts (view d') off sgs bss"
  proof (rule segs_inv_frame [OF rest(1)])
    fix s assume s: "s \<in> set sgs"
    have ne: "sg_base_offset s \<noteq> sg_base_offset sg"
      using segs_inv_bases [OF rest nw s] here by (simp add: seg_here_def)
    then have paths: "join_path dir (log_name (sg_base_offset s)) \<noteq> join_path dir (log_name (sg_base_offset sg))"
      using log_name_inj by (auto simp: join_path_inj)
    have "fs_handles (view d) (sg_log_file s) \<noteq> fs_handles (view d) (sg_log_file sg)"
      using segs_inv_handle [OF rest(1) s] here paths by (simp add: seg_here_def)
    then have "sg_log_file s \<noteq> sg_log_file sg" by auto
    then show "fs_handles (view d') (sg_log_file s) = fs_handles (view d) (sg_log_file s) \<and>
        fs_files (view d') (join_path dir (log_name (sg_base_offset s))) =
        fs_files (view d) (join_path dir (log_name (sg_base_offset s)))"
      using remove_files_run [OF ds] destroy_run [OF assms(1)] paths log_path_not_index_path assms(4) by simp
  qed
  then show ?thesis using remove_files_run [OF ds] assms(4) by simp
qed

lemma drop_segments_run:
  assumes "healthy d" and "segs_inv (lg_dir lg) opts (view d) off (lg_segments lg) bss" and "lg_segments lg \<noteq> []"
    and "no_wrap off (concat bss)" and "drop_segments ops offset lg d = (lg', d')"
  shows "\<exists>k. 0 < k \<and> k \<le> length bss \<and> lg' = lg\<lparr>lg_segments := take k (lg_segments lg)\<rparr> \<and> healthy d' \<and>
           segs_inv (lg_dir lg) opts (view d') off (take k (lg_segments lg)) (take k bss) \<and>
           (k = 1 \<or> sg_base_offset (lg_segments lg ! (k - 1)) < offset) \<and>
           (k < length bss \<longrightarrow> offset \<le> chain_end off (concat (take k bss)))"
  using assms
proof (induction "length (lg_segments lg)" arbitrary: lg d bss rule: less_induct)
  case less
  have len: "length (lg_segments lg) = length bss" by (rule segs_inv_length [OF less.prems(2)])
  show ?case
  proof (cases "length (lg_segments lg) > 1 \<and> sg_base_offset (Log_active lg) \<ge> offset")
    case False
    have "drop_segments ops offset lg d = (lg, d)" by (subst drop_segments.simps) (use False in auto)
    then have "lg' = lg" "d' = d" using less.prems(5) by simp_all
    moreover have "length bss = 1 \<or> sg_base_offset (lg_segments lg ! (length bss - 1)) < offset"
    proof (cases "length bss = 1")
      case many: False
      then have "1 < length (lg_segments lg)" using less.prems(3) len by (cases "lg_segments lg") auto
      then show ?thesis using False less.prems(3) len by (auto simp: last_conv_nth not_le)
    qed simp
    ultimately show ?thesis
      using less.prems(1-3) len by (intro exI [of _ "length bss"]) auto
  next
    case True
    obtain sgs sg where sgs: "lg_segments lg = sgs @ [sg]" using less.prems(3) by (cases "lg_segments lg" rule: rev_cases) auto
    obtain init bs where bss: "bss = init @ [bs]" using len sgs by (cases bss rule: rev_cases) auto
    define d1 where "d1 = remove_segment_files ops (lg_dir lg) (sg_base_offset sg) (Segment_destroy ops sg d)"
    define lg1 where "lg1 = lg\<lparr>lg_segments := sgs\<rparr>"
    have drop: "drop_segments ops offset lg1 d1 = (lg', d')"
      using less.prems(5) True sgs by (subst (asm) drop_segments.simps) (simp add: d1_def lg1_def Let_def)
    have d1: "healthy d1" "segs_inv (lg_dir lg) opts (view d1) off sgs init"
      using drop_last_ok [OF less.prems(1), of "lg_dir lg" opts off sgs sg init bs d1] less.prems(2,4) sgs bss
      by (simp_all add: d1_def)
    have nw: "no_wrap off (concat init)" using less.prems(4) bss by (simp add: no_wrap_def)
    have "sgs \<noteq> []" "length sgs < length (lg_segments lg)" using True sgs by auto
    then obtain k where k: "0 < k" "k \<le> length init" "lg' = lg1\<lparr>lg_segments := take k sgs\<rparr>" "healthy d'"
      "segs_inv (lg_dir lg) opts (view d') off (take k sgs) (take k init)"
      "k = 1 \<or> sg_base_offset (sgs ! (k - 1)) < offset" "k < length init \<longrightarrow> offset \<le> chain_end off (concat (take k init))"
      using less.hyps [of lg1 d1 init] d1 nw drop by (auto simp: lg1_def)
    have eq: "length sgs = length init" using len sgs bss by simp
    have "offset \<le> chain_end off (concat (take k bss))" if "k = length init"
      using that True sgs less.prems(2) bss by (simp add: segs_inv_append seg_here_def)
    then show ?thesis
      using k eq bss sgs by (intro exI [of _ k]) (auto simp: lg1_def nth_append)
  qed
qed

lemma truncate_active:
  assumes "healthy d" and "segs_inv dir opts (view d) off sgs init" and "\<forall>b \<in> set init. b \<noteq> []"
    and "seg_here dir opts (view d) (chain_end off (concat init)) sg bs"
    and "no_wrap off (concat init @ bs)" and "sg_base_offset sg \<le> offset" and "offset < sg_next_offset sg"
    and "starts_at bs offset" and "length (log_bytes bs) \<le> cap"
  shows "\<exists>sg' d' us ws. Segment_truncate_to ops offset sg d = Some (Inr (), sg', d') \<and> healthy d' \<and> bs = us @ ws \<and>
           chain_end off (concat init @ us) = offset \<and> segs_inv dir opts (view d') off sgs init \<and>
           seg_here dir opts (view d') (chain_end off (concat init)) sg' us \<and> sg_next_offset sg' = offset"
proof -
  have base: "sg_base_offset sg = chain_end off (concat init)" and sinv: "seg_inv sg (view d) bs"
    and hd: "fs_handles (view d) (sg_log_file sg) = Some (join_path dir (log_name (sg_base_offset sg)), kCreate)"
    using assms(4) by (auto simp: seg_here_def)
  have nw: "no_wrap off (concat init)" "no_wrap (sg_base_offset sg) bs"
    using assms(5) base unat_chain_end [of off "concat init"] by (simp_all add: no_wrap_def)
  have "offset < chain_end (sg_base_offset sg) bs" using assms(7) sinv by (simp add: seg_inv_def)
  from truncate_to_total [OF assms(1) sinv nw(2) assms(6) this assms(9)] assms(8)
  obtain sg' d' us ws where run: "Segment_truncate_to ops offset sg d = Some (Inr (), sg', d')" "healthy d'"
    and us: "bs = us @ ws" "chain_end (sg_base_offset sg) us = offset"
    and v: "view d' = fs_put (sg_log_file sg) (log_bytes us) (view d)" and inv': "seg_inv sg' (view d') us"
    and same: "same_identity sg sg'"
    by auto
  have only: "only_file (join_path dir (log_name (sg_base_offset sg))) (view d) (view d')"
    using only_file_put [OF hd] v by simp
  have "segs_inv dir opts (view d') off sgs init"
  proof (rule segs_inv_frame [OF assms(2)])
    fix s assume s: "s \<in> set sgs"
    have "sg_base_offset s \<noteq> sg_base_offset sg" using segs_inv_bases [OF assms(2,3) nw(1) s] base by simp
    then have "join_path dir (log_name (sg_base_offset s)) \<noteq> join_path dir (log_name (sg_base_offset sg))"
      using log_name_inj by (auto simp: join_path_inj)
    then show "fs_handles (view d') (sg_log_file s) = fs_handles (view d) (sg_log_file s) \<and>
        fs_files (view d') (join_path dir (log_name (sg_base_offset s))) = fs_files (view d) (join_path dir (log_name (sg_base_offset s)))"
      using only by (simp add: only_file_def)
  qed
  moreover have "seg_here dir opts (view d') (chain_end off (concat init)) sg' us"
    using inv' same assms(4) only by (auto simp: seg_here_def same_identity_def only_file_def)
  moreover have "sg_next_offset sg' = offset" using inv' same us(2) by (simp add: seg_inv_def same_identity_def)
  ultimately show ?thesis using run us base by (auto simp: chain_end_append)
qed

text \<open>
  A cut at the end of the log or where a batch begins succeeds and leaves the batches before it.
\<close>

lemma log_truncate_total:
  assumes "healthy d" and "log_inv lg (view d) bss" and "lg_start_offset lg \<le> offset" and "offset \<le> lg_next_offset lg"
    and "\<forall>bs \<in> set bss. length (log_bytes bs) \<le> cap"
    and "offset = lg_next_offset lg \<or> starts_at (concat bss) offset"
  shows "\<exists>lg' d' bss' us ws. Log_truncate_to ops offset lg d = Some (Inr (), lg', d') \<and> healthy d' \<and>
           log_inv lg' (view d') bss' \<and> concat bss' = us \<and> concat bss = us @ ws \<and>
           chain_end (lg_start_offset lg) us = offset \<and> same_log lg lg' \<and> lg_next_offset lg' = offset"
proof (cases "offset = lg_next_offset lg")
  case True
  have "\<not> lg_next_offset lg < lg_start_offset lg" using assms(3) True by simp
  then have run: "Log_truncate_to ops offset lg d = Some (Inr (), lg, d)" using True by (simp add: Log_truncate_to_def)
  have "chain_end (lg_start_offset lg) (concat bss) = offset" using True assms(2) by (simp add: log_inv_def)
  then show ?thesis
    using run assms(1,2) True
    by - (rule exI [of _ lg], rule exI [of _ d], rule exI [of _ bss], rule exI [of _ "concat bss"],
        rule exI [of _ "[]"], simp add: same_log_def)
next
  case False
  let ?start = "lg_start_offset lg" and ?dir = "lg_dir lg" and ?opts = "log_segment_options lg"
  have inv: "segs_inv ?dir ?opts (view d) ?start (lg_segments lg) bss" "lg_segments lg \<noteq> []"
    and nw: "no_wrap ?start (concat bss)" and nx: "lg_next_offset lg = chain_end ?start (concat bss)"
    using assms(2) by (simp_all add: log_inv_def)
  have starts: "starts_at (concat bss) offset" using False assms(6) by simp
  have lt: "offset < lg_next_offset lg" using False assms(4) by simp
  obtain lg1 d1 where dr: "drop_segments ops offset lg d = (lg1, d1)" by force
  obtain k where k: "0 < k" "k \<le> length bss" "lg1 = lg\<lparr>lg_segments := take k (lg_segments lg)\<rparr>" "healthy d1"
    and inv1: "segs_inv ?dir ?opts (view d1) ?start (take k (lg_segments lg)) (take k bss)"
    and low: "k = 1 \<or> sg_base_offset (lg_segments lg ! (k - 1)) < offset"
    and high: "k < length bss \<longrightarrow> offset \<le> chain_end ?start (concat (take k bss))"
    using drop_segments_run [OF assms(1) inv nw dr] by (elim exE conjE) (rule that)
  have len: "length (lg_segments lg) = length bss" by (rule segs_inv_length [OF inv(1)])
  define init bs sgs sg where "init = take (k - 1) bss" and "bs = bss ! (k - 1)"
    and "sgs = take (k - 1) (lg_segments lg)" and "sg = lg_segments lg ! (k - 1)"
  have tk: "take k bss = init @ [bs]" "take k (lg_segments lg) = sgs @ [sg]"
    using k(1,2) len by (cases k; simp add: init_def bs_def sgs_def sg_def take_Suc_conv_app_nth)+
  have rest: "segs_inv ?dir ?opts (view d1) ?start sgs init" "\<forall>b \<in> set init. b \<noteq> []"
    and here: "seg_here ?dir ?opts (view d1) (chain_end ?start (concat init)) sg bs"
    using inv1 tk by (simp_all add: segs_inv_append)
  have whole: "concat bss = concat init @ bs @ concat (drop k bss)"
  proof -
    have "concat bss = concat (take k bss) @ concat (drop k bss)" by (metis append_take_drop_id concat_append)
    then show ?thesis by (simp add: tk)
  qed
  have base: "sg_base_offset sg = chain_end ?start (concat init)" and sinv: "seg_inv sg (view d1) bs"
    using here by (simp_all add: seg_here_def)
  have snw: "no_wrap (sg_base_offset sg) bs"
    using nw whole base unat_chain_end [of ?start "concat init"] by (simp add: no_wrap_def)
  have ge: "sg_base_offset sg \<le> offset"
    using low k(1) assms(3) base by (cases "k = 1") (auto simp: init_def sg_def)
  have run: "Log_truncate_to ops offset lg d = (case Segment_truncate_to ops offset sg d1 of
        None \<Rightarrow> None | Some (Inl e, sg, d) \<Rightarrow> Some (fail e, Log_set_active sg lg1, d)
      | Some (Inr _, sg, d) \<Rightarrow> Some (Inr (), (Log_set_active sg lg1)\<lparr>lg_next_offset := sg_next_offset sg\<rparr>, d))"
  proof -
    have "\<not> lg_next_offset lg < offset" "\<not> offset < ?start" using assms(3,4) by (simp_all add: not_less)
    moreover have "Log_active lg1 = sg" using k(3) tk(2) by simp
    ultimately show ?thesis using False dr by (simp add: Log_truncate_to_def)
  qed
  have finish: ?thesis if sg': "Segment_truncate_to ops offset sg d1 = Some (Inr (), sg', d2)" "healthy d2"
      and us: "bs = us @ ws" "chain_end ?start (concat init @ us) = offset"
      and inv2: "segs_inv ?dir ?opts (view d2) ?start sgs init"
        "seg_here ?dir ?opts (view d2) (chain_end ?start (concat init)) sg' us" "sg_next_offset sg' = offset"
    for sg' d2 us ws
  proof -
    define lg' where "lg' = (Log_set_active sg' lg1)\<lparr>lg_next_offset := offset\<rparr>"
    have segs: "lg_segments lg' = sgs @ [sg']" using k(3) tk(2) by (simp add: lg'_def Log_set_active_def)
    have same: "same_log lg lg'" using k(3) by (simp add: lg'_def Log_set_active_def same_log_def)
    have "no_wrap ?start (concat init @ us)" using nw whole us by (simp add: no_wrap_def)
    then have "log_inv lg' (view d2) (init @ [us])"
      using inv2 rest(2) us(2) same segs same_log_options [OF same]
      by (intro log_invI [OF segs refl]) (simp_all add: same_log_def, simp_all add: lg'_def)
    moreover have "Log_truncate_to ops offset lg d = Some (Inr (), lg', d2)"
      using run sg' inv2(3) by (simp add: lg'_def)
    moreover have "concat bss = (concat init @ us) @ ws @ concat (drop k bss)" using whole us by simp
    ultimately show ?thesis
      using same sg'(2) us(2)
      by - (rule exI [of _ lg'], rule exI [of _ d2], rule exI [of _ "init @ [us]"], rule exI [of _ "concat init @ us"],
          rule exI [of _ "ws @ concat (drop k bss)"], simp add: lg'_def)
  qed
  have ch: "chain ?start (concat bss)" by (rule segs_inv_chain [OF inv(1)])
  have nxt: "sg_next_offset sg = chain_end ?start (concat init @ bs)"
    using sinv base by (simp add: seg_inv_def chain_end_append)
  show ?thesis
  proof (cases "offset < sg_next_offset sg")
    case True
    have "\<not> starts_at (concat init) offset"
    proof
      assume "starts_at (concat init) offset"
      then obtain b where b: "b \<in> set (concat init)" "bh_base_offset (fst b) = offset" unfolding starts_at_def by blast
      then show False
        using starts_before [of ?start "concat init" "bs @ concat (drop k bss)" b] ch nw whole ge base by simp
    qed
    moreover have "\<not> starts_at (concat (drop k bss)) offset"
    proof
      assume "starts_at (concat (drop k bss)) offset"
      then obtain b where b: "b \<in> set (concat (drop k bss))" "bh_base_offset (fst b) = offset" unfolding starts_at_def by blast
      then show False
        using chain_starts_mono [of ?start "concat init @ bs" "concat (drop k bss)" b] ch nw whole True nxt by simp
    qed
    ultimately have "starts_at bs offset" using starts whole by (simp add: starts_at_append)
    moreover have "length (log_bytes bs) \<le> cap" using assms(5) k(1,2) by (simp add: bs_def)
    moreover have "no_wrap ?start (concat init @ bs)" using nw whole by (simp add: no_wrap_def)
    ultimately show ?thesis
      using truncate_active [OF k(4) rest here _ ge True] finish by blast
  next
    case past: False
    then have "chain_end ?start (concat init @ bs) \<le> offset" using nxt by (simp add: not_less)
    moreover have "k < length bss"
    proof (rule ccontr)
      assume "\<not> k < length bss"
      then have "concat bss = concat init @ bs" using whole by simp
      then show False using lt nx past nxt by (simp add: not_less)
    qed
    ultimately have eq: "chain_end ?start (concat init @ bs) = offset"
      using high tk(1) by (simp add: chain_end_append)
    have "Segment_truncate_to ops offset sg d1 = Some (Inr (), sg, d1)"
      using past by (simp add: Segment_truncate_to_def not_less)
    then show ?thesis using finish [of sg d1 bs "[]"] k(4) eq rest(1) here nxt by simp
  qed
qed

end

end
