(* ===== verification/Log_Spec.thy ===== *)
theory Log_Spec
  imports Log_Ops
begin

text \<open>
  What the log of a partition promises over the simulated disk: appends extend one chain of batches
  at the next offset, replicated batches are checked before anything is written, reads return whole
  batches from the wanted offset on, a truncation at a batch boundary leaves exactly the batches
  before it, and the epoch boundaries found by a scan answer which leader wrote an offset.
\<close>

section \<open>Replicated batches\<close>

text \<open>The batches a follower may append: well-formed, alone in the buffer, next in line, not too big.\<close>

definition replicable :: "Log \<Rightarrow> bytes \<Rightarrow> bool" where
  "replicable lg framed \<longleftrightarrow>
     (\<exists>h vs. framed = batch_bytes h vs \<and> batch_wf h vs \<and> bh_base_offset h = lg_next_offset lg \<and>
             length framed \<le> unat (lo_segment_max_bytes (lg_options lg)))"

lemma replicable_checks:
  assumes "decode_header framed = Inr h" and "length framed = total_bytes h" and "validate_batch framed = Inr ()"
    and "bh_base_offset h = lg_next_offset lg" and "length framed \<le> unat (lo_segment_max_bytes (lg_options lg))"
  shows "replicable lg framed"
proof -
  have h: "h = load_header framed" by (rule decode_header_load [OF assms(1)])
  obtain vs where "batch_wf h vs" "take (total_bytes h) framed = batch_bytes h vs"
    using validate_batch_bytes [OF assms(3)] h by blast
  then show ?thesis using assms(2,4,5) unfolding replicable_def by (metis order_refl take_all)
qed

lemma replicable_decodes:
  assumes "replicable lg framed"
  obtains h where "decode_header framed = Inr h" "length framed = total_bytes h" "validate_batch framed = Inr ()"
    "bh_base_offset h = lg_next_offset lg" "length framed \<le> unat (lo_segment_max_bytes (lg_options lg))"
proof -
  obtain h vs where h: "framed = batch_bytes h vs" "batch_wf h vs" "bh_base_offset h = lg_next_offset lg"
      "length framed \<le> unat (lo_segment_max_bytes (lg_options lg))"
    using assms unfolding replicable_def by blast
  show thesis
    using that [of h] h batch_wf_decode [OF h(2), of "[]"] validate_complete [OF h(2), of "[]"]
      total_bytes_enc [of "(h, vs)"] by (simp add: batch_enc_def)
qed

section \<open>Which epoch wrote an offset\<close>

definition epoch_at :: "EpochBoundary list \<Rightarrow> u64 \<Rightarrow> u32" where
  "epoch_at es off = eb_epoch (last (filter (\<lambda>e. eb_start_offset e \<le> off) es))"

lemma epochs_of_snoc:
  "epochs_of [] (map fst (bs @ [c])) = fst (note_epoch (epochs_of [] (map fst bs)) (fst c))"
  by (simp add: epochs_of_def)

lemma epochs_of_starts:
  "eb_start_offset ` set (epochs_of [] (map fst bs)) \<subseteq> (\<lambda>b. bh_base_offset (fst b)) ` set bs"
proof (induction bs rule: rev_induct)
  case (snoc c bs)
  then show ?case unfolding epochs_of_snoc by (auto simp: note_epoch_def)
qed (simp add: epochs_of_def)

lemma epochs_of_nonempty: "bs \<noteq> [] \<Longrightarrow> epochs_of [] (map fst bs) \<noteq> []"
  by (cases bs rule: rev_cases) (simp, simp only: epochs_of_snoc, simp add: note_epoch_def)

lemma epochs_of_lookup:
  assumes "chain start bs" and "no_wrap start bs" and "b \<in> set bs"
  shows "epoch_at (epochs_of [] (map fst bs)) (bh_base_offset (fst b)) = bh_leader_epoch (fst b)"
  using assms
proof (induction bs arbitrary: b rule: rev_induct)
  case (snoc c bs)
  let ?es = "epochs_of [] (map fst bs)"
  have ch: "chain start bs" "no_wrap start bs"
    using snoc.prems by (auto simp: chain_append dest: no_wrap_append)
  have c: "bh_base_offset (fst c) = chain_end start bs"
    using chain_next_offset(2) [of start bs c "[]"] snoc.prems(1) by simp
  have lt: "bh_base_offset (fst a) < bh_base_offset (fst c)" if "a \<in> set bs" for a
    using starts_before [OF snoc.prems(1,2) that] c by simp
  show ?case
  proof (cases "b \<in> set bs")
    case True
    then show ?thesis
      unfolding epochs_of_snoc using snoc.IH [OF ch True] lt [OF True] by (auto simp: note_epoch_def epoch_at_def)
  next
    case False
    then have b: "b = c" using snoc.prems(3) by simp
    have "filter (\<lambda>e. eb_start_offset e \<le> bh_base_offset (fst c)) ?es = ?es"
    proof (rule filter_True, rule ballI)
      fix e assume "e \<in> set ?es"
      then obtain a where "a \<in> set bs" "eb_start_offset e = bh_base_offset (fst a)" using epochs_of_starts [of bs] by blast
      then show "eb_start_offset e \<le> bh_base_offset (fst c)" using lt [of a] by simp
    qed
    then show ?thesis unfolding epochs_of_snoc b by (auto simp: note_epoch_def epoch_at_def)
  qed
qed simp

section \<open>A concrete log\<close>

definition sample_log :: Log where
  "sample_log = (Log_new ''d'' \<lparr>lo_segment_max_bytes = 4096, lo_index_interval_bytes = 100\<rparr>)
     \<lparr>lg_segments := [sample_segment], lg_next_offset := 4\<rparr>"

lemma join_sample_path: "join_path ''d'' (log_name 0) = sample_path"
  using sample_paths(1) sim_log.canon_log_path [of "''d''" 0] by simp

lemma sample_log_inv: "log_inv sample_log (sim_view (sample_disk, r)) [[sample_entry 0, sample_entry 2]]"
proof -
  have "seg_here ''d'' sample_options (sim_view (sample_disk, r)) 0 sample_segment [sample_entry 0, sample_entry 2]"
    using sample_inv [of r] join_sample_path
    by (simp add: seg_here_def) (simp add: sample_segment_def Segment_new_def sample_disk_def sim_view_def)
  moreover have "log_segment_options sample_log = sample_options"
    by (simp add: log_segment_options_def sample_log_def Log_new_def sample_options_def)
  moreover have "chain_end 0 [sample_entry 0, sample_entry 2] = 4" by (simp add: chain_end_def sample_entry_def)
  ultimately show ?thesis
    by (simp add: log_inv_def) (simp add: sample_log_def Log_new_def no_wrap_def sample_entry_def)
qed

lemma sample_ids: "2 < fs_ids (sim_view (sample_disk, r))"
  by (simp add: sim_view_def sample_disk_def SimDisk_new_def)

section \<open>Properties\<close>

text \<open>C3. Appending to the log. On any disk state in which the log holds the chain \<open>concat bss\<close>, an append
  that succeeds has given the batch the offset the log expected next, whether or not it rolled to a new
  segment on the way; the log then holds the old chain followed by exactly the builder's records in one
  batch at that offset, and expects the offset after the last of them. No file may be left over under the
  name of the segment a roll would create; that is not needed when the active segment is empty.\<close>

theorem log_append_spec:
  assumes "sim_valid x" and "log_inv lg (sim_view x) bss" and "2 < fs_ids (sim_view x)"
    and "fs_files (sim_view x) (join_path (lg_dir lg) (log_name (lg_next_offset lg))) = None \<or> last bss = []"
    and "builds builder vs" and "no_wrap (lg_start_offset lg) (concat bss @ [(finished_header (lg_next_offset lg) meta vs, vs)])"
    and "Log_append (sim_disk_ops rops) builder meta lg x = (Inr off, builder', lg', x')"
  shows "off = lg_next_offset lg \<and>
         (\<exists>bss'. concat bss' = concat bss @ [(finished_header off meta vs, vs)] \<and> sim_valid x' \<and>
                 log_inv lg' (sim_view x') bss' \<and> same_log lg lg' \<and>
                 lg_next_offset lg' = off + of_nat (length vs))"
  by (rule sim_log.log_append_ok [OF assms])

theorem log_append_spec_witness:
  "\<exists>builder' lg' x'.
     Log_append (sim_disk_ops seeded_ops) sample_builder sample_meta sample_log (sample_disk, reseed 1)
       = (Inr 4, builder', lg', x') \<and>
     (\<exists>bss'. concat bss' = [sample_entry 0, sample_entry 2, sample_entry 4] \<and> log_inv lg' (sim_view x') bss' \<and>
             lg_next_offset lg' = 6)"
proof -
  let ?x = "(sample_disk, reseed 1)" and ?h = "fst (sample_entry 4)"
  obtain sg' x' where a: "Segment_append (sim_disk_ops seeded_ops) (batch_bytes ?h (snd (sample_entry 4))) ?h
      sample_segment ?x = (Inr (), sg', x')"
    using sample_append [of "reseed 1"] by blast
  have next4: "lg_next_offset sample_log = 4" and segs: "lg_segments sample_log = [sample_segment]"
    and opts: "unat (lo_segment_max_bytes (lg_options sample_log)) = 4096"
      "lo_segment_max_bytes (lg_options sample_log) = 4096"
    by (simp_all add: sample_log_def Log_new_def)
  have framed: "fst (BatchBuilder_finish 4 sample_meta sample_builder) = batch_bytes ?h (snd (sample_entry 4))"
    using finish_bytes [OF sample_builds, of 4 sample_meta] by (simp add: sample_entry_def)
  have sz: "BatchBuilder_framed_bytes sample_builder = 63" "\<not> BatchBuilder_empty sample_builder"
    using builds_size [OF sample_builds] sample_builds
    by (auto simp: BatchBuilder_framed_bytes_def BatchBuilder_empty_def builds_def)
  have room: "make_room (sim_disk_ops seeded_ops) 63 sample_log ?x = (Inr (), sample_log, ?x)"
    by (simp add: make_room_def segs opts) (simp add: sample_segment_def Segment_new_def)
  have dec: "decode_header (batch_bytes ?h (snd (sample_entry 4))) = Inr ?h"
    using batch_wf_decode [OF sample_entry_wf, of 4 "[]"] by simp
  obtain builder' where fin: "BatchBuilder_finish 4 sample_meta sample_builder
      = (batch_bytes ?h (snd (sample_entry 4)), builder')"
    using framed by (cases "BatchBuilder_finish 4 sample_meta sample_builder") auto
  obtain lg' where run: "Log_append (sim_disk_ops seeded_ops) sample_builder sample_meta sample_log ?x
      = (Inr 4, builder', lg', x')"
    by (simp add: Log_append_def sz opts room next4 fin dec append_active_def segs a)
  have "fs_files (sim_view ?x) (join_path (lg_dir sample_log) (log_name (lg_next_offset sample_log))) = None"
    using log_name_inj [of 4 0] join_sample_path
    by (auto simp: sample_log_def Log_new_def sim_view_def sample_disk_def SimDisk_new_def join_path_inj
        simp flip: join_sample_path)
  from log_append_spec [OF sim_rel.healthy_valid [OF sample_healthy] sample_log_inv sample_ids disjI1 [OF this] sample_builds
      _ run]
  show ?thesis
    using run by (auto simp: no_wrap_def sample_log_def Log_new_def sample_entry_def)
qed

text \<open>C33. A follower's append. Bytes that are not exactly one well-formed batch, at the offset the log expects
  next and within the size of a segment, are refused before anything is touched: the log and the disk
  are as they were. Bytes that are such a batch pass every check, so that only the disk can fail the
  append.\<close>

theorem append_replicated_checked:
  "if replicable lg framed
   then \<exists>h. decode_header framed = Inr h \<and>
          Log_append_replicated ops framed lg d =
            (case make_room ops (length framed) lg d of
               (Inl e, lg1, d1) \<Rightarrow> (fail e, lg1, d1)
             | (Inr _, lg1, d1) \<Rightarrow> append_active ops framed h lg1 d1)
   else \<exists>e. Log_append_replicated ops framed lg d = (fail e, lg, d)"
proof (cases "replicable lg framed")
  case True
  then show ?thesis
    by (rule replicable_decodes) (simp add: True Log_append_replicated_def result_ok_def)
next
  case False
  show ?thesis
  proof (cases "decode_header framed")
    case (Inr h)
    then show ?thesis
      using False replicable_checks [of framed h lg]
      by (cases "validate_batch framed") (auto simp: Log_append_replicated_def result_ok_def)
  qed (simp add: False Log_append_replicated_def)
qed

text \<open>C34. Reading the log. On a disk that answers, a read returns for every offset and every buffer size: nothing
  at or past the end, \<^verbatim>\<open>kOffsetOutOfRange\<close> before the start, and otherwise the batch with the wanted
  offset and a run of the batches right after it, as many as fit the buffer and the segment; it is
  refused as too large only when that first batch does not fit. It changes nothing.\<close>

theorem log_read_spec:
  assumes "sim_healthy x" and "log_inv lg (sim_view x) bss"
  shows "\<exists>res x'. Log_read (sim_disk_ops rops) lg offset n x = Some (res, x') \<and> sim_healthy x' \<and>
           sim_view x' = sim_view x \<and>
           (if lg_next_offset lg \<le> offset then res = Inr []
            else if offset < lg_start_offset lg then res = fail kOffsetOutOfRange
            else \<exists>ws rest. batch_at offset (concat bss) = ws @ rest \<and> ws \<noteq> [] \<and> res = read_spec n ws)"
  by (rule sim_log.log_read_total [OF assms])

theorem log_read_spec_witness:
  "\<exists>res x'. Log_read (sim_disk_ops seeded_ops) sample_log 3 100 (sample_disk, reseed 1) = Some (res, x') \<and>
     res = Inr (batch_enc (sample_entry 2))"
proof -
  have at: "batch_at 3 [sample_entry 0, sample_entry 2] = [sample_entry 2]"
    using batch_wf_next_offset [OF sample_entry_wf]
    by (simp add: batch_at_def) (simp add: sample_entry_def finished_header_def unsealed_header_def)
  have offs: "\<not> lg_next_offset sample_log \<le> 3" "\<not> 3 < lg_start_offset sample_log"
    by (simp_all add: sample_log_def Log_new_def)
  have ws: "ws = [sample_entry 2]" if "[sample_entry 2] = ws @ rest" "ws \<noteq> []" for ws rest
    using that by (cases ws) auto
  show ?thesis
    using log_read_spec [OF sample_healthy sample_log_inv, of seeded_ops 3 100 "reseed 1"] offs at
    by (auto dest!: ws simp: read_spec_def length_sample_entry)
qed

text \<open>C9. Cutting the log. On a disk that answers, a truncation at the end of the log or where one of its batches
  begins succeeds, dropping whole segments and then cutting inside the last one left; the log then holds
  exactly the batches before the cut and expects the cut as its next offset.\<close>

theorem log_truncate_spec:
  assumes "sim_healthy x" and "log_inv lg (sim_view x) bss" and "lg_start_offset lg \<le> offset" and "offset \<le> lg_next_offset lg"
    and "\<forall>bs \<in> set bss. length (log_bytes bs) \<le> kMaxFileBytes"
    and "offset = lg_next_offset lg \<or> (\<exists>b \<in> set (concat bss). bh_base_offset (fst b) = offset)"
  shows "\<exists>lg' x' bss' us ws. Log_truncate_to (sim_disk_ops rops) offset lg x = Some (Inr (), lg', x') \<and> sim_healthy x' \<and>
           log_inv lg' (sim_view x') bss' \<and> concat bss' = us \<and> concat bss = us @ ws \<and>
           chain_end (lg_start_offset lg) us = offset \<and> same_log lg lg' \<and> lg_next_offset lg' = offset"
  by (rule sim_log.log_truncate_total [OF assms(1-5)]) (use assms(6) in \<open>simp add: starts_at_def\<close>)

theorem log_truncate_spec_witness:
  "\<exists>lg' x' bss' us ws. Log_truncate_to (sim_disk_ops seeded_ops) 2 sample_log (sample_disk, reseed 1) = Some (Inr (), lg', x') \<and>
     sim_healthy x' \<and> log_inv lg' (sim_view x') bss' \<and> concat bss' = us \<and>
     concat [[sample_entry 0, sample_entry 2]] = us @ ws \<and> chain_end (lg_start_offset sample_log) us = 2 \<and>
     same_log sample_log lg' \<and> lg_next_offset lg' = 2"
  by (rule log_truncate_spec [OF sample_healthy sample_log_inv])
    (simp_all add: sample_log_def Log_new_def length_sample_entry consts_of,
     simp add: sample_entry_def finished_header_def unsealed_header_def)

text \<open>C35. Epochs. On a disk that answers, the scan returns boundaries that answer the question asked of them:
  for every batch in the log, the last boundary at or before its offset names the epoch that wrote it.\<close>

theorem log_scan_epochs_spec:
  assumes "sim_healthy x" and "log_inv lg (sim_view x) bss"
  shows "\<exists>es x'. Log_scan_epochs (sim_disk_ops rops) lg x = Some (Inr es, x') \<and> sim_healthy x' \<and> sim_view x' = sim_view x \<and>
           (\<forall>b \<in> set (concat bss). epoch_at es (bh_base_offset (fst b)) = bh_leader_epoch (fst b))"
proof -
  have "no_wrap (lg_start_offset lg) (concat bss)" using assms(2) by (simp add: log_inv_def)
  then show ?thesis
    using sim_log.log_scan_epochs_total [OF assms, of rops] epochs_of_lookup [OF log_inv_chain [OF assms(2)]] by blast
qed

theorem log_scan_epochs_spec_witness:
  "\<exists>es x'. Log_scan_epochs (sim_disk_ops seeded_ops) sample_log (sample_disk, reseed 1) = Some (Inr es, x') \<and>
     sim_healthy x' \<and> sim_view x' = sim_view (sample_disk, reseed 1) \<and>
     (\<forall>b \<in> set (concat [[sample_entry 0, sample_entry 2]]). epoch_at es (bh_base_offset (fst b)) = bh_leader_epoch (fst b))"
  by (rule log_scan_epochs_spec [OF sample_healthy sample_log_inv])

end
