(* ===== verification/Raft_Types.thy ===== *)
theory Raft_Types
  imports Base
begin

text \<open>
  \<^verbatim>\<open>src/src/raft/types.h\<close>: the vocabulary of the consensus layer. Indices are storage
  offsets; the log is described by an exclusive end. A message is one flat record whose defaults are
  those of the C++ struct.
\<close>

type_synonym NodeId = u32
type_synonym Term = u64
type_synonym Index = u64

definition kNoNode :: NodeId where
  [consts_of]: "kNoNode = 0xFFFFFFFF"

definition kNoIndex :: Index where
  [consts_of]: "kNoIndex = 0xFFFFFFFFFFFFFFFF"

definition kNoTerm :: Term where
  [consts_of]: "kNoTerm = 0"

lemma kNoIndex_max [simp]: "x \<le> kNoIndex" "x < kNoIndex \<longleftrightarrow> x \<noteq> kNoIndex"
proof -
  show le: "x \<le> kNoIndex"
    using unat_u64_bound [of x] by (simp add: kNoIndex_def word_le_nat_alt del: unat_u64_bound)
  show "x < kNoIndex \<longleftrightarrow> x \<noteq> kNoIndex" using le by auto
qed

datatype Role = kFollower | kCandidate | kLeader

fun Role_to_string :: "Role \<Rightarrow> string" where
  "Role_to_string kFollower = ''follower''"
| "Role_to_string kCandidate = ''candidate''"
| "Role_to_string kLeader = ''leader''"

record Epoch =
  ep_term :: Term
  ep_start :: Index

record HardState =
  hs_term :: Term
  hs_voted_for :: NodeId

definition HardState_new :: HardState where
  "HardState_new = \<lparr>hs_term = 0, hs_voted_for = kNoNode\<rparr>"

datatype MessageType = kRequestVote | kRequestVoteResponse | kAppendEntries | kAppendEntriesResponse

fun MessageType_value :: "MessageType \<Rightarrow> u8" where
  "MessageType_value kRequestVote = 1"
| "MessageType_value kRequestVoteResponse = 2"
| "MessageType_value kAppendEntries = 3"
| "MessageType_value kAppendEntriesResponse = 4"

fun MessageType_to_string :: "MessageType \<Rightarrow> string" where
  "MessageType_to_string kRequestVote = ''RequestVote''"
| "MessageType_to_string kRequestVoteResponse = ''RequestVoteResp''"
| "MessageType_to_string kAppendEntries = ''AppendEntries''"
| "MessageType_to_string kAppendEntriesResponse = ''AppendEntriesResp''"

record Message =
  m_type :: MessageType
  m_from :: NodeId
  m_to :: NodeId
  m_term :: Term
  m_log_index :: Index
  m_log_term :: Term
  m_commit_index :: Index
  m_entry_index :: Index
  m_entry_end :: Index
  m_entry_term :: Term
  m_granted :: bool

definition Message_new :: Message where
  "Message_new =
     \<lparr>m_type = kRequestVote, m_from = kNoNode, m_to = kNoNode, m_term = 0, m_log_index = 0, m_log_term = 0,
      m_commit_index = 0, m_entry_index = kNoIndex, m_entry_end = 0, m_entry_term = 0, m_granted = False\<rparr>"

definition carries_entry :: "Message \<Rightarrow> bool" where
  "carries_entry m \<longleftrightarrow> m_entry_index m \<noteq> kNoIndex"

record Config =
  cfg_id :: NodeId
  cfg_peers :: "NodeId list"
  cfg_election_timeout_ticks :: u32
  cfg_election_timeout_jitter_ticks :: u32
  cfg_heartbeat_timeout_ticks :: u32

definition cluster_size :: "Config \<Rightarrow> nat" where
  "cluster_size c = length (cfg_peers c) + 1"

definition quorum :: "Config \<Rightarrow> nat" where
  "quorum c = cluster_size c div 2 + 1"

record Ready =
  rd_persist_hard_state :: bool
  rd_hard_state :: HardState
  rd_messages :: "Message list"
  rd_truncate_from :: Index
  rd_append_entry :: bool
  rd_commit_index :: Index

definition Ready_empty :: "Ready \<Rightarrow> bool" where
  "Ready_empty rd \<longleftrightarrow>
     \<not> rd_persist_hard_state rd \<and> rd_messages rd = [] \<and> \<not> rd_append_entry rd \<and> rd_truncate_from rd = kNoIndex"

end
