(* ===== verification/Raft_Node.thy ===== *)
theory Raft_Node
  imports Raft_Types Io_Random "HOL-Library.Monad_Syntax"
begin

text \<open>
  \<^verbatim>\<open>src/src/raft/node.h\<close> and \<^verbatim>\<open>node.cpp\<close>: the Raft state machine. The members
  of the class are the fields of \<open>Node\<close>; the source of randomness is threaded beside it, and an
  operation that may draw from it is option-valued, \<open>None\<close> standing for a draw that never returns.
  The ordered set of votes is a set and the ordered maps of the leader are partial maps: the code
  only inserts, counts and looks up.
\<close>

section \<open>State (\<^verbatim>\<open>node.h\<close>)\<close>

record Node =
  nd_config :: Config
  nd_hard :: HardState
  nd_hard_state_dirty :: bool
  nd_role :: Role
  nd_leader :: NodeId
  nd_votes :: "NodeId set"
  nd_log_end :: Index
  nd_last_term :: Term
  nd_commit_index :: Index
  nd_epochs :: "Epoch list"
  nd_match :: "NodeId \<rightharpoonup> Index"
  nd_next :: "NodeId \<rightharpoonup> Index"
  nd_pending_truncate :: Index
  nd_pending_append :: bool
  nd_election_elapsed :: u32
  nd_heartbeat_elapsed :: u32
  nd_election_timeout :: u32
  nd_campaigns :: u64
  nd_lease_refusals :: u64
  nd_out :: "Message list"

abbreviation nd_term :: "Node \<Rightarrow> Term" where
  "nd_term nd \<equiv> hs_term (nd_hard nd)"

abbreviation nd_voted_for :: "Node \<Rightarrow> NodeId" where
  "nd_voted_for nd \<equiv> hs_voted_for (nd_hard nd)"

abbreviation nd_id :: "Node \<Rightarrow> NodeId" where
  "nd_id nd \<equiv> cfg_id (nd_config nd)"

abbreviation nd_peers :: "Node \<Rightarrow> NodeId list" where
  "nd_peers nd \<equiv> cfg_peers (nd_config nd)"

definition hard_state_persisted :: "Node \<Rightarrow> Node" where
  "hard_state_persisted nd = nd\<lparr>nd_hard_state_dirty := False\<rparr>"

section \<open>Timers and messages (\<^verbatim>\<open>node.cpp\<close>)\<close>

definition reset_election_timer :: "'r random_ops \<Rightarrow> Node \<Rightarrow> 'r \<Rightarrow> (Node \<times> 'r) option" where
  "reset_election_timer ops nd r = do {
     (jitter, r) \<leftarrow>
       (if cfg_election_timeout_jitter_ticks (nd_config nd) = 0 then Some (0, r)
        else rnd_next_below ops (ucast (cfg_election_timeout_jitter_ticks (nd_config nd))) r);
     let timeout = cfg_election_timeout_ticks (nd_config nd) + ucast jitter;
     Some (nd\<lparr>nd_election_elapsed := 0, nd_election_timeout := (if timeout = 0 then 1 else timeout)\<rparr>, r)
   }"

definition Node_init :: "Config \<Rightarrow> HardState \<Rightarrow> Node" where
  "Node_init config persisted =
     \<lparr>nd_config = config, nd_hard = persisted, nd_hard_state_dirty = False, nd_role = kFollower,
      nd_leader = kNoNode, nd_votes = {}, nd_log_end = 0, nd_last_term = kNoTerm, nd_commit_index = 0,
      nd_epochs = [], nd_match = Map.empty, nd_next = Map.empty, nd_pending_truncate = kNoIndex,
      nd_pending_append = False, nd_election_elapsed = 0, nd_heartbeat_elapsed = 0, nd_election_timeout = 0,
      nd_campaigns = 0, nd_lease_refusals = 0, nd_out = []\<rparr>"

definition Node_new :: "'r random_ops \<Rightarrow> Config \<Rightarrow> HardState \<Rightarrow> 'r \<Rightarrow> (Node \<times> 'r) option" where
  "Node_new ops config persisted r = reset_election_timer ops (Node_init config persisted) r"

definition Node_send :: "Message \<Rightarrow> Node \<Rightarrow> Node" where
  "Node_send message nd =
     nd\<lparr>nd_out := nd_out nd @ [message\<lparr>m_from := nd_id nd, m_term := nd_term nd\<rparr>]\<rparr>"

definition Node_reply :: "Message \<Rightarrow> MessageType \<Rightarrow> bool \<Rightarrow> Node \<Rightarrow> Node" where
  "Node_reply to_msg type granted nd =
     Node_send (Message_new\<lparr>m_type := type, m_to := m_from to_msg, m_granted := granted,
                            m_log_index := nd_log_end nd, m_log_term := nd_last_term nd\<rparr>) nd"

section \<open>The log as the consensus layer sees it\<close>

definition log_is_up_to_date :: "Index \<Rightarrow> Term \<Rightarrow> Node \<Rightarrow> bool" where
  "log_is_up_to_date end_idx t nd =
     (if t \<noteq> nd_last_term nd then t > nd_last_term nd else end_idx \<ge> nd_log_end nd)"

definition term_at :: "Node \<Rightarrow> Index \<Rightarrow> Term" where
  "term_at nd index =
     (if index \<ge> nd_log_end nd \<or> nd_epochs nd = [] then kNoTerm
      else let it = upper_bound (\<lambda>target e. target < ep_start e) (nd_epochs nd) index
           in if it = 0 then kNoTerm else ep_term (nd_epochs nd ! (it - 1)))"

definition epoch_start_at :: "Node \<Rightarrow> Index \<Rightarrow> Index" where
  "epoch_start_at nd index =
     (if nd_epochs nd = [] then 0
      else let it = upper_bound (\<lambda>target e. target < ep_start e) (nd_epochs nd) index
           in if it = 0 then ep_start (hd (nd_epochs nd)) else ep_start (nd_epochs nd ! (it - 1)))"

definition append_epoch :: "Term \<Rightarrow> Index \<Rightarrow> Node \<Rightarrow> Node" where
  "append_epoch t start nd =
     (if nd_epochs nd \<noteq> [] \<and> ep_term (last (nd_epochs nd)) = t then nd
      else nd\<lparr>nd_epochs := nd_epochs nd @ [\<lparr>ep_term = t, ep_start = start\<rparr>]\<rparr>)"

function pop_epochs :: "Index \<Rightarrow> Epoch list \<Rightarrow> Epoch list" where
  "pop_epochs index es = (if es \<noteq> [] \<and> ep_start (last es) \<ge> index then pop_epochs index (butlast es) else es)"
  by pat_completeness auto
termination
  by (relation "measure (\<lambda>(_, es). length es)") auto

declare pop_epochs.simps [simp del]

definition truncate_epochs_from :: "Index \<Rightarrow> Node \<Rightarrow> Node" where
  "truncate_epochs_from index nd = nd\<lparr>nd_epochs := pop_epochs index (nd_epochs nd)\<rparr>"

text \<open>\<^verbatim>\<open>last_term_ = log_end_ == 0 ? kNoTerm : term_at(log_end_ - 1)\<close>, written twice in the source.\<close>

definition refresh_last_term :: "Node \<Rightarrow> Node" where
  "refresh_last_term nd =
     nd\<lparr>nd_last_term := (if nd_log_end nd = 0 then kNoTerm else term_at nd (nd_log_end nd - 1))\<rparr>"

definition restore_log :: "Index \<Rightarrow> Epoch list \<Rightarrow> Node \<Rightarrow> Node" where
  "restore_log log_end epochs nd =
     (let nd = refresh_last_term (nd\<lparr>nd_log_end := log_end, nd_epochs := epochs\<rparr>)
      in if nd_commit_index nd > nd_log_end nd then nd\<lparr>nd_commit_index := nd_log_end nd\<rparr> else nd)"

definition match_end :: "Node \<Rightarrow> NodeId \<Rightarrow> Index" where
  "match_end nd peer = (case nd_match nd peer of None \<Rightarrow> 0 | Some i \<Rightarrow> i)"

definition next_index :: "Node \<Rightarrow> NodeId \<Rightarrow> Index" where
  "next_index nd peer = (case nd_next nd peer of None \<Rightarrow> 0 | Some i \<Rightarrow> i)"

definition quorum_end :: "Node \<Rightarrow> Index" where
  "quorum_end nd =
     (let ends = nd_log_end nd # map (match_end nd) (nd_peers nd)
      in rev (sort ends) ! (quorum (nd_config nd) - 1))"

definition advance_commit_index :: "Node \<Rightarrow> Node" where
  "advance_commit_index nd =
     (if nd_role nd \<noteq> kLeader then nd
      else if quorum_end nd \<le> nd_commit_index nd then nd
      else if term_at nd (quorum_end nd - 1) \<noteq> nd_term nd then nd
      else nd\<lparr>nd_commit_index := quorum_end nd\<rparr>)"

section \<open>Replicating\<close>

definition append_entries_for :: "Node \<Rightarrow> NodeId \<Rightarrow> Message" where
  "append_entries_for nd peer =
     (let from = next_index nd peer;
          message = Message_new\<lparr>m_type := kAppendEntries, m_to := peer, m_commit_index := nd_commit_index nd\<rparr>;
          message = (if from = 0 then message\<lparr>m_log_index := kNoIndex, m_log_term := kNoTerm\<rparr>
                     else message\<lparr>m_log_index := from - 1, m_log_term := term_at nd (from - 1)\<rparr>)
      in if from < nd_log_end nd then message\<lparr>m_entry_index := from, m_entry_term := term_at nd from\<rparr>
         else message)"

definition send_append_entries :: "NodeId \<Rightarrow> Node \<Rightarrow> Node" where
  "send_append_entries peer nd = Node_send (append_entries_for nd peer) nd"

definition broadcast_heartbeat :: "Node \<Rightarrow> Node" where
  "broadcast_heartbeat nd = fold send_append_entries (nd_peers nd) nd"

definition push_appended :: "Index \<Rightarrow> Node \<Rightarrow> Node" where
  "push_appended index nd =
     fold (\<lambda>peer nd. if next_index nd peer = index then send_append_entries peer nd else nd) (nd_peers nd) nd"

definition log_appended :: "Index \<Rightarrow> Index \<Rightarrow> Term \<Rightarrow> Node \<Rightarrow> Node" where
  "log_appended index end_idx t nd =
     (let nd = (append_epoch t index nd)\<lparr>nd_log_end := (if end_idx > index then end_idx else index + 1), nd_last_term := t\<rparr>
      in if nd_role nd \<noteq> kLeader then nd else push_appended index (advance_commit_index nd))"

section \<open>Roles\<close>

definition become_follower :: "'r random_ops \<Rightarrow> Term \<Rightarrow> NodeId \<Rightarrow> Node \<Rightarrow> 'r \<Rightarrow> (Node \<times> 'r) option" where
  "become_follower ops t leader nd r =
     (let nd = (if t > nd_term nd
                then nd\<lparr>nd_hard := \<lparr>hs_term = t, hs_voted_for = kNoNode\<rparr>, nd_hard_state_dirty := True\<rparr> else nd)
      in reset_election_timer ops (nd\<lparr>nd_role := kFollower, nd_leader := leader, nd_votes := {}\<rparr>) r)"

definition become_candidate :: "'r random_ops \<Rightarrow> Node \<Rightarrow> 'r \<Rightarrow> (Node \<times> 'r) option" where
  "become_candidate ops nd r =
     reset_election_timer ops
       (nd\<lparr>nd_hard := \<lparr>hs_term = nd_term nd + 1, hs_voted_for = nd_id nd\<rparr>, nd_hard_state_dirty := True,
           nd_role := kCandidate, nd_leader := kNoNode, nd_votes := {nd_id nd}, nd_campaigns := nd_campaigns nd + 1\<rparr>) r"

definition become_leader :: "Node \<Rightarrow> Node" where
  "become_leader nd =
     broadcast_heartbeat
       (nd\<lparr>nd_role := kLeader, nd_leader := nd_id nd, nd_heartbeat_elapsed := 0,
           nd_match := (\<lambda>p. if p \<in> set (nd_peers nd) then Some 0 else None),
           nd_next := (\<lambda>p. if p \<in> set (nd_peers nd) then Some (nd_log_end nd) else None)\<rparr>)"

definition request_votes :: "Node \<Rightarrow> Node" where
  "request_votes nd =
     fold (\<lambda>peer nd. Node_send (Message_new\<lparr>m_type := kRequestVote, m_to := peer, m_log_index := nd_log_end nd,
                                            m_log_term := nd_last_term nd\<rparr>) nd) (nd_peers nd) nd"

definition campaign :: "'r random_ops \<Rightarrow> Node \<Rightarrow> 'r \<Rightarrow> (Node \<times> 'r) option" where
  "campaign ops nd r = do {
     (nd, r) \<leftarrow> become_candidate ops nd r;
     Some (if card (nd_votes nd) \<ge> quorum (nd_config nd) then become_leader nd else request_votes nd, r)
   }"

definition tick :: "'r random_ops \<Rightarrow> Node \<Rightarrow> 'r \<Rightarrow> (Node \<times> 'r) option" where
  "tick ops nd r =
     (if nd_role nd = kLeader
      then let nd = nd\<lparr>nd_heartbeat_elapsed := nd_heartbeat_elapsed nd + 1\<rparr>
           in Some (if nd_heartbeat_elapsed nd \<ge> cfg_heartbeat_timeout_ticks (nd_config nd)
                    then broadcast_heartbeat (nd\<lparr>nd_heartbeat_elapsed := 0\<rparr>) else nd, r)
      else let nd = nd\<lparr>nd_election_elapsed := nd_election_elapsed nd + 1\<rparr>
           in if nd_election_elapsed nd \<ge> nd_election_timeout nd then campaign ops nd r else Some (nd, r))"

section \<open>Handlers\<close>

definition handle_request_vote :: "Message \<Rightarrow> Node \<Rightarrow> Node" where
  "handle_request_vote message nd =
     (let already_committed_elsewhere = nd_voted_for nd \<noteq> kNoNode \<and> nd_voted_for nd \<noteq> m_from message;
          granted = \<not> already_committed_elsewhere \<and> log_is_up_to_date (m_log_index message) (m_log_term message) nd;
          nd = (if granted
                then (if nd_voted_for nd \<noteq> m_from message
                      then nd\<lparr>nd_hard := (nd_hard nd)\<lparr>hs_voted_for := m_from message\<rparr>, nd_hard_state_dirty := True\<rparr>
                      else nd)\<lparr>nd_election_elapsed := 0\<rparr>
                else nd)
      in Node_reply message kRequestVoteResponse granted nd)"

definition handle_request_vote_response :: "Message \<Rightarrow> Node \<Rightarrow> Node" where
  "handle_request_vote_response message nd =
     (if nd_role nd \<noteq> kCandidate then nd
      else if \<not> m_granted message then nd
      else let nd = nd\<lparr>nd_votes := insert (m_from message) (nd_votes nd)\<rparr>
           in if card (nd_votes nd) \<ge> quorum (nd_config nd) then become_leader nd else nd)"

text \<open>The log-matching check of \<^verbatim>\<open>handle_append_entries\<close>, its refusal, and the three parts of an acceptance.\<close>

definition append_matches :: "Message \<Rightarrow> Node \<Rightarrow> bool" where
  "append_matches message nd \<longleftrightarrow>
     m_log_index message = kNoIndex \<or>
     m_log_index message < nd_log_end nd \<and> term_at nd (m_log_index message) = m_log_term message"

definition append_refused :: "Message \<Rightarrow> Node \<Rightarrow> Node" where
  "append_refused message nd =
     Node_send (Message_new\<lparr>m_type := kAppendEntriesResponse, m_to := m_from message, m_granted := False,
                            m_log_term := nd_last_term nd,
                            m_log_index := (if m_log_index message \<ge> nd_log_end nd then nd_log_end nd
                                            else epoch_start_at nd (m_log_index message))\<rparr>) nd"

definition append_at :: "Message \<Rightarrow> Index" where
  "append_at message = (if m_log_index message = kNoIndex then 0 else m_log_index message + 1)"

definition entry_end :: "Message \<Rightarrow> Index" where
  "entry_end message =
     (if m_entry_end message > m_entry_index message then m_entry_end message else m_entry_index message + 1)"

definition drop_conflict :: "Message \<Rightarrow> Node \<Rightarrow> Node" where
  "drop_conflict message nd =
     (let existing = term_at nd (append_at message)
      in if existing \<noteq> kNoTerm \<and> existing \<noteq> m_entry_term message
         then refresh_last_term
                ((truncate_epochs_from (append_at message) (nd\<lparr>nd_pending_truncate := append_at message\<rparr>))
                   \<lparr>nd_log_end := append_at message\<rparr>)
         else nd)"

definition take_entry :: "Message \<Rightarrow> Node \<Rightarrow> Node" where
  "take_entry message nd =
     (let nd = drop_conflict message nd
      in if append_at message \<ge> nd_log_end nd
         then log_appended (append_at message) (entry_end message) (m_entry_term message) (nd\<lparr>nd_pending_append := True\<rparr>)
         else nd)"

definition adopt_commit :: "Message \<Rightarrow> Node \<Rightarrow> Node" where
  "adopt_commit message nd =
     (if m_commit_index message > nd_commit_index nd
      then nd\<lparr>nd_commit_index := min (m_commit_index message) (nd_log_end nd)\<rparr> else nd)"

definition append_accepted :: "Message \<Rightarrow> Node \<Rightarrow> Node" where
  "append_accepted message nd =
     Node_send (Message_new\<lparr>m_type := kAppendEntriesResponse, m_to := m_from message, m_granted := True,
                            m_log_index := (if carries_entry message then entry_end message else append_at message),
                            m_log_term := nd_last_term nd\<rparr>) nd"

definition handle_append_entries :: "'r random_ops \<Rightarrow> Message \<Rightarrow> Node \<Rightarrow> 'r \<Rightarrow> (Node \<times> 'r) option" where
  "handle_append_entries ops message nd r =
     (if nd_role nd = kLeader then Some (nd, r)
      else do {
        (nd, r) \<leftarrow> become_follower ops (m_term message) (m_from message) nd r;
        Some (if \<not> append_matches message nd then append_refused message nd
              else append_accepted message
                     (adopt_commit message (if carries_entry message then take_entry message nd else nd)), r)
      })"

definition handle_append_entries_response :: "Message \<Rightarrow> Node \<Rightarrow> Node" where
  "handle_append_entries_response message nd =
     (let peer = m_from message in
      if nd_role nd \<noteq> kLeader then nd
      else if \<not> m_granted message
      then let retry = m_log_index message;
               retry = (if retry > nd_log_end nd then nd_log_end nd else retry);
               retry = (if retry < match_end nd peer then match_end nd peer else retry)
           in send_append_entries peer (nd\<lparr>nd_next := (nd_next nd)(peer \<mapsto> retry)\<rparr>)
      else let confirmed = min (m_log_index message) (nd_log_end nd);
               nd = (if confirmed > match_end nd peer then nd\<lparr>nd_match := (nd_match nd)(peer \<mapsto> confirmed)\<rparr> else nd);
               nd = (if confirmed > next_index nd peer then nd\<lparr>nd_next := (nd_next nd)(peer \<mapsto> confirmed)\<rparr> else nd);
               nd = advance_commit_index nd
           in if next_index nd peer < nd_log_end nd then send_append_entries peer nd else nd)"

section \<open>Stepping\<close>

definition reply_stale :: "Message \<Rightarrow> Node \<Rightarrow> Node" where
  "reply_stale message nd =
     (case m_type message of
        kRequestVote \<Rightarrow> Node_reply message kRequestVoteResponse False nd
      | kAppendEntries \<Rightarrow> Node_reply message kAppendEntriesResponse False nd
      | kRequestVoteResponse \<Rightarrow> nd
      | kAppendEntriesResponse \<Rightarrow> nd)"

definition handle :: "'r random_ops \<Rightarrow> Message \<Rightarrow> Node \<Rightarrow> 'r \<Rightarrow> (Node \<times> 'r) option" where
  "handle ops message nd r =
     (case m_type message of
        kRequestVote \<Rightarrow> Some (handle_request_vote message nd, r)
      | kRequestVoteResponse \<Rightarrow> Some (handle_request_vote_response message nd, r)
      | kAppendEntries \<Rightarrow> handle_append_entries ops message nd r
      | kAppendEntriesResponse \<Rightarrow> Some (handle_append_entries_response message nd, r))"

definition has_live_leader :: "Node \<Rightarrow> bool" where
  "has_live_leader nd \<longleftrightarrow>
     nd_role nd = kFollower \<and> nd_leader nd \<noteq> kNoNode \<and>
     nd_election_elapsed nd < cfg_election_timeout_ticks (nd_config nd)"

definition step :: "'r random_ops \<Rightarrow> Message \<Rightarrow> Node \<Rightarrow> 'r \<Rightarrow> (Node \<times> 'r) option" where
  "step ops message nd r =
     (if m_type message = kRequestVote \<and> has_live_leader nd
      then Some (nd\<lparr>nd_lease_refusals := nd_lease_refusals nd + 1\<rparr>, r)
      else do {
        (nd, r) \<leftarrow>
          (if m_term message > nd_term nd
           then become_follower ops (m_term message)
                  (if m_type message = kAppendEntries then m_from message else kNoNode) nd r
           else Some (nd, r));
        if m_term message < nd_term nd then Some (reply_stale message nd, r)
        else handle ops message nd r
      })"

definition take_ready :: "Node \<Rightarrow> Ready \<times> Node" where
  "take_ready nd =
     (\<lparr>rd_persist_hard_state = nd_hard_state_dirty nd, rd_hard_state = nd_hard nd, rd_messages = nd_out nd,
       rd_truncate_from = nd_pending_truncate nd, rd_append_entry = nd_pending_append nd,
       rd_commit_index = nd_commit_index nd\<rparr>,
      nd\<lparr>nd_out := [], nd_pending_truncate := kNoIndex, nd_pending_append := False\<rparr>)"

end
