(* ===== verification/Raft_Codec.thy ===== *)
theory Raft_Codec
  imports Raft_Types Wire
begin

text \<open>
  \<^verbatim>\<open>src/src/raft/codec.h\<close> and \<^verbatim>\<open>codec.cpp\<close>: the payload of a
  broker-to-broker frame, a fixed header optionally followed by one record batch. Encoding fills a
  buffer the caller sized; decoding is given bytes from the network.
\<close>

definition kMessageHeaderBytes :: nat where
  [consts_of]: "kMessageHeaderBytes = 72"

definition message_bytes :: "nat \<Rightarrow> nat" where
  "message_bytes entry_size = kMessageHeaderBytes + entry_size"

text \<open>The stores of the header, in the order of the code.\<close>

definition store_message :: "bytes \<Rightarrow> Message \<Rightarrow> bool \<Rightarrow> nat \<Rightarrow> bytes" where
  "store_message p message attached entry_size =
     (let p = write_at p 0 [MessageType_value (m_type message)];
          p = write_at p 1 [if m_granted message then 1 else 0];
          p = write_at p 2 (store_u16_le 0);
          p = write_at p 4 (store_u32_le (m_from message));
          p = write_at p 8 (store_u32_le (m_to message));
          p = write_at p 12 (store_u32_le (of_nat entry_size));
          p = write_at p 16 (store_u64_le (m_term message));
          p = write_at p 24 (store_u64_le (m_log_index message));
          p = write_at p 32 (store_u64_le (m_log_term message));
          p = write_at p 40 (store_u64_le (m_commit_index message));
          p = write_at p 48 (store_u64_le (if attached then m_entry_index message else kNoIndex));
          p = write_at p 56 (store_u64_le (if attached then m_entry_term message else kNoTerm))
      in write_at p 64 (store_u64_le (if attached then m_entry_end message else 0)))"

definition encode_message :: "bytes \<Rightarrow> Message \<Rightarrow> bytes \<Rightarrow> bytes" where
  "encode_message out message entry =
     (let attached = carries_entry message \<and> entry \<noteq> [];
          entry_size = (if attached then length entry else 0)
      in if length out \<noteq> message_bytes entry_size then out
         else let p = write_at out 0 (replicate kMessageHeaderBytes 0);
                  p = store_message p message attached entry_size
              in if entry_size \<noteq> 0 then write_at p kMessageHeaderBytes entry else p)"

definition type_of_byte :: "u8 \<Rightarrow> MessageType" where
  "type_of_byte b = (if b = 1 then kRequestVote else if b = 2 then kRequestVoteResponse
                     else if b = 3 then kAppendEntries else kAppendEntriesResponse)"

definition load_message :: "bytes \<Rightarrow> Message" where
  "load_message p =
     Message_new\<lparr>m_type := type_of_byte (p ! 0), m_granted := p ! 1 \<noteq> 0,
       m_from := load_u32_le (drop 4 p), m_to := load_u32_le (drop 8 p),
       m_term := load_u64_le (drop 16 p), m_log_index := load_u64_le (drop 24 p),
       m_log_term := load_u64_le (drop 32 p), m_commit_index := load_u64_le (drop 40 p),
       m_entry_index := load_u64_le (drop 48 p), m_entry_term := load_u64_le (drop 56 p),
       m_entry_end := load_u64_le (drop 64 p)\<rparr>"

text \<open>The decoded message and the batch attached to it, empty when there is none.\<close>

definition decode_message :: "bytes \<Rightarrow> (Message \<times> bytes) result" where
  "decode_message payload =
     (if length payload < kMessageHeaderBytes then fail kInvalidRequest
      else if payload ! 0 < MessageType_value kRequestVote \<or> payload ! 0 > MessageType_value kAppendEntriesResponse
      then fail kInvalidRequest
      else let entry_size = load_u32_le (drop 12 payload)
           in if length payload \<noteq> message_bytes (unat entry_size) then fail kInvalidRequest
              else let message = load_message payload
                   in if carries_entry message \<noteq> (entry_size \<noteq> 0) then fail kInvalidRequest
                      else Inr (message, if entry_size \<noteq> 0 then slice_at payload kMessageHeaderBytes (unat entry_size)
                                         else []))"

fun api_key_for :: "MessageType \<Rightarrow> ApiKey" where
  "api_key_for kRequestVote = kApiRequestVote"
| "api_key_for kRequestVoteResponse = kApiRequestVote"
| "api_key_for kAppendEntries = kApiAppendEntries"
| "api_key_for kAppendEntriesResponse = kApiAppendEntries"

section \<open>The layout\<close>

lemma if_fail_eq: "(if b then fail e else x) = Inr y \<longleftrightarrow> \<not> b \<and> x = Inr y"
  by simp

text \<open>What a message becomes on the wire: one that carries no batch names no entry.\<close>

definition wire_form :: "Message \<Rightarrow> bytes \<Rightarrow> Message" where
  "wire_form m entry =
     (if carries_entry m \<and> entry \<noteq> [] then m
      else m\<lparr>m_entry_index := kNoIndex, m_entry_term := kNoTerm, m_entry_end := 0\<rparr>)"

definition wire_entry :: "Message \<Rightarrow> bytes \<Rightarrow> bytes" where
  "wire_entry m entry = (if carries_entry m then entry else [])"

definition message_header :: "Message \<Rightarrow> nat \<Rightarrow> bytes" where
  "message_header m n =
     [MessageType_value (m_type m)] @ [if m_granted m then 1 else 0] @ store_u16_le 0 @ store_u32_le (m_from m) @
     store_u32_le (m_to m) @ store_u32_le (of_nat n) @ store_u64_le (m_term m) @ store_u64_le (m_log_index m) @
     store_u64_le (m_log_term m) @ store_u64_le (m_commit_index m) @ store_u64_le (m_entry_index m) @
     store_u64_le (m_entry_term m) @ store_u64_le (m_entry_end m)"

lemma length_message_header [simp]: "length (message_header m n) = 72"
  by (simp add: message_header_def)

lemma wire_form_fields [simp]:
  "m_type (wire_form m e) = m_type m" "m_granted (wire_form m e) = m_granted m" "m_from (wire_form m e) = m_from m"
  "m_to (wire_form m e) = m_to m" "m_term (wire_form m e) = m_term m" "m_log_index (wire_form m e) = m_log_index m"
  "m_log_term (wire_form m e) = m_log_term m" "m_commit_index (wire_form m e) = m_commit_index m"
  by (simp_all add: wire_form_def)

lemma wire_form_carries: "carries_entry (wire_form m e) \<longleftrightarrow> wire_entry m e \<noteq> []"
  by (simp add: wire_form_def carries_entry_def wire_entry_def)

lemma store_run:
  assumes "length a = 1" and "length b = 1" and "length c = 2" and "length d = 4" and "length e = 4" and "length f = 4"
    and "length g = 8" and "length h = 8" and "length i = 8" and "length j = 8" and "length k = 8" and "length l = 8"
    and "length n = 8"
  shows "write_at (write_at (write_at (write_at (write_at (write_at (write_at (write_at (write_at (write_at (write_at
           (write_at (write_at p 0 a) 1 b) 2 c) 4 d) 8 e) 12 f) 16 g) 24 h) 32 i) 40 j) 48 k) 56 l) 64 n =
         (a @ b @ c @ d @ e @ f @ g @ h @ i @ j @ k @ l @ n) @ drop 72 p"
proof -
  have two: "write_at (write_at p 0 a) 1 b = (a @ b) @ drop 2 p"
    using assms(1,2) by (simp add: write_at_def numeral_2_eq_2)
  show ?thesis
    unfolding two using assms by (simp add: write_at_next del: append_assoc)
qed

lemma store_message_eq:
  "store_message p m (carries_entry m \<and> e \<noteq> []) n = message_header (wire_form m e) n @ drop 72 p"
  unfolding store_message_def Let_def message_header_def
  by (subst store_run) (auto simp: wire_form_def)

lemma encode_message_eq:
  assumes "length out = message_bytes (length (wire_entry m e))"
  shows "encode_message out m e = message_header (wire_form m e) (length (wire_entry m e)) @ wire_entry m e"
proof -
  have out: "length out = 72 + length (wire_entry m e)" using assms by (simp add: message_bytes_def consts_of)
  have sz: "(if carries_entry m \<and> e \<noteq> [] then length e else 0) = length (wire_entry m e)" by (simp add: wire_entry_def)
  have tail: "drop 72 (write_at out 0 (replicate 72 0)) = drop 72 out" by (simp add: write_at_def)
  show ?thesis
    unfolding encode_message_def Let_def sz store_message_eq
    using out by (auto simp: message_bytes_def consts_of tail write_at_def) (auto simp: wire_entry_def)
qed

lemma load_message_header: "load_message (message_header m n @ rest) = m"
  by (cases m; cases "m_type m")
    (simp_all add: load_message_def message_header_def nth_append layout type_of_byte_def Message_new_def)

lemma decode_encode:
  assumes "length out = message_bytes (length (wire_entry m e))" and "length e < 2 ^ 32"
  shows "decode_message (encode_message out m e) = Inr (wire_form m e, wire_entry m e)"
proof -
  let ?h = "message_header (wire_form m e) (length (wire_entry m e))"
  have n: "length (wire_entry m e) < 4294967296" using assms(2) by (simp add: wire_entry_def)
  have sz: "load_u32_le (drop 12 (?h @ wire_entry m e)) = of_nat (length (wire_entry m e))"
    by (simp add: message_header_def layout)
  have ty: "(?h @ wire_entry m e) ! 0 = MessageType_value (m_type m)" by (simp add: message_header_def)
  have ok: "\<not> MessageType_value (m_type m) < 1" "\<not> 4 < MessageType_value (m_type m)" by (cases "m_type m"; simp)+
  have nz: "(of_nat (length (wire_entry m e)) = (0 :: u32)) \<longleftrightarrow> wire_entry m e = []"
    using unat_of_nat_u32 [OF n] by auto
  show ?thesis
    unfolding encode_message_eq [OF assms(1)] decode_message_def Let_def sz ty load_message_header
    using ok nz unat_of_nat_u32 [OF n] wire_form_carries [of m e]
    by (auto simp: message_bytes_def consts_of slice_at_def)
qed

section \<open>Properties\<close>

text \<open>C36. Whatever message a node hands over, with whatever batch attached, the receiver decodes exactly what was
  encoded: every field, the granted bit, and the batch byte for byte. A message that carries no batch
  arrives as a heartbeat, with the fields that name an entry cleared.\<close>

theorem message_round_trip:
  assumes "length out = message_bytes (length (wire_entry m e))" and "length e < 2 ^ 32"
  shows "decode_message (encode_message out m e) = Inr (wire_form m e, wire_entry m e)"
  by (rule decode_encode [OF assms])

theorem message_round_trip_witness:
  "let m = Message_new\<lparr>m_type := kAppendEntries, m_from := 1, m_to := 2, m_term := 7, m_log_index := 4, m_log_term := 6,
                       m_entry_index := 5, m_entry_end := 7, m_entry_term := 7\<rparr>
   in decode_message (encode_message (replicate 75 0) m [1, 2, 3]) = Inr (m, [1, 2, 3])"
  using message_round_trip [of "replicate 75 0" "Message_new\<lparr>m_type := kAppendEntries, m_from := 1, m_to := 2,
      m_term := 7, m_log_index := 4, m_log_term := 6, m_entry_index := 5, m_entry_end := 7, m_entry_term := 7\<rparr>" "[1, 2, 3]"]
  by (simp add: Let_def message_bytes_def wire_entry_def wire_form_def carries_entry_def consts_of)

text \<open>C37. Decoding is safe on hostile bytes: whatever arrives, a message is accepted only when the payload is
  exactly the header and the batch it declares; the batch handed on is the rest of the payload; and the
  message names an entry exactly when a batch came with it, so a receiver that decides to append always
  has something to write.\<close>

theorem decode_message_exact:
  assumes "decode_message payload = Inr (m, e)"
  shows "length payload = 72 + length e \<and> e = drop 72 payload \<and> (carries_entry m \<longleftrightarrow> e \<noteq> []) \<and>
         length e = unat (load_u32_le (drop 12 payload))"
proof -
  let ?n = "load_u32_le (drop 12 payload)"
  have len: "length payload = 72 + unat ?n" and e: "e = (if ?n \<noteq> 0 then slice_at payload 72 (unat ?n) else [])"
    and c: "carries_entry m = (?n \<noteq> 0)"
    using assms unfolding decode_message_def Let_def message_bytes_def kMessageHeaderBytes_def
    by (simp_all only: if_fail_eq sum.inject prod.inject not_not) blast
  have tail: "take (unat ?n) (drop 72 payload) = drop 72 payload"
    by (rule take_all) (simp only: length_drop len add_diff_cancel_left' order_refl)
  have drop: "e = drop 72 payload"
  proof (cases "?n = 0")
    case True
    then have "length (drop 72 payload) = 0" by (simp only: length_drop len) simp
    then show ?thesis using e True by (simp only: length_0_conv) simp
  next
    case False
    then show ?thesis using e tail by (simp only: slice_at_def if_True not_False_eq_True)
  qed
  then have size_e: "length e = unat ?n" by (simp only: length_drop len add_diff_cancel_left')
  then have "e = [] \<longleftrightarrow> ?n = 0" by (metis length_0_conv unsigned_eq_0_iff)
  then have "carries_entry m \<longleftrightarrow> e \<noteq> []" using c by blast
  moreover have "length payload = 72 + length e" by (simp only: size_e len)
  ultimately show ?thesis using drop size_e by (intro conjI)
qed

theorem decode_message_exact_witness:
  "\<exists>m. decode_message (encode_message (replicate 72 0) Message_new []) = Inr (m, []) \<and> \<not> carries_entry m"
proof -
  have "decode_message (encode_message (replicate 72 0) Message_new []) = Inr (wire_form Message_new [], wire_entry Message_new [])"
    by (rule decode_encode) (simp_all add: message_bytes_def consts_of wire_entry_def)
  then have run: "decode_message (encode_message (replicate 72 0) Message_new []) = Inr (wire_form Message_new [], [])"
    by (simp add: wire_entry_def)
  show ?thesis using run decode_message_exact [OF run] by blast
qed

end
