(* ===== verification/State_File.thy ===== *)
theory State_File
  imports Raft_Types Crc32c
begin

text \<open>
  \<^verbatim>\<open>src/src/raft/state_file.h\<close> and \<^verbatim>\<open>state_file.cpp\<close>: the two-slot image of
  the term and the vote. The theory shows what a slot decodes to, and that reading the file gives back
  the newest slot that is whole, whatever a torn write left of the other one.
\<close>

section \<open>Model\<close>

definition kStateSlotBytes :: nat where
  [consts_of]: "kStateSlotBytes = 32"

definition kStateFileBytes :: nat where
  [consts_of]: "kStateFileBytes = kStateSlotBytes * 2"

definition kStateMagic :: u8 where
  [consts_of]: "kStateMagic = 0x52"

definition kStateVersion :: u8 where
  [consts_of]: "kStateVersion = 0"

record PersistedState =
  ps_hard :: HardState
  ps_sequence :: u64

definition state_slot_offset :: "u64 \<Rightarrow> nat" where
  "state_slot_offset sequence = unat (sequence mod 2) * kStateSlotBytes"

definition encode_state_slot :: "bytes \<Rightarrow> HardState \<Rightarrow> u64 \<Rightarrow> bytes" where
  "encode_state_slot out state sequence =
     (if length out \<noteq> kStateSlotBytes then out
      else let p = write_at out 0 (replicate kStateSlotBytes 0);
               p = write_at p 4 [kStateMagic];
               p = write_at p 5 [kStateVersion];
               p = write_at p 6 (store_u16_le 0);
               p = write_at p 8 (store_u64_le sequence);
               p = write_at p 16 (store_u64_le (hs_term state));
               p = write_at p 24 (store_u32_le (hs_voted_for state));
               p = write_at p 28 (store_u32_le 0);
               crc = crc32c (slice_at p 4 (kStateSlotBytes - 4))
           in write_at p 0 (store_u32_le crc))"

definition decode_state_slot :: "bytes \<Rightarrow> PersistedState result" where
  "decode_state_slot slot =
     (if length slot \<noteq> kStateSlotBytes then fail kCorruptRecord
      else if slot ! 4 \<noteq> kStateMagic then fail kCorruptRecord
      else if slot ! 5 \<noteq> kStateVersion then fail kUnsupportedVersion
      else if load_u32_le slot \<noteq> crc32c (slice_at slot 4 (kStateSlotBytes - 4)) then fail kCorruptRecord
      else Inr \<lparr>ps_hard = \<lparr>hs_term = load_u64_le (drop 16 slot), hs_voted_for = load_u32_le (drop 24 slot)\<rparr>,
                ps_sequence = load_u64_le (drop 8 slot)\<rparr>)"

text \<open>The loop of \<^verbatim>\<open>scan_state_file\<close>: the best slot so far, over the offsets left.\<close>

fun scan_slots :: "bytes \<Rightarrow> nat list \<Rightarrow> PersistedState option \<Rightarrow> PersistedState option" where
  "scan_slots file_bytes [] best = best"
| "scan_slots file_bytes (offset # rest) best =
     scan_slots file_bytes rest
       (case decode_state_slot (slice_at file_bytes offset kStateSlotBytes) of
          Inl e \<Rightarrow> best
        | Inr slot \<Rightarrow>
            (case best of
               None \<Rightarrow> Some slot
             | Some b \<Rightarrow> if ps_sequence slot > ps_sequence b then Some slot else best))"

definition scan_state_file :: "bytes \<Rightarrow> PersistedState result" where
  "scan_state_file file_bytes =
     (if length file_bytes < kStateSlotBytes then fail kCorruptRecord
      else let slots = min (length file_bytes) kStateFileBytes div kStateSlotBytes
           in case scan_slots file_bytes (map (\<lambda>i. i * kStateSlotBytes) [0..<slots]) None of
                None \<Rightarrow> fail kCorruptRecord
              | Some best \<Rightarrow> Inr best)"

section \<open>Slots\<close>

definition slot_body :: "HardState \<Rightarrow> u64 \<Rightarrow> bytes" where
  "slot_body h s =
     [kStateMagic] @ [kStateVersion] @ store_u16_le 0 @ store_u64_le s @ store_u64_le (hs_term h) @
     store_u32_le (hs_voted_for h) @ store_u32_le 0"

definition slot_bytes :: "HardState \<Rightarrow> u64 \<Rightarrow> bytes" where
  "slot_bytes h s = store_u32_le (crc32c (slot_body h s)) @ slot_body h s"

lemma length_slot_body [simp]: "length (slot_body h s) = 28"
  by (simp add: slot_body_def)

lemma length_slot_bytes [simp]: "length (slot_bytes h s) = 32"
  by (simp add: slot_bytes_def)

lemma slot_fields_run:
  assumes "length z = 4" and "length a = 1" and "length b = 1" and "length c = 2" and "length d = 8" and "length e = 8"
    and "length f = 4" and "length g = 4"
  shows "write_at (write_at (write_at (write_at (write_at (write_at (write_at (z @ drop 4 p) 4 a) 5 b) 6 c) 8 d) 16 e) 24 f) 28 g =
         z @ (a @ b @ c @ d @ e @ f @ g) @ drop 32 p"
  using assms by (simp add: write_at_next del: append_assoc)

lemma encode_state_slot_eq:
  assumes "length out = 32"
  shows "encode_state_slot out h s = slot_bytes h s"
proof -
  let ?z = "replicate 4 (0 :: u8)"
  have "write_at out 0 (replicate 32 0) = ?z @ drop 4 (replicate 32 0)"
    using assms replicate_add [of 4 28 "0 :: u8"] by (simp add: write_at_def)
  then have "encode_state_slot out h s =
      (let p = ?z @ slot_body h s; crc = crc32c (slice_at p 4 28) in write_at p 0 (store_u32_le crc))"
    using assms slot_fields_run [of ?z "[kStateMagic]" "[kStateVersion]" "store_u16_le 0" "store_u64_le s"
        "store_u64_le (hs_term h)" "store_u32_le (hs_voted_for h)" "store_u32_le 0" "replicate 32 0"]
    by (simp add: encode_state_slot_def kStateSlotBytes_def Let_def slot_body_def)
  then show ?thesis by (simp add: slice_at_def write_at_def slot_bytes_def)
qed

lemma decode_slot_bytes: "decode_state_slot (slot_bytes h s) = Inr \<lparr>ps_hard = h, ps_sequence = s\<rparr>"
  by (simp add: decode_state_slot_def slot_bytes_def kStateSlotBytes_def slice_at_def layout)
    (simp add: slot_body_def nth_append layout)

section \<open>The file\<close>

definition slot0 :: "bytes \<Rightarrow> bytes" where
  "slot0 c = take 32 c"

definition slot1 :: "bytes \<Rightarrow> bytes" where
  "slot1 c = take 32 (drop 32 c)"

text \<open>The better of two optional slots, the first one when they are level.\<close>

definition newer :: "PersistedState result \<Rightarrow> PersistedState result \<Rightarrow> PersistedState result" where
  "newer a b =
     (case a of
        Inl e \<Rightarrow> (case b of Inl e' \<Rightarrow> fail kCorruptRecord | Inr q \<Rightarrow> Inr q)
      | Inr p \<Rightarrow> (case b of Inl e' \<Rightarrow> Inr p | Inr q \<Rightarrow> if ps_sequence q > ps_sequence p then Inr q else Inr p))"

lemma short_slot: "length c < 32 \<Longrightarrow> decode_state_slot c = fail kCorruptRecord"
  by (simp add: decode_state_slot_def kStateSlotBytes_def)

lemma scan_state_file_eq: "scan_state_file c = newer (decode_state_slot (slot0 c)) (decode_state_slot (slot1 c))"
proof -
  consider "length c < 32" | "32 \<le> length c" "length c < 64" | "64 \<le> length c" by linarith
  then show ?thesis
  proof cases
    case 1
    then show ?thesis
      by (simp add: scan_state_file_def kStateSlotBytes_def newer_def slot0_def slot1_def short_slot)
  next
    case 2
    then have "min (length c) 64 div 32 = 1" by (intro div_nat_eqI) simp_all
    moreover have "decode_state_slot (slot1 c) = fail kCorruptRecord" using 2 by (simp add: short_slot slot1_def)
    ultimately show ?thesis
      using 2 by (auto simp: scan_state_file_def kStateSlotBytes_def kStateFileBytes_def newer_def slot0_def slice_at_def
          split: sum.splits)
  next
    case 3
    then have "min (length c) 64 div 32 = 2" by simp
    then show ?thesis
      using 3 by (auto simp: scan_state_file_def kStateSlotBytes_def kStateFileBytes_def newer_def slot0_def slot1_def slice_at_def
          numeral_2_eq_2 upt_rec split: sum.splits)
  qed
qed

end
