(* ===== verification/Io_Network.thy ===== *)
theory Io_Network
  imports Base
begin

text \<open>
  \<^verbatim>\<open>src/src/io/network.h\<close>: the readiness-based network behind the seam, and the part of
  \<^verbatim>\<open>runtime::EventLoop\<close> a broker uses beside it. As with the disk, the abstract class is a
  record of operations over a state, and the code above is defined for every such record. Connecting
  and writing may draw random latencies in the simulator, so they are option-valued.
\<close>

type_synonym ConnId = u64

definition kInvalidConn :: ConnId where
  [consts_of]: "kInvalidConn = NOT 0"

datatype Interest = Interest_kNone | Interest_kRead | Interest_kWrite | Interest_kReadWrite

fun Interest_value :: "Interest \<Rightarrow> u8" where
  "Interest_value Interest_kNone = 0"
| "Interest_value Interest_kRead = 1"
| "Interest_value Interest_kWrite = 2"
| "Interest_value Interest_kReadWrite = 3"

definition wants_read :: "Interest \<Rightarrow> bool" where
  "wants_read i \<longleftrightarrow> Interest_value i AND Interest_value Interest_kRead \<noteq> 0"

definition wants_write :: "Interest \<Rightarrow> bool" where
  "wants_write i \<longleftrightarrow> Interest_value i AND Interest_value Interest_kWrite \<noteq> 0"

text \<open>
  The objects that implement \<^verbatim>\<open>ConnHandler\<close> are named by a number; \<open>None\<close> is the null pointer.
  A read is given the room it may fill and returns the bytes it put there.
\<close>

type_synonym ConnHandler = nat

record 'n net_ops =
  nw_listen :: "u16 \<Rightarrow> 'n \<Rightarrow> ConnId result \<times> 'n"
  nw_local_port :: "ConnId \<Rightarrow> 'n \<Rightarrow> u16 result \<times> 'n"
  nw_accept :: "ConnId \<Rightarrow> 'n \<Rightarrow> ConnId result \<times> 'n"
  nw_connect :: "string \<Rightarrow> u16 \<Rightarrow> 'n \<Rightarrow> (ConnId result \<times> 'n) option"
  nw_read :: "ConnId \<Rightarrow> nat \<Rightarrow> 'n \<Rightarrow> bytes result \<times> 'n"
  nw_write :: "ConnId \<Rightarrow> bytes \<Rightarrow> 'n \<Rightarrow> (nat result \<times> 'n) option"
  nw_close :: "ConnId \<Rightarrow> 'n \<Rightarrow> 'n"
  nw_watch :: "ConnId \<Rightarrow> Interest \<Rightarrow> ConnHandler option \<Rightarrow> 'n \<Rightarrow> 'n"

text \<open>A loop hands out its network and takes timers; the only task a broker gives it is its tick.\<close>

record 'n loop_ops = "'n net_ops" +
  lp_add_timer_after :: "Nanos \<Rightarrow> 'n \<Rightarrow> 'n"

end
