(* ===== verification/Broker.thy ===== *)
theory Broker
  imports Raft_Node Raft_Codec State_File Log_Store Io_Network
begin

text \<open>
  \<^verbatim>\<open>src/src/server/broker.h\<close> and \<^verbatim>\<open>broker.cpp\<close>: one broker, a log, a Raft
  node and the wiring between them. The disk, the source of randomness and the loop with its network
  are the three interfaces the class holds, and the observer a fourth; the operations are those of
  arbitrary implementations over one state \<open>'w\<close>, since implementations may share parts of theirs, as
  the simulated ones share the generator. An operation that may draw a random number is option-valued.
\<close>

section \<open>State (\<^verbatim>\<open>broker.h\<close>)\<close>

datatype Observation =
    on_raft_recovered Term NodeId
  | on_appended u64 u32
  | on_fsynced u64
  | on_replicated u64
  | on_truncated u64
  | on_committed u64 u64
  | on_campaign Term
  | on_vote Term NodeId
  | on_became_leader Term u64
  | on_stepped_down Term NodeId
  | on_hard_state_persisted Term NodeId
  | on_protocol_error string u64 u64

record Peer =
  pr_host :: string
  pr_port :: u16
  pr_id :: NodeId

record BrokerConfig =
  bc_id :: NodeId
  bc_data_dir :: string
  bc_port :: u16
  bc_peers :: "Peer list"
  bc_tick_interval :: Nanos
  bc_election_timeout_ticks :: u32
  bc_election_timeout_jitter_ticks :: u32
  bc_heartbeat_timeout_ticks :: u32
  bc_segment_max_bytes :: u32
  bc_fsync_hard_state :: bool
  bc_ack_on_local_append :: bool

record Stream =
  st_in :: Buffer
  st_out :: Buffer
  st_decoder :: FrameDecoder
  st_outgoing :: bool

definition Stream_new :: Stream where
  "Stream_new = \<lparr>st_in = Buffer_new, st_out = Buffer_new,
                 st_decoder = \<lparr>max_frame_bytes = kDefaultMaxFrameBytes\<rparr>, st_outgoing = False\<rparr>"

record Broker =
  bk_config :: BrokerConfig
  bk_log :: "Log option"
  bk_raft :: "Node option"
  bk_state_file :: FileId
  bk_state_sequence :: u64
  bk_last_commit_seen :: u64
  bk_listener :: ConnId
  bk_streams :: "ConnId \<rightharpoonup> Stream"
  bk_peer_conns :: "ConnId list"
  bk_next_correlation :: u32
  bk_ticks :: u64
  bk_appends :: u64
  bk_raft_sent :: u64
  bk_raft_received :: u64
  bk_hard_state_writes :: u64
  bk_running :: bool

text \<open>
  The observer: it is told of every transition, and decides nothing. The method for a recovered log may
  look at the log, so it is given the broker and may fail to return; the others only take note.
\<close>

record 'w BrokerObserver =
  ob_log_recovered :: "Broker \<Rightarrow> u64 \<Rightarrow> u64 \<Rightarrow> 'w \<Rightarrow> 'w option"
  ob_note :: "Observation \<Rightarrow> 'w \<Rightarrow> 'w"

definition null_observer :: "'w BrokerObserver" where
  "null_observer = \<lparr>ob_log_recovered = (\<lambda>b next_off truncated w. Some w), ob_note = (\<lambda>ev w. w)\<rparr>"

text \<open>The implementations the broker was given.\<close>

record 'w Env =
  en_disk :: "'w disk_ops"
  en_random :: "'w random_ops"
  en_loop :: "'w loop_ops"
  en_observer :: "'w BrokerObserver"

definition kStateFileName :: string where
  "kStateFileName = ''raft.state''"

definition kEntryScratchBytes :: nat where
  [consts_of]: "kEntryScratchBytes = 64 * 1024"

definition Broker_new :: "BrokerConfig \<Rightarrow> Broker" where
  "Broker_new config =
     \<lparr>bk_config = config, bk_log = None, bk_raft = None, bk_state_file = kInvalidFile, bk_state_sequence = 0,
      bk_last_commit_seen = 0, bk_listener = kInvalidConn, bk_streams = Map.empty,
      bk_peer_conns = replicate (length (bc_peers config)) kInvalidConn, bk_next_correlation = 1, bk_ticks = 0,
      bk_appends = 0, bk_raft_sent = 0, bk_raft_received = 0, bk_hard_state_writes = 0, bk_running = False\<rparr>"

text \<open>The destructor closes the state file; the members go after it, and with them the log.\<close>

definition Broker_destroy :: "'w Env \<Rightarrow> Broker \<Rightarrow> 'w \<Rightarrow> 'w" where
  "Broker_destroy env b w =
     (let w = (if bk_state_file b \<noteq> kInvalidFile
               then dk_close (en_disk env) (bk_state_file b) w else w)
      in case bk_log b of
           None \<Rightarrow> w
         | Some lg \<Rightarrow> Log_destroy (en_disk env) lg w)"

definition observe :: "'w Env \<Rightarrow> Observation \<Rightarrow> 'w \<Rightarrow> 'w" where
  "observe env = ob_note (en_observer env)"

text \<open>The broker is the handler of its own connections.\<close>

definition self_handler :: "Broker \<Rightarrow> ConnHandler" where
  "self_handler b = unat (bc_id (bk_config b))"

definition Broker_watch :: "'w Env \<Rightarrow> ConnId \<Rightarrow> Interest \<Rightarrow> Broker \<Rightarrow> 'w \<Rightarrow> 'w" where
  "Broker_watch env conn interest b w =
     nw_watch (en_loop env) conn interest (Some (self_handler b)) w"

section \<open>Starting (\<^verbatim>\<open>broker.cpp\<close>)\<close>

definition load_hard_state ::
  "'w Env \<Rightarrow> Broker \<Rightarrow> 'w \<Rightarrow> HardState result \<times> Broker \<times> 'w" where
  "load_hard_state env b w =
     (case dk_open (en_disk env) (bc_data_dir (bk_config b) @ ''/'' @ kStateFileName) kCreate w of
        (Inl e, w) \<Rightarrow> (fail e, b, w)
      | (Inr f, w) \<Rightarrow>
          let b = b\<lparr>bk_state_file := f\<rparr> in
          (case dk_size (en_disk env) f w of
             (Inl e, w) \<Rightarrow> (fail e, b, w)
           | (Inr sz, w) \<Rightarrow>
               if sz = 0 then (Inr HardState_new, b\<lparr>bk_state_sequence := 0\<rparr>, w)
               else (case dk_pread (en_disk env) f kStateFileBytes 0 w of
                       (Inl e, w) \<Rightarrow> (fail e, b, w)
                     | (Inr got, w) \<Rightarrow>
                         (case scan_state_file got of
                            Inl e \<Rightarrow> (fail e, b, w)
                          | Inr scanned \<Rightarrow>
                              (Inr (ps_hard scanned), b\<lparr>bk_state_sequence := ps_sequence scanned + 1\<rparr>,
                               w)))))"

definition raft_config :: "BrokerConfig \<Rightarrow> Config" where
  "raft_config c =
     \<lparr>cfg_id = bc_id c, cfg_peers = map pr_id (bc_peers c), cfg_election_timeout_ticks = bc_election_timeout_ticks c,
      cfg_election_timeout_jitter_ticks = bc_election_timeout_jitter_ticks c,
      cfg_heartbeat_timeout_ticks = bc_heartbeat_timeout_ticks c\<rparr>"

definition restored_epochs :: "EpochBoundary list \<Rightarrow> Epoch list" where
  "restored_epochs bounds = map (\<lambda>e. \<lparr>ep_term = ucast (eb_epoch e), ep_start = eb_start_offset e\<rparr>) bounds"

definition schedule_tick :: "'w Env \<Rightarrow> Broker \<Rightarrow> 'w \<Rightarrow> 'w" where
  "schedule_tick env b w =
     (if \<not> bk_running b then w
      else lp_add_timer_after (en_loop env) (bc_tick_interval (bk_config b)) w)"

definition start_listening ::
  "'w Env \<Rightarrow> Broker \<Rightarrow> 'w \<Rightarrow> Broker \<times> 'w" where
  "start_listening env b w =
     (case nw_listen (en_loop env) (bc_port (bk_config b)) w of
        (Inl e, w) \<Rightarrow> (b, w)
      | (Inr listener, w) \<Rightarrow>
          let b = b\<lparr>bk_listener := listener\<rparr> in (b, Broker_watch env listener Interest_kRead b w))"

text \<open>\<^verbatim>\<open>start\<close> once the log is open and the observer has seen it: the recorded vote, the epochs, the listener.\<close>

definition start_raft :: "'w Env \<Rightarrow> Log \<Rightarrow> Broker \<Rightarrow> 'w \<Rightarrow> (status \<times> Broker \<times> 'w) option" where
  "start_raft env lg b w =
     (case load_hard_state env b w of
        (Inl e, b, w) \<Rightarrow> Some (fail e, b, w)
      | (Inr hard, b, w) \<Rightarrow> do {
          (nd, w) \<leftarrow> Node_new (en_random env) (raft_config (bk_config b)) hard w;
          let b = b\<lparr>bk_raft := Some nd\<rparr>;
          (epochs, w) \<leftarrow> Log_scan_epochs (en_disk env) lg w;
          (case epochs of
             Inl e \<Rightarrow> Some (fail e, b, w)
           | Inr bounds \<Rightarrow>
               let b = b\<lparr>bk_raft := Some (restore_log (lg_next_offset lg) (restored_epochs bounds) nd)\<rparr>;
                   w = observe env (on_raft_recovered (hs_term hard) (hs_voted_for hard)) w;
                   (b, w) = start_listening env b w;
                   b = b\<lparr>bk_running := True\<rparr>
               in Some (Inr (), b, schedule_tick env b w))
        })"

definition Broker_start :: "'w Env \<Rightarrow> Broker \<Rightarrow> 'w \<Rightarrow> (status \<times> Broker \<times> 'w) option" where
  "Broker_start env b w =
     (let options = \<lparr>lo_segment_max_bytes = bc_segment_max_bytes (bk_config b),
                     lo_index_interval_bytes = kDefaultIndexIntervalBytes\<rparr>
      in case Log_open (en_disk env) (bc_data_dir (bk_config b)) options w of
        (Inl e, w) \<Rightarrow> Some (fail e, b, w)
      | (Inr lg, w) \<Rightarrow> do {
          let b = b\<lparr>bk_log := Some lg\<rparr>;
          w \<leftarrow> ob_log_recovered (en_observer env) b (lg_next_offset lg) (lr_bytes_truncated (lg_recovery lg)) w;
          start_raft env lg b w
        })"

definition Broker_stop :: "Broker \<Rightarrow> Broker" where
  "Broker_stop b = b\<lparr>bk_running := False\<rparr>"

definition Broker_is_leader :: "Broker \<Rightarrow> bool" where
  "Broker_is_leader b = (case bk_raft b of None \<Rightarrow> False | Some nd \<Rightarrow> nd_role nd = kLeader)"

definition Broker_term :: "Broker \<Rightarrow> Term" where
  "Broker_term b = (case bk_raft b of None \<Rightarrow> 0 | Some nd \<Rightarrow> nd_term nd)"

definition Broker_leader :: "Broker \<Rightarrow> NodeId" where
  "Broker_leader b = (case bk_raft b of None \<Rightarrow> kNoNode | Some nd \<Rightarrow> nd_leader nd)"

definition Broker_commit_index :: "Broker \<Rightarrow> u64" where
  "Broker_commit_index b = (case bk_raft b of None \<Rightarrow> 0 | Some nd \<Rightarrow> nd_commit_index nd)"

definition Broker_log_end :: "Broker \<Rightarrow> u64" where
  "Broker_log_end b = (case bk_raft b of None \<Rightarrow> 0 | Some nd \<Rightarrow> nd_log_end nd)"

section \<open>Observations\<close>

definition note_commit :: "'w Env \<Rightarrow> u64 \<Rightarrow> Broker \<Rightarrow> 'w \<Rightarrow> Broker \<times> 'w" where
  "note_commit env commit_index b w =
     (if commit_index \<le> bk_last_commit_seen b then (b, w)
      else (b\<lparr>bk_last_commit_seen := commit_index\<rparr>, observe env (on_committed (bk_last_commit_seen b) commit_index) w))"

definition note_vote :: "'w Env \<Rightarrow> NodeId \<Rightarrow> Node \<Rightarrow> Broker \<Rightarrow> 'w \<Rightarrow> 'w" where
  "note_vote env vote_before nd b w =
     (if nd_voted_for nd \<noteq> vote_before \<and> nd_voted_for nd \<noteq> kNoNode \<and> nd_voted_for nd \<noteq> bc_id (bk_config b)
      then observe env (on_vote (nd_term nd) (nd_voted_for nd)) w else w)"

definition note_transition :: "'w Env \<Rightarrow> Role \<Rightarrow> Term \<Rightarrow> NodeId \<Rightarrow> Node \<Rightarrow> Broker \<Rightarrow> 'w \<Rightarrow> 'w" where
  "note_transition env role_before term_before vote_before nd b w =
     (let w = note_vote env vote_before nd b w
      in if nd_role nd = role_before \<and> nd_term nd = term_before then w
         else if nd_role nd = kCandidate then observe env (on_campaign (nd_term nd)) w
         else if nd_role nd = kLeader then observe env (on_became_leader (nd_term nd) (nd_log_end nd)) w
         else if role_before \<noteq> kFollower then observe env (on_stepped_down (nd_term nd) (nd_leader nd)) w
         else w)"

section \<open>Storage\<close>

definition persist ::
  "'w Env \<Rightarrow> HardState \<Rightarrow> Broker \<Rightarrow> 'w \<Rightarrow> status \<times> Broker \<times> 'w" where
  "persist env state b w =
     (if bk_state_file b = kInvalidFile then (fail kClosed, b, w)
      else let slot = encode_state_slot (replicate kStateSlotBytes 0) state (bk_state_sequence b)
           in case dk_pwrite (en_disk env) (bk_state_file b) slot (of_nat (state_slot_offset (bk_state_sequence b))) w of
                (Inl e, w) \<Rightarrow> (fail e, b, w)
              | (Inr written, w) \<Rightarrow>
                  if written \<noteq> kStateSlotBytes then (fail kIoError, b, w)
                  else (case (if bc_fsync_hard_state (bk_config b) then dk_fsync (en_disk env) (bk_state_file b) w
                              else (Inr (), w)) of
                          (Inl e, w) \<Rightarrow> (fail e, b, w)
                        | (Inr _, w) \<Rightarrow>
                            (Inr (),
                             b\<lparr>bk_state_sequence := bk_state_sequence b + 1,
                               bk_hard_state_writes := bk_hard_state_writes b + 1\<rparr>,
                             observe env (on_hard_state_persisted (hs_term state) (hs_voted_for state)) w)))"

text \<open>The two halves of \<^verbatim>\<open>carry_out_log_orders\<close>: cut, then append and flush.\<close>

definition order_truncate ::
  "'w Env \<Rightarrow> Ready \<Rightarrow> Log \<Rightarrow> Broker \<Rightarrow> 'w \<Rightarrow> (status \<times> Log \<times> Broker \<times> 'w) option" where
  "order_truncate env ready lg b w =
     (if rd_truncate_from ready = kNoIndex then Some (Inr (), lg, b, w)
      else do {
        (cut_status, lg, w) \<leftarrow> Log_truncate_to (en_disk env) (rd_truncate_from ready) lg w;
        (case cut_status of
           Inl e \<Rightarrow> Some (fail e, lg, b\<lparr>bk_log := Some lg\<rparr>, w)
         | Inr _ \<Rightarrow> Some (Inr (), lg, b\<lparr>bk_log := Some lg\<rparr>, observe env (on_truncated (rd_truncate_from ready)) w))
      })"

definition order_append ::
  "'w Env \<Rightarrow> Ready \<Rightarrow> bytes \<Rightarrow> Log \<Rightarrow> Broker \<Rightarrow> 'w \<Rightarrow> status \<times> Broker \<times> 'w" where
  "order_append env ready entry lg b w =
     (if \<not> rd_append_entry ready then (Inr (), b, w)
      else if entry = [] then (fail kInvalidRequest, b, w)
      else case Log_append_replicated (en_disk env) entry lg w of
             (Inl e, lg, w) \<Rightarrow> (fail e, b\<lparr>bk_log := Some lg\<rparr>, w)
           | (Inr _, lg, w) \<Rightarrow>
               (case Log_fsync (en_disk env) lg w of
                  (Inl e, w) \<Rightarrow> (fail e, b\<lparr>bk_log := Some lg\<rparr>, w)
                | (Inr _, w) \<Rightarrow>
                    (Inr (), b\<lparr>bk_log := Some lg\<rparr>, observe env (on_replicated (lg_next_offset lg)) w)))"

definition carry_out_log_orders ::
  "'w Env \<Rightarrow> Ready \<Rightarrow> bytes \<Rightarrow> Broker \<Rightarrow> 'w \<Rightarrow> (status \<times> Broker \<times> 'w) option" where
  "carry_out_log_orders env ready entry b w =
     (case bk_log b of
        None \<Rightarrow> Some (fail kClosed, b, w)
      | Some lg \<Rightarrow>
          if rd_truncate_from ready = kNoIndex \<and> \<not> rd_append_entry ready then Some (Inr (), b, w)
          else do {
            (cut_status, lg, b, w) \<leftarrow> order_truncate env ready lg b w;
            (case cut_status of
               Inl e \<Rightarrow> Some (fail e, b, w)
             | Inr _ \<Rightarrow> Some (order_append env ready entry lg b w))
          })"

definition read_entry ::
  "'w Env \<Rightarrow> u64 \<Rightarrow> Broker \<Rightarrow> 'w \<Rightarrow> (bytes result \<times> 'w) option" where
  "read_entry env index b w =
     (case bk_log b of
        None \<Rightarrow> Some (fail kClosed, w)
      | Some lg \<Rightarrow> do {
          (got, w) \<leftarrow> Log_read (en_disk env) lg index kEntryScratchBytes w;
          Some (case got of
                  Inl e \<Rightarrow> fail e
                | Inr framed \<Rightarrow>
                    if length framed = 0 then fail kOffsetOutOfRange
                    else (case decode_header framed of
                            Inl e \<Rightarrow> fail kCorruptRecord
                          | Inr header \<Rightarrow>
                              if bh_base_offset header \<noteq> index then fail kOffsetOutOfRange
                              else Inr (subslice framed 0 (Some (total_bytes header)))),
                w)
        })"

section \<open>Connections\<close>

definition forget :: "'w Env \<Rightarrow> ConnId \<Rightarrow> Broker \<Rightarrow> 'w \<Rightarrow> Broker \<times> 'w" where
  "forget env conn b w =
     (b\<lparr>bk_streams := (bk_streams b)(conn := None),
        bk_peer_conns := map (\<lambda>held. if held = conn then kInvalidConn else held) (bk_peer_conns b)\<rparr>,
      nw_close (en_loop env) conn (nw_watch (en_loop env) conn Interest_kNone None w))"

text \<open>The loop of \<^verbatim>\<open>flush\<close>; a network that keeps taking nothing would keep it waiting, so it is partial.\<close>

partial_function (option) flush_loop ::
  "'w Env \<Rightarrow> ConnId \<Rightarrow> Stream \<Rightarrow> Broker \<Rightarrow> 'w \<Rightarrow> (Broker \<times> 'w) option" where
  "flush_loop env conn stream b w =
     (if Buffer_empty (st_out stream)
      then Some (b\<lparr>bk_streams := (bk_streams b)(conn \<mapsto> stream)\<rparr>, Broker_watch env conn Interest_kRead b w)
      else do {
        (written, w) \<leftarrow> nw_write (en_loop env) conn (Buffer_slice (st_out stream)) w;
        (case written of
           Inl e \<Rightarrow>
             if e = kWouldBlock
             then Some (b\<lparr>bk_streams := (bk_streams b)(conn \<mapsto> stream)\<rparr>,
                        Broker_watch env conn Interest_kReadWrite b w)
             else Some (forget env conn b w)
         | Inr k \<Rightarrow>
             if k = 0 then Some (b\<lparr>bk_streams := (bk_streams b)(conn \<mapsto> stream)\<rparr>, w)
             else flush_loop env conn (stream\<lparr>st_out := Buffer_consume k (st_out stream)\<rparr>) b w)
      })"

definition Broker_flush ::
  "'w Env \<Rightarrow> ConnId \<Rightarrow> Broker \<Rightarrow> 'w \<Rightarrow> (Broker \<times> 'w) option" where
  "Broker_flush env conn b w =
     (case bk_streams b conn of None \<Rightarrow> Some (b, w) | Some stream \<Rightarrow> flush_loop env conn stream b w)"

text \<open>\<^verbatim>\<open>streams_[conn]\<close>: the stream, default-constructed when there is none.\<close>

definition stream_at :: "Broker \<Rightarrow> ConnId \<Rightarrow> Stream" where
  "stream_at b conn = (case bk_streams b conn of None \<Rightarrow> Stream_new | Some stream \<Rightarrow> stream)"

definition Broker_send ::
  "'w Env \<Rightarrow> ConnId \<Rightarrow> FrameHeader \<Rightarrow> bytes \<Rightarrow> Broker \<Rightarrow> 'w \<Rightarrow> (Broker \<times> 'w) option" where
  "Broker_send env conn header payload b w =
     (let stream = stream_at b conn;
          stream = stream\<lparr>st_out := encode_frame header payload (st_out stream)\<rparr>
      in Broker_flush env conn (b\<lparr>bk_streams := (bk_streams b)(conn \<mapsto> stream)\<rparr>) w)"

section \<open>Sending\<close>

fun peer_index :: "Peer list \<Rightarrow> NodeId \<Rightarrow> nat" where
  "peer_index [] to_id = 0"
| "peer_index (p # ps) to_id = (if pr_id p = to_id then 0 else Suc (peer_index ps to_id))"

text \<open>The message as it leaves, with the batch it names: \<open>None\<close> when it is not sent this time.\<close>

definition attach_entry ::
  "'w Env \<Rightarrow> Message \<Rightarrow> Broker \<Rightarrow> 'w \<Rightarrow> ((Message \<times> bytes) option \<times> 'w) option" where
  "attach_entry env message b w =
     (if \<not> carries_entry message then Some (Some (message, []), w)
      else do {
        (found, w) \<leftarrow> read_entry env (m_entry_index message) b w;
        Some (case found of
                Inl e \<Rightarrow> None
              | Inr entry \<Rightarrow>
                  (case decode_header entry of
                     Inl e \<Rightarrow> None
                   | Inr header \<Rightarrow> Some (message\<lparr>m_entry_end := next_offset header\<rparr>, entry)), w)
      })"

definition connect_peer ::
  "'w Env \<Rightarrow> nat \<Rightarrow> Broker \<Rightarrow> 'w \<Rightarrow> (bool \<times> Broker \<times> 'w) option" where
  "connect_peer env index b w =
     (if bk_peer_conns b ! index \<noteq> kInvalidConn then Some (True, b, w)
      else do {
        let peer = bc_peers (bk_config b) ! index;
        (conn, w) \<leftarrow> nw_connect (en_loop env) (pr_host peer) (pr_port peer) w;
        (case conn of
           Inl e \<Rightarrow> Some (False, b, w)
         | Inr c \<Rightarrow>
             let b = b\<lparr>bk_peer_conns := (bk_peer_conns b)[index := c]\<rparr>;
                 b = b\<lparr>bk_streams := (bk_streams b)(c \<mapsto> (stream_at b c)\<lparr>st_outgoing := True\<rparr>)\<rparr>
             in Some (True, b, Broker_watch env c Interest_kRead b w))
      })"

definition send_raft ::
  "'w Env \<Rightarrow> Message \<Rightarrow> Broker \<Rightarrow> 'w \<Rightarrow> (Broker \<times> 'w) option" where
  "send_raft env message b w =
     (let index = peer_index (bc_peers (bk_config b)) (m_to message)
      in if index = length (bc_peers (bk_config b)) then Some (b, w)
         else do {
           (outgoing, w) \<leftarrow> attach_entry env message b w;
           (case outgoing of
              None \<Rightarrow> Some (b, w)
            | Some (message, entry) \<Rightarrow> do {
                (connected, b, w) \<leftarrow> connect_peer env index b w;
                if \<not> connected then Some (b, w)
                else do {
                  let payload = encode_message (replicate (message_bytes (length entry)) 0) message entry;
                  let header = \<lparr>api_key = api_key_for (m_type message), api_version = kApiVersion0,
                                correlation_id = bk_next_correlation b\<rparr>;
                  (b, w) \<leftarrow> Broker_send env (bk_peer_conns b ! index) header payload
                              (b\<lparr>bk_next_correlation := bk_next_correlation b + 1\<rparr>) w;
                  Some (b\<lparr>bk_raft_sent := bk_raft_sent b + 1\<rparr>, w)
                }
              })
         })"

fun send_all ::
  "'w Env \<Rightarrow> Message list \<Rightarrow> Broker \<Rightarrow> 'w \<Rightarrow> (Broker \<times> 'w) option" where
  "send_all env [] b w = Some (b, w)"
| "send_all env (m # ms) b w = do { (b, w) \<leftarrow> send_raft env m b w; send_all env ms b w }"

section \<open>Persist, then send\<close>

definition persist_ready ::
  "'w Env \<Rightarrow> Ready \<Rightarrow> Node \<Rightarrow> Broker \<Rightarrow> 'w \<Rightarrow> status \<times> Broker \<times> 'w" where
  "persist_ready env ready nd b w =
     (if \<not> rd_persist_hard_state ready then (Inr (), b, w)
      else case persist env (rd_hard_state ready) b w of
             (Inl e, b, w) \<Rightarrow> (fail e, b, w)
           | (Inr _, b, w) \<Rightarrow> (Inr (), b\<lparr>bk_raft := Some (hard_state_persisted nd)\<rparr>, w))"

definition drive ::
  "'w Env \<Rightarrow> bytes \<Rightarrow> Broker \<Rightarrow> 'w \<Rightarrow> (Broker \<times> 'w) option" where
  "drive env entry b w =
     (case bk_raft b of
        None \<Rightarrow> Some (b, w)
      | Some nd \<Rightarrow>
          (case take_ready nd of
             (ready, nd) \<Rightarrow>
               let (b, w) = note_commit env (rd_commit_index ready) (b\<lparr>bk_raft := Some nd\<rparr>) w
               in if Ready_empty ready then Some (b, w)
                  else do {
                    (stored, b, w) \<leftarrow> carry_out_log_orders env ready entry b w;
                    (case stored of
                       Inl e \<Rightarrow> Some (b\<lparr>bk_running := False\<rparr>, w)
                     | Inr _ \<Rightarrow>
                         (case persist_ready env ready nd b w of
                            (Inl e, b, w) \<Rightarrow> Some (b, w)
                          | (Inr _, b, w) \<Rightarrow> send_all env (rd_messages ready) b w))
                  }))"

section \<open>Inputs\<close>

definition on_tick :: "'w Env \<Rightarrow> Broker \<Rightarrow> 'w \<Rightarrow> (Broker \<times> 'w) option" where
  "on_tick env b w =
     (if \<not> bk_running b then Some (b, w)
      else case bk_raft b of
             None \<Rightarrow> Some (b, w)
           | Some nd \<Rightarrow> do {
               (nd', w) \<leftarrow> tick (en_random env) nd w;
               let b = b\<lparr>bk_ticks := bk_ticks b + 1, bk_raft := Some nd'\<rparr>;
               (b, w) \<leftarrow> drive env [] b (note_transition env (nd_role nd) (nd_term nd) (nd_voted_for nd) nd' b w);
               Some (b, schedule_tick env b w)
             })"

definition deliver_locally ::
  "'w Env \<Rightarrow> Message \<Rightarrow> bytes \<Rightarrow> Broker \<Rightarrow> 'w \<Rightarrow> (Broker \<times> 'w) option" where
  "deliver_locally env message entry b w =
     (case bk_raft b of
        None \<Rightarrow> Some (b, w)
      | Some nd \<Rightarrow> do {
          (nd', w) \<leftarrow> step (en_random env) message nd w;
          let b = b\<lparr>bk_raft := Some nd'\<rparr>;
          drive env entry b (note_transition env (nd_role nd) (nd_term nd) (nd_voted_for nd) nd' b w)
        })"

definition receive_raft ::
  "'w Env \<Rightarrow> bytes \<Rightarrow> Broker \<Rightarrow> 'w \<Rightarrow> (Broker \<times> 'w) option" where
  "receive_raft env payload b w =
     (case decode_message payload of
        Inl e \<Rightarrow>
          Some (b, observe env (on_protocol_error ''undecodable raft message'' (of_nat (length payload)) (of_nat kMessageHeaderBytes)) w)
      | Inr (message, entry) \<Rightarrow>
          if m_to message \<noteq> bc_id (bk_config b)
          then Some (b, observe env (on_protocol_error ''raft message for another node'' (ucast (m_to message)) (ucast (m_from message))) w)
          else deliver_locally env message entry (b\<lparr>bk_raft_received := bk_raft_received b + 1\<rparr>) w)"

text \<open>The two parts of \<^verbatim>\<open>propose\<close>: the batch on the disk, then the state machine told.\<close>

definition propose_append ::
  "'w Env \<Rightarrow> BatchBuilder \<Rightarrow> Node \<Rightarrow> Log \<Rightarrow> Broker \<Rightarrow> 'w \<Rightarrow>
   u64 result \<times> BatchBuilder \<times> Log \<times> Broker \<times> 'w" where
  "propose_append env builder nd lg b w =
     (case Log_append (en_disk env) builder (BatchMeta_new\<lparr>meta_leader_epoch := ucast (nd_term nd)\<rparr>) lg w of
        (Inl e, builder, lg, w) \<Rightarrow> (fail e, builder, lg, b\<lparr>bk_log := Some lg\<rparr>, w)
      | (Inr assigned, builder, lg, w) \<Rightarrow>
          let b = b\<lparr>bk_log := Some lg\<rparr>;
              w = observe env (on_appended assigned (ucast (lg_next_offset lg - assigned))) w
          in (case Log_fsync (en_disk env) lg w of
                (Inl e, w) \<Rightarrow> (fail e, builder, lg, b, w)
              | (Inr _, w) \<Rightarrow> (Inr assigned, builder, lg, b, observe env (on_fsynced (lg_next_offset lg)) w)))"

definition propose ::
  "'w Env \<Rightarrow> BatchBuilder \<Rightarrow> Broker \<Rightarrow> 'w \<Rightarrow>
   (u64 result \<times> BatchBuilder \<times> Broker \<times> 'w) option" where
  "propose env builder b w =
     (case (bk_log b, bk_raft b) of
        (Some lg, Some nd) \<Rightarrow>
          if \<not> bk_running b then Some (fail kClosed, builder, b, w)
          else if nd_role nd \<noteq> kLeader then Some (fail kNotLeader, builder, b, w)
          else (case propose_append env builder nd lg b w of
                  (Inl e, builder, lg, b, w) \<Rightarrow> Some (fail e, builder, b, w)
                | (Inr assigned, builder, lg, b, w) \<Rightarrow> do {
                    let (b, w) = (if bc_ack_on_local_append (bk_config b) then note_commit env (lg_next_offset lg) b w else (b, w));
                    let b = b\<lparr>bk_raft := Some (log_appended assigned (lg_next_offset lg) (nd_term nd) nd),
                             bk_appends := bk_appends b + 1\<rparr>;
                    (b, w) \<leftarrow> drive env [] b w;
                    Some (Inr assigned, builder, b, w)
                  })
      | _ \<Rightarrow> Some (fail kClosed, builder, b, w))"

section \<open>Readiness\<close>

definition on_writable :: "'w Env \<Rightarrow> ConnId \<Rightarrow> Broker \<Rightarrow> 'w \<Rightarrow> (Broker \<times> 'w) option" where
  "on_writable env conn b w = Broker_flush env conn b w"

definition on_hangup :: "'w Env \<Rightarrow> ConnId \<Rightarrow> Broker \<Rightarrow> 'w \<Rightarrow> Broker \<times> 'w" where
  "on_hangup env conn b w = forget env conn b w"

partial_function (option) accept_loop ::
  "'w Env \<Rightarrow> Broker \<Rightarrow> 'w \<Rightarrow> (Broker \<times> 'w) option" where
  "accept_loop env b w =
     (case nw_accept (en_loop env) (bk_listener b) w of
        (Inl e, w) \<Rightarrow> Some (b, w)
      | (Inr c, w) \<Rightarrow>
          let b = b\<lparr>bk_streams := (bk_streams b)(c \<mapsto> (stream_at b c)\<lparr>st_outgoing := False\<rparr>)\<rparr>
          in accept_loop env b (Broker_watch env c Interest_kRead b w))"

text \<open>The inner loop of \<^verbatim>\<open>on_readable\<close>: whole frames, until more bytes are needed (\<open>True\<close>) or the connection is gone.\<close>

partial_function (option) frame_loop ::
  "'w Env \<Rightarrow> ConnId \<Rightarrow> Broker \<Rightarrow> 'w \<Rightarrow> (bool \<times> Broker \<times> 'w) option" where
  "frame_loop env conn b w =
     (case bk_streams b conn of
        None \<Rightarrow> Some (False, b, w)
      | Some current \<Rightarrow>
          (case FrameDecoder_next (st_decoder current) (st_in current) of
             Inl e \<Rightarrow>
               (case forget env conn b (observe env (on_protocol_error ''undecodable frame'' conn 0) w) of
                  (b, w) \<Rightarrow> Some (False, b, w))
           | Inr None \<Rightarrow> Some (True, b, w)
           | Inr (Some (header, payload)) \<Rightarrow>
               if \<not> is_broker_api (api_key header)
               then (case forget env conn b (observe env (on_protocol_error ''non-broker api key on a peer connection''
                                                      (ucast (api_key header)) 0) w) of
                       (b, w) \<Rightarrow> Some (False, b, w))
               else do {
                 (b, w) \<leftarrow> receive_raft env payload b w;
                 (case bk_streams b conn of
                    None \<Rightarrow> Some (False, b, w)
                  | Some after \<Rightarrow>
                      frame_loop env conn
                        (b\<lparr>bk_streams := (bk_streams b)(conn \<mapsto>
                             after\<lparr>st_in := FrameDecoder_consume_frame (st_decoder after) (st_in after)\<rparr>)\<rparr>) w)
               }))"

definition kReadChunk :: nat where
  [consts_of]: "kReadChunk = 4096"

partial_function (option) read_loop ::
  "'w Env \<Rightarrow> ConnId \<Rightarrow> Broker \<Rightarrow> 'w \<Rightarrow> (Broker \<times> 'w) option" where
  "read_loop env conn b w =
     (case bk_streams b conn of
        None \<Rightarrow> Some (b, w)
      | Some stream \<Rightarrow>
          (case nw_read (en_loop env) conn kReadChunk w of
             (Inl e, w) \<Rightarrow>
               (let b = b\<lparr>bk_streams := (bk_streams b)(conn \<mapsto>
                          stream\<lparr>st_in := shrink_by kReadChunk (append_uninitialized kReadChunk [] (st_in stream))\<rparr>)\<rparr>
                in Some (if e = kWouldBlock then (b, w) else forget env conn b w))
           | (Inr got, w) \<Rightarrow>
               (let b = b\<lparr>bk_streams := (bk_streams b)(conn \<mapsto>
                          stream\<lparr>st_in := shrink_by (kReadChunk - length got) (append_uninitialized kReadChunk got (st_in stream))\<rparr>)\<rparr>
                in if length got = 0 then Some (forget env conn b w)
                   else do {
                     (again, b, w) \<leftarrow> frame_loop env conn b w;
                     if again then read_loop env conn b w else Some (b, w)
                   })))"

definition on_readable :: "'w Env \<Rightarrow> ConnId \<Rightarrow> Broker \<Rightarrow> 'w \<Rightarrow> (Broker \<times> 'w) option" where
  "on_readable env conn b w = (if conn = bk_listener b then accept_loop env b w else read_loop env conn b w)"

end
