(* ===== verification/Hard_State.thy ===== *)
theory Hard_State
  imports Broker Sim_Disk
begin

text \<open>
  The term and the vote on the disk: \<^verbatim>\<open>Broker::persist\<close> and
  \<^verbatim>\<open>Broker::load_hard_state\<close> over the simulated disk, power cuts included. The file is
  abstracted to the set of states a restart may find, which is how the cluster model sees it.
\<close>

section \<open>Slots in a file\<close>

definition slot_of :: "u64 \<Rightarrow> bytes \<Rightarrow> bytes" where
  "slot_of s c = take 32 (drop (state_slot_offset s) c)"

lemma slot_offset_cases:
  obtains (even) "state_slot_offset s = 0" "state_slot_offset (s + 1) = 32"
  | (odd) "state_slot_offset s = 32" "state_slot_offset (s + 1) = 0"
proof -
  have "unat ((s + 1) mod 2) = Suc (unat s) mod 2"
    by (simp add: unat_mod_distrib unat_word_ariths mod_mod_cancel)
  moreover have "unat (s mod 2) = unat s mod 2" by (simp add: unat_mod_distrib)
  ultimately show thesis
    using that by (cases "even (unat s)") (auto simp: state_slot_offset_def kStateSlotBytes_def even_iff_mod_2_eq_zero odd_iff_mod_2_eq_one mod_Suc)
qed

lemma scan_by_slot:
  "scan_state_file c =
     (if state_slot_offset s = 0 then newer (decode_state_slot (slot_of s c)) (decode_state_slot (slot_of (s + 1) c))
      else newer (decode_state_slot (slot_of (s + 1) c)) (decode_state_slot (slot_of s c)))"
  by (rule slot_offset_cases [of s]) (simp_all add: scan_state_file_eq slot_of_def slot0_def slot1_def)

text \<open>The state in the slot of \<open>s\<close> is the newest whole one.\<close>

definition recorded :: "bytes \<Rightarrow> HardState \<Rightarrow> u64 \<Rightarrow> bool" where
  "recorded c h s \<longleftrightarrow>
     slot_of s c = slot_bytes h s \<and> (\<forall>p. decode_state_slot (slot_of (s + 1) c) = Inr p \<longrightarrow> ps_sequence p < s)"

lemma scan_recorded: "recorded c h s \<Longrightarrow> scan_state_file c = Inr \<lparr>ps_hard = h, ps_sequence = s\<rparr>"
  unfolding recorded_def scan_by_slot [of c s]
  by (cases "decode_state_slot (slot_of (s + 1) c)") (auto simp: newer_def decode_slot_bytes)

lemma recorded_length: "recorded c h s \<Longrightarrow> state_slot_offset s + 32 \<le> length c"
proof -
  assume "recorded c h s"
  then have "length (slot_of s c) = 32" by (simp add: recorded_def)
  then show ?thesis by (simp add: slot_of_def min_def split: if_splits)
qed

lemma slot_offset_twice [simp]: "state_slot_offset (s + 2) = state_slot_offset s"
proof -
  have "s + 2 = s + 1 + 1" by simp
  then show ?thesis by (metis slot_offset_cases zero_neq_numeral)
qed

lemma slot_write_same:
  assumes "state_slot_offset n \<le> length c" and "length data \<le> 32" and "data \<noteq> []"
  shows "slot_of n (apply_bytes c (state_slot_offset n) data) = data @ drop (length data) (slot_of n c)"
  using assms by (auto simp: slot_of_def apply_bytes_def Let_def write_at_def resize_def drop_take add.commute)

lemma slot_write_other:
  assumes "state_slot_offset n \<le> length c" and "length data \<le> 32"
  shows "slot_of (n + 1) (apply_bytes c (state_slot_offset n) data) = slot_of (n + 1) c"
  using assms
  by (cases rule: slot_offset_cases [of n]) (auto simp: slot_of_def apply_bytes_def Let_def write_at_def resize_def)

text \<open>
  What a file with next sequence number \<open>n\<close> holds: nothing, before the first write, or the state
  written last.
\<close>

definition holds :: "bytes \<Rightarrow> u64 \<Rightarrow> HardState \<Rightarrow> bool" where
  "holds c n h \<longleftrightarrow> c = [] \<and> n = 0 \<and> h = HardState_new \<or> n \<noteq> 0 \<and> recorded c h (n - 1)"

lemma holds_offset: "holds c n h \<Longrightarrow> state_slot_offset n \<le> length c"
proof (cases "n = 0")
  case False
  assume "holds c n h"
  then have "state_slot_offset (n - 1) + 32 \<le> length c" using False recorded_length by (auto simp: holds_def)
  then show ?thesis by (cases rule: slot_offset_cases [of "n - 1"]) simp_all
qed (simp add: state_slot_offset_def)

lemma other_slot:
  assumes "holds c n h"
  shows "n = 0 \<and> slot_of (n + 1) c = [] \<or> n \<noteq> 0 \<and> slot_of (n + 1) c = slot_bytes h (n - 1)"
proof (cases "n = 0")
  case True
  then show ?thesis using assms by (simp add: holds_def slot_of_def)
next
  case False
  have "state_slot_offset (n + 1) = state_slot_offset (n - 1)"
    using slot_offset_twice [of "n - 1"] by (simp add: add.commute)
  then show ?thesis using assms False by (simp add: holds_def recorded_def slot_of_def)
qed

lemma recorded_new:
  assumes "holds c n h" and "slot_of n v = slot_bytes h' n" and "slot_of (n + 1) v = slot_of (n + 1) c"
  shows "recorded v h' n"
proof -
  have "n \<noteq> 0 \<Longrightarrow> n - 1 < n" by (simp add: word_less_nat_alt measure_unat)
  then show ?thesis
    using assms other_slot [OF assms(1)] by (auto simp: recorded_def decode_slot_bytes short_slot)
qed

lemma recorded_old:
  assumes "holds c n h" and "n \<noteq> 0" and "slot_of (n + 1) v = slot_of (n + 1) c"
    and "\<And>p. decode_state_slot (slot_of n v) = Inr p \<Longrightarrow> slot_of n v = slot_of n c"
  shows "recorded v h (n - 1)"
proof -
  have "state_slot_offset (n + 1) = state_slot_offset (n - 1)"
    using slot_offset_twice [of "n - 1"] by (simp add: add.commute)
  then have "slot_of (n - 1) v = slot_of (n - 1) c" using assms(3) by (simp add: slot_of_def)
  then show ?thesis using assms by (auto simp: holds_def recorded_def)
qed

section \<open>Writes and power cuts\<close>

definition slot_write :: "u64 \<Rightarrow> HardState \<Rightarrow> PendingWrite" where
  "slot_write n h = \<lparr>pw_offset = of_nat (state_slot_offset n), pw_bytes = slot_bytes h n\<rparr>"

lemma unat_slot_offset [simp]: "unat (of_nat (state_slot_offset n) :: u64) = state_slot_offset n"
  by (cases rule: slot_offset_cases [of n]) simp_all

lemma slot_bytes_nonempty [simp]: "slot_bytes h s \<noteq> []"
  using length_slot_bytes [of h s] by (metis list.size(3) zero_neq_numeral)

text \<open>After some of the pending writes: the other slot is as before, and this one is as before or as written.\<close>

lemma slot_writes:
  assumes "state_slot_offset n \<le> length c"
  shows "state_slot_offset n \<le> length (fold apply_write (map (slot_write n) hs) c) \<and>
    slot_of (n + 1) (fold apply_write (map (slot_write n) hs) c) = slot_of (n + 1) c \<and>
    slot_of n (fold apply_write (map (slot_write n) hs) c) = (if hs = [] then slot_of n c else slot_bytes (last hs) n)"
  using assms
proof (induction hs arbitrary: c)
  case (Cons h hs)
  let ?c = "apply_bytes c (state_slot_offset n) (slot_bytes h n)"
  have off: "state_slot_offset n \<le> length ?c" using Cons.prems by (simp add: length_apply_bytes)
  have "slot_of n ?c = slot_bytes h n"
    using slot_write_same [OF Cons.prems, of "slot_bytes h n"] by (simp add: slot_of_def)
  then show ?case
    using Cons.IH [OF off] slot_write_other [OF Cons.prems, of "slot_bytes h n"]
    by (simp add: slot_write_def apply_write_def)
qed simp

text \<open>
  A slot of which a power cut left the first \<open>j\<close> bytes of a write over what was there, that is neither
  the one nor the other, and whose checksum nevertheless matches.
\<close>

definition torn_passes :: "bytes \<Rightarrow> u64 \<Rightarrow> HardState list \<Rightarrow> bytes \<Rightarrow> bool" where
  "torn_passes c n hs v \<longleftrightarrow>
     (\<exists>h' \<in> set hs. \<exists>j x p. 0 < j \<and> j < 32 \<and> (x = slot_of n c \<or> (\<exists>h'' \<in> set hs. x = slot_bytes h'' n)) \<and>
        slot_of n v = take j (slot_bytes h' n) @ drop j x \<and> slot_of n v \<noteq> slot_bytes h' n \<and> slot_of n v \<noteq> x \<and>
        decode_state_slot (slot_of n v) = Inr p)"

lemma crash_slots:
  assumes "v \<in> crash_images (map (slot_write n) hs) c" and "state_slot_offset n \<le> length c"
  shows "slot_of (n + 1) v = slot_of (n + 1) c \<and>
    (v = c \<or> (\<exists>h' \<in> set hs. slot_of n v = slot_bytes h' n) \<or> slot_of n v = slot_of n c \<and> v \<noteq> [] \<or>
     torn_passes c n hs v \<or> (\<exists>e. decode_state_slot (slot_of n v) = Inl e) \<and> v \<noteq> [])"
proof -
  have part: "last (take k hs) \<in> set hs" if "take k hs \<noteq> []" for k
    using last_in_set [OF that] set_take_subset [of k hs] by blast
  let ?c = "\<lambda>k. fold apply_write (map (slot_write n) (take k hs)) c"
  note w = slot_writes [OF assms(2)]
  have was: "slot_of n (?c k) = slot_of n c \<or> (\<exists>h'' \<in> set hs. slot_of n (?c k) = slot_bytes h'' n)" for k
    using w [of "take k hs"] part [of k] by (auto split: if_splits)
  consider (whole) k where "k \<le> length hs" "v = ?c k"
    | (torn) k j where "k < length hs" "0 < j" "j < 32"
        "v = apply_bytes (?c k) (state_slot_offset n) (take j (slot_bytes (hs ! k) n))"
    using assms(1) by (auto simp: crash_images_def take_map slot_write_def)
  then show ?thesis
  proof cases
    case whole
    show ?thesis
    proof (cases "take k hs = []")
      case False
      then show ?thesis using w [of "take k hs"] part [of k] whole by auto
    qed (use whole in auto)
  next
    case torn
    let ?t = "take j (slot_bytes (hs ! k) n)"
    have t: "length ?t = j" "?t \<noteq> []" using torn by auto
    have s: "slot_of n v = ?t @ drop j (slot_of n (?c k))"
      using slot_write_same [of n "?c k" ?t] w t torn by simp
    have o: "slot_of (n + 1) v = slot_of (n + 1) c"
      using slot_write_other [of n "?c k" ?t] w t torn by simp
    have ne: "v \<noteq> []" using torn t length_apply_bytes [of "?c k" "state_slot_offset n" ?t] by auto
    have h: "hs ! k \<in> set hs" using torn by simp
    show ?thesis
    proof (cases "slot_of n v = slot_of n (?c k) \<or> slot_of n v = slot_bytes (hs ! k) n")
      case True
      then show ?thesis using was [of k] o ne h by auto
    next
      case False
      then have "torn_passes c n hs v" if "decode_state_slot (slot_of n v) = Inr p" for p
        using that s h torn was [of k] unfolding torn_passes_def by blast
      then show ?thesis using o ne by (cases "decode_state_slot (slot_of n v)") auto
    qed
  qed
qed

text \<open>What a scan finds after a power cut: one of the states that may be there, or a file never fully written.\<close>

definition found :: "HardState set \<Rightarrow> bytes \<Rightarrow> bool" where
  "found D v \<longleftrightarrow>
     v = [] \<and> HardState_new \<in> D \<or>
     v \<noteq> [] \<and> (\<exists>g \<in> D. \<exists>m. scan_state_file v = Inr \<lparr>ps_hard = g, ps_sequence = m\<rparr> \<and> holds v (m + 1) g)"

lemma recorded_found: "recorded v g m \<Longrightarrow> m + 1 \<noteq> 0 \<Longrightarrow> g \<in> D \<Longrightarrow> found D v"
proof -
  assume r: "recorded v g m" and m: "m + 1 \<noteq> 0" and g: "g \<in> D"
  have "v \<noteq> []" using recorded_length [OF r] by auto
  moreover have "holds v (m + 1) g" using r m by (simp add: holds_def)
  ultimately show ?thesis using scan_recorded [OF r] g by (auto simp: found_def)
qed

lemma crash_found:
  assumes "v \<in> crash_images (map (slot_write n) hs) c" and h: "holds c n h" and "n + 1 \<noteq> 0"
  shows "torn_passes c n hs v \<or> found (insert h (set hs)) v \<or> c = [] \<and> v \<noteq> [] \<and> (\<exists>e. scan_state_file v = Inl e)"
proof -
  let ?D = "insert h (set hs)"
  note s = crash_slots [OF assms(1) holds_offset [OF h]]
  have o: "slot_of (n + 1) v = slot_of (n + 1) c" using s by blast
  have old: "found ?D v" if "n \<noteq> 0" "\<And>p. decode_state_slot (slot_of n v) = Inr p \<Longrightarrow> slot_of n v = slot_of n c"
  proof -
    have "recorded v h (n - 1)" using h that(1) o that(2) by (rule recorded_old)
    then show ?thesis using recorded_found [of v h "n - 1" ?D] that(1) by simp
  qed
  from s consider (same) "v = c" | (new) h' where "h' \<in> set hs" "slot_of n v = slot_bytes h' n"
    | (kept) "slot_of n v = slot_of n c" "v \<noteq> []" | (passes) "torn_passes c n hs v"
    | (bad) e where "decode_state_slot (slot_of n v) = Inl e" "v \<noteq> []"
    by blast
  then show ?thesis
  proof cases
    case same
    show ?thesis
    proof (cases "n = 0")
      case True
      then show ?thesis using same h by (auto simp: holds_def found_def)
    qed (use old same in auto)
  next
    case new
    then show ?thesis using recorded_found [OF recorded_new [OF h new(2) o] assms(3), of ?D] by simp
  next
    case kept
    show ?thesis
    proof (cases "n = 0")
      case True
      then show ?thesis using kept h by (auto simp: holds_def slot_of_def state_slot_offset_def)
    qed (use old kept in auto)
  next
    case bad
    show ?thesis
    proof (cases "n = 0")
      case True
      then have "c = []" "slot_of (n + 1) c = []" using h by (auto simp: holds_def slot_of_def)
      then show ?thesis
        using bad o by (auto simp: scan_by_slot [of v n] newer_def short_slot)
    qed (use old bad in auto)
  qed simp
qed

section \<open>The file and its abstraction\<close>

text \<open>
  \<open>D\<close> is what a restart may find in the file when the next sequence number is \<open>n\<close>: the state flushed
  last, and those written to the next slot since by a \<^verbatim>\<open>persist\<close> that failed.
\<close>

definition may_find :: "File \<Rightarrow> u64 \<Rightarrow> HardState set \<Rightarrow> bool" where
  "may_find f n D \<longleftrightarrow>
     (\<exists>h hs. D = insert h (set hs) \<and> holds (f_durable f) n h \<and> f_pending f = map (slot_write n) hs)"

lemma may_find_write:
  assumes "may_find f n D"
  shows "may_find (f\<lparr>f_visible := v, f_pending := f_pending f @ [slot_write n h']\<rparr>) n (insert h' D)"
proof -
  obtain h hs where "D = insert h (set hs)" "holds (f_durable f) n h" "f_pending f = map (slot_write n) hs"
    using assms by (auto simp: may_find_def)
  then show ?thesis unfolding may_find_def by (intro exI [of _ h] exI [of _ "hs @ [h']"]) auto
qed

lemma may_find_flushed:
  assumes "may_find f n D" and "n + 1 \<noteq> 0"
  shows "may_find (f\<lparr>f_visible := v, f_durable := fold apply_write (f_pending f @ [slot_write n h']) (f_durable f), f_pending := []\<rparr>)
           (n + 1) {h'}"
proof -
  obtain h hs where f: "holds (f_durable f) n h" "f_pending f = map (slot_write n) hs"
    using assms(1) by (auto simp: may_find_def)
  have "recorded (fold apply_write (map (slot_write n) (hs @ [h'])) (f_durable f)) h' n"
    using slot_writes [OF holds_offset [OF f(1)], of "hs @ [h']"] by (intro recorded_new [OF f(1)]) simp_all
  then have "holds (fold apply_write (f_pending f @ [slot_write n h']) (f_durable f)) (n + 1) h'"
    using assms(2) by (simp add: holds_def f(2))
  then show ?thesis by (auto simp: may_find_def)
qed

lemma slot_pwrite:
  assumes "SimDisk_pwrite rops i (slot_bytes h' n) (of_nat (state_slot_offset n)) (d, r) = (res, (d1, r1))"
    and "sd_open d i = Some hdl" and "map_of (sd_files d) (hd_path hdl) = Some f"
  shows "(\<exists>e. res = Inl e) \<and> d1 = d \<or>
    res = Inr 32 \<and> d1 = SimDisk_set_file (hd_path hdl)
      (f\<lparr>f_visible := apply_bytes (f_visible f) (state_slot_offset n) (slot_bytes h' n), f_pending := f_pending f @ [slot_write n h']\<rparr>) d"
proof (cases "SimDisk_resolve i True d")
  case (Inr pf)
  then have "pf = (hd_path hdl, f)" using assms(2,3) by (auto simp: SimDisk_resolve_def split: if_splits)
  then show ?thesis
    using assms(1) Inr by (auto simp: SimDisk_pwrite_def Let_def slot_write_def split: prod.splits if_splits)
qed (use assms(1) in \<open>auto simp: SimDisk_pwrite_def\<close>)

lemma slot_fsync:
  assumes "SimDisk_fsync rops i (d, r) = (res, (d1, r1))"
    and "sd_open d i = Some hdl" and "map_of (sd_files d) (hd_path hdl) = Some f"
  shows "(\<exists>e. res = Inl e) \<and> d1 = d \<or>
    res = Inr () \<and> d1 = SimDisk_set_file (hd_path hdl) (f\<lparr>f_durable := fold apply_write (f_pending f) (f_durable f), f_pending := []\<rparr>) d"
proof (cases "SimDisk_resolve i False d")
  case (Inr pf)
  then have "pf = (hd_path hdl, f)" using assms(2,3) by (auto simp: SimDisk_resolve_def split: if_splits)
  then show ?thesis
    using assms(1) Inr by (auto simp: SimDisk_fsync_def Let_def split: prod.splits if_splits)
qed (use assms(1) in \<open>auto simp: SimDisk_fsync_def\<close>)

section \<open>Persisting and loading\<close>

lemma persist_cases:
  assumes env: "en_disk env = sim_disk_ops rops" "en_observer env = null_observer" and "bc_fsync_hard_state (bk_config b)"
    and run: "persist env h' b (d, r) = (st, b', (d', r'))"
    and f: "sim_ok d" "sd_open d (bk_state_file b) = Some hdl" "map_of (sd_files d) (hd_path hdl) = Some f"
  obtains (unchanged) e where "st = Inl e" "b' = b" "d' = d"
  | (written) e v where "st = Inl e" "b' = b"
      "d' = SimDisk_set_file (hd_path hdl) (f\<lparr>f_visible := v, f_pending := f_pending f @ [slot_write (bk_state_sequence b) h']\<rparr>) d"
  | (flushed) v where "st = Inr ()" "bk_state_sequence b' = bk_state_sequence b + 1"
      "sim_ok d' \<and> map_of (sd_files d') = (map_of (sd_files d))(hd_path hdl \<mapsto>
         f\<lparr>f_visible := v, f_durable := fold apply_write (f_pending f @ [slot_write (bk_state_sequence b) h']) (f_durable f), f_pending := []\<rparr>)"
proof (cases "bk_state_file b = kInvalidFile")
  case True
  then show thesis using run unchanged by (auto simp: persist_def)
next
  case False
  let ?n = "bk_state_sequence b"
  let ?f1 = "f\<lparr>f_visible := apply_bytes (f_visible f) (state_slot_offset ?n) (slot_bytes h' ?n), f_pending := f_pending f @ [slot_write ?n h']\<rparr>"
  obtain w1 d1 r1 where w: "SimDisk_pwrite rops (bk_state_file b) (slot_bytes h' ?n) (of_nat (state_slot_offset ?n)) (d, r) = (w1, (d1, r1))"
    by (cases "SimDisk_pwrite rops (bk_state_file b) (slot_bytes h' ?n) (of_nat (state_slot_offset ?n)) (d, r)") auto
  obtain w2 d2 r2 where fs: "SimDisk_fsync rops (bk_state_file b) (d1, r1) = (w2, (d2, r2))"
    by (cases "SimDisk_fsync rops (bk_state_file b) (d1, r1)") auto
  have go: "persist env h' b (d, r) =
      (case w1 of Inl e \<Rightarrow> (Inl e, b, (d1, r1))
       | Inr k \<Rightarrow> if k \<noteq> 32 then (Inl kIoError, b, (d1, r1))
           else (case w2 of Inl e \<Rightarrow> (Inl e, b, (d2, r2))
                 | Inr _ \<Rightarrow> (Inr (), b\<lparr>bk_state_sequence := ?n + 1, bk_hard_state_writes := bk_hard_state_writes b + 1\<rparr>, (d2, r2))))"
    using False w fs assms(3) env
    by (auto simp: persist_def sim_disk_ops_def encode_state_slot_eq kStateSlotBytes_def observe_def null_observer_def split: sum.splits)
  from slot_pwrite [OF w f(2,3)] show thesis
  proof (elim disjE conjE exE)
    fix e assume "w1 = Inl e" "d1 = d"
    then show thesis using run go by (intro unchanged [of e]) auto
  next
    assume ok: "w1 = Inr 32" and d1: "d1 = SimDisk_set_file (hd_path hdl) ?f1 d"
    have s1: "sd_open d1 (bk_state_file b) = Some hdl" "map_of (sd_files d1) (hd_path hdl) = Some ?f1"
      using f by (simp_all add: d1 map_of_set_file)
    have ok1: "sim_ok d1"
      using sim_pwrite_ok [OF f(1), of rops "bk_state_file b" "slot_bytes h' ?n" "of_nat (state_slot_offset ?n)" r 32 d1 r1] w ok by simp
    from slot_fsync [OF fs s1] show thesis
    proof (elim disjE conjE exE)
      fix e assume "w2 = Inl e" "d2 = d1"
      then show thesis using run go ok d1 by (intro written [of e]) auto
    next
      assume w2: "w2 = Inr ()" and d2: "d2 = SimDisk_set_file (hd_path hdl)
          (?f1\<lparr>f_durable := fold apply_write (f_pending ?f1) (f_durable ?f1), f_pending := []\<rparr>) d1"
      have "sim_ok d2" using sim_fsync [OF ok1 fs] by simp
      moreover have "st = Inr ()" "bk_state_sequence b' = ?n + 1" "d' = d2" using run go ok w2 by auto
      ultimately show thesis
        using flushed [of "f_visible ?f1"] f(1) ok1 by (simp add: d2 map_of_set_file) (simp add: d1 map_of_set_file)
    qed
  qed
qed

lemma scan_take: "scan_state_file (take 64 v) = scan_state_file v"
  by (simp add: scan_state_file_eq slot0_def slot1_def drop_take)

definition state_path :: "BrokerConfig \<Rightarrow> string" where
  "state_path config = normalize (bc_data_dir config @ ''/'' @ kStateFileName)"

lemma load_cases:
  assumes env: "en_disk env = sim_disk_ops rops" and run: "load_hard_state env b (d, r) = (res, b', (d', r'))"
    and f: "sim_ok d" "map_of (sd_files d) (state_path (bk_config b)) = Some f" "sd_open d = (\<lambda>_. None)"
  shows "map_of (sd_files d') = map_of (sd_files d) \<and>
    (case res of
       Inr got \<Rightarrow>
         if f_visible f = [] then got = HardState_new \<and> bk_state_sequence b' = 0
         else \<exists>p. scan_state_file (f_visible f) = Inr p \<and> got = ps_hard p \<and> bk_state_sequence b' = ps_sequence p + 1
     | Inl e \<Rightarrow> sim_healthy (d, r) \<longrightarrow> f_visible f \<noteq> [] \<and> (\<exists>e. scan_state_file (f_visible f) = Inl e))"
proof -
  let ?p = "state_path (bk_config b)"
  have small: "length (f_visible f) < 18446744073709551616"
    using file_ok_visible [OF sim_ok_file [OF f(1,2)]] by (simp add: kMaxFileBytes_def)
  let ?i = "sd_next_id d"
  let ?d = "d\<lparr>sd_next_id := ?i + 1, sd_open := (sd_open d)(?i \<mapsto> \<lparr>hd_path = ?p, hd_mode = kCreate\<rparr>)\<rparr>"
  have opened: "SimDisk_open (bc_data_dir (bk_config b) @ ''/'' @ kStateFileName) kCreate (d, r) =
      (if \<not> sd_powered d \<or> ?p \<in> sd_dirs d then (Inl kIoError, (d, r)) else (Inr ?i, (?d, r)))"
    using f by (simp add: SimDisk_open_def Let_def state_path_def)
  show ?thesis
  proof (cases "sd_powered d \<and> ?p \<notin> sd_dirs d")
    case False
    then show ?thesis
      using run env opened f(2) by (auto simp: load_hard_state_def sim_disk_ops_def sim_healthy_def split: if_splits)
  next
    case True
    have res: "SimDisk_resolve ?i False ?d = Inr (?p, f)" using True f(2) by (simp add: SimDisk_resolve_def)
    have sz: "(of_nat (length (f_visible f)) :: u64) = 0 \<longleftrightarrow> f_visible f = []"
      using unat_of_nat_u64 [OF small] unsigned_eq_0_iff [of "of_nat (length (f_visible f)) :: u64", where ?'a = nat] by simp
    obtain err r1 where draw: "next_bool_with_probability rops (io_error_probability (sd_faults d)) r = (err, r1)"
      by (cases "next_bool_with_probability rops (io_error_probability (sd_faults d)) r")
    have read: "SimDisk_pread rops ?i 64 0 (?d, r) = (if err then (Inl kIoError, (?d, r1)) else (Inr (take 64 (f_visible f)), (?d, r1)))"
      using draw res by (simp add: SimDisk_pread_def Let_def slice_at_def min_def)
    have go: "load_hard_state env b (d, r) =
        (if f_visible f = [] then (Inr HardState_new, b\<lparr>bk_state_file := ?i, bk_state_sequence := 0\<rparr>, (?d, r))
         else if err then (Inl kIoError, b\<lparr>bk_state_file := ?i\<rparr>, (?d, r1))
         else (case scan_state_file (f_visible f) of
                 Inl e \<Rightarrow> (Inl e, b\<lparr>bk_state_file := ?i\<rparr>, (?d, r1))
               | Inr p \<Rightarrow> (Inr (ps_hard p), b\<lparr>bk_state_file := ?i, bk_state_sequence := ps_sequence p + 1\<rparr>, (?d, r1))))"
      using opened True res sz read unfolding load_hard_state_def env
      by (simp add: sim_disk_ops_def SimDisk_size_def kStateFileBytes_def kStateSlotBytes_def scan_take Let_def split: sum.splits)
    have "sim_healthy (d, r) \<Longrightarrow> \<not> err" using draw by (simp add: sim_healthy_def no_error)
    then show ?thesis
      using run go by (auto split: if_splits sum.splits)
  qed
qed

section \<open>A small state file\<close>

definition sample_vote :: HardState where
  "sample_vote = \<lparr>hs_term = 3, hs_voted_for = 2\<rparr>"

text \<open>A vote flushed in the first slot, and a newer state written to the second but not flushed.\<close>

definition sample_state_file :: File where
  "sample_state_file =
     \<lparr>f_durable = slot_bytes sample_vote 0, f_visible = slot_bytes sample_vote 0 @ slot_bytes HardState_new 1,
      f_pending = [slot_write 1 HardState_new]\<rparr>"

definition sample_state_disk :: SimDisk where
  "sample_state_disk = (SimDisk_new no_faults)
     \<lparr>sd_files := [(''d/raft.state'', sample_state_file)], sd_open := [5 \<mapsto> \<lparr>hd_path = ''d/raft.state'', hd_mode = kCreate\<rparr>],
      sd_next_id := 6\<rparr>"

text \<open>A broker on that disk, whose network is down.\<close>

definition down_loop :: "'w loop_ops" where
  "down_loop = \<lparr>nw_listen = (\<lambda>_ w. (fail kIoError, w)), nw_local_port = (\<lambda>_ w. (fail kNotFound, w)),
     nw_accept = (\<lambda>_ w. (fail kNotFound, w)), nw_connect = (\<lambda>_ _ w. Some (fail kNotFound, w)),
     nw_read = (\<lambda>_ _ w. (fail kNotFound, w)), nw_write = (\<lambda>_ _ w. Some (fail kNotFound, w)), nw_close = (\<lambda>_ w. w),
     nw_watch = (\<lambda>_ _ _ w. w), lp_add_timer_after = (\<lambda>_ w. w)\<rparr>"

definition disk_random :: "(SimDisk \<times> SeededRandom) random_ops" where
  "disk_random = \<lparr>rnd_next_u64 = (\<lambda>(d, r). let (x, r) = next_u64 r in (x, (d, r))),
     rnd_next_below = (\<lambda>n (d, r). map_option (\<lambda>(x, r). (x, (d, r))) (next_below n r))\<rparr>"

definition sample_env :: "(SimDisk \<times> SeededRandom) Env" where
  "sample_env = \<lparr>en_disk = sim_disk_ops seeded_ops, en_random = disk_random, en_loop = down_loop, en_observer = null_observer\<rparr>"

definition sample_broker :: Broker where
  "sample_broker = (Broker_new \<lparr>bc_id = 1, bc_data_dir = ''d'', bc_port = 0, bc_peers = [], bc_tick_interval = 0,
     bc_election_timeout_ticks = 15, bc_election_timeout_jitter_ticks = 15, bc_heartbeat_timeout_ticks = 5,
     bc_segment_max_bytes = 1024, bc_fsync_hard_state = True, bc_ack_on_local_append = False\<rparr>)
     \<lparr>bk_state_file := 5, bk_state_sequence := 1\<rparr>"

lemma sample_may_find: "may_find sample_state_file 1 {sample_vote, HardState_new}"
proof -
  have "state_slot_offset 0 = 0" "state_slot_offset 1 = 32" by (simp_all add: state_slot_offset_def kStateSlotBytes_def)
  then have "holds (slot_bytes sample_vote 0) 1 sample_vote"
    by (simp add: holds_def recorded_def slot_of_def short_slot)
  then show ?thesis
    unfolding may_find_def sample_state_file_def
    by (intro exI [of _ sample_vote] exI [of _ "[HardState_new]"]) simp
qed

lemma sample_state_ok: "sim_ok sample_state_disk"
proof -
  have "state_slot_offset 1 = 32" by (simp add: state_slot_offset_def kStateSlotBytes_def)
  then show ?thesis
    using apply_bytes_append [of "slot_bytes sample_vote 0" "slot_bytes HardState_new 1"]
    by (auto simp: sim_ok_def sample_state_disk_def sample_state_file_def SimDisk_new_def file_ok_def slot_write_def apply_write_def
        kMaxFileBytes_def)
qed

section \<open>Properties\<close>

text \<open>C4. \<^verbatim>\<open>Broker::persist\<close> implements the abstract write of the cluster model. When it reports
  success, the state written is the only one a restart can find; when it reports an error, a restart
  can find what it could find before and perhaps the state written, and nothing else. This holds
  whatever earlier writes failed, and whichever of the disk's errors occurs.\<close>

theorem persist_refines:
  assumes "en_disk env = sim_disk_ops rops" and "en_observer env = null_observer" and "bc_fsync_hard_state (bk_config b)"
    and "sim_ok d" and "sd_open d (bk_state_file b) = Some hdl" and "map_of (sd_files d) (hd_path hdl) = Some f"
    and "may_find f (bk_state_sequence b) D" and "bk_state_sequence b + 1 \<noteq> 0"
    and "persist env h b (d, r) = (st, b', (d', r'))"
  shows "\<exists>f'. map_of (sd_files d') (hd_path hdl) = Some f' \<and>
    (case st of
       Inr _ \<Rightarrow> may_find f' (bk_state_sequence b') {h}
     | Inl _ \<Rightarrow> may_find f' (bk_state_sequence b') D \<or> may_find f' (bk_state_sequence b') (insert h D))"
  using assms(1,2,3,9,4-6)
proof (cases rule: persist_cases)
  case (written e v)
  then show ?thesis using may_find_write [OF assms(7)] assms(4) by (simp add: map_of_set_file)
next
  case (flushed v)
  then show ?thesis using may_find_flushed [OF assms(7,8)] by simp
qed (use assms(6,7) in simp)

theorem persist_refines_witness:
  "\<exists>b' d' r' f'. persist sample_env \<lparr>hs_term = 4, hs_voted_for = 1\<rparr> sample_broker (sample_state_disk, reseed 1) = (Inr (), b', (d', r')) \<and>
     map_of (sd_files d') ''d/raft.state'' = Some f' \<and> may_find f' (bk_state_sequence b') {\<lparr>hs_term = 4, hs_voted_for = 1\<rparr>}"
proof -
  let ?h = "\<lparr>hs_term = 4, hs_voted_for = 1\<rparr>"
  obtain st b' d' r' where run: "persist sample_env ?h sample_broker (sample_state_disk, reseed 1) = (st, b', (d', r'))"
    by (metis prod_cases4)
  have "st = Inr ()"
    using run by (auto simp: persist_def sample_env_def sample_broker_def Broker_new_def kInvalidFile_def sim_disk_ops_def
        SimDisk_pwrite_def SimDisk_fsync_def SimDisk_resolve_def sample_state_disk_def SimDisk_new_def no_faults_def no_error
        encode_state_slot_eq state_slot_offset_def SimDisk_set_file_def kStateSlotBytes_def kMaxFileBytes_def Let_def
        split: if_splits)
  moreover have "\<exists>f'. map_of (sd_files d') (hd_path \<lparr>hd_path = ''d/raft.state'', hd_mode = kCreate\<rparr>) = Some f' \<and>
    (case st of
       Inr _ \<Rightarrow> may_find f' (bk_state_sequence b') {?h}
     | Inl _ \<Rightarrow> may_find f' (bk_state_sequence b') {sample_vote, HardState_new} \<or>
                may_find f' (bk_state_sequence b') (insert ?h {sample_vote, HardState_new}))"
    by (rule persist_refines [OF _ _ _ sample_state_ok _ _ _ _ run, of seeded_ops _ sample_state_file])
      (use sample_may_find in \<open>simp_all add: sample_env_def sample_broker_def Broker_new_def sample_state_disk_def SimDisk_new_def\<close>)
  ultimately show ?thesis using run by auto
qed

text \<open>C5. After a power cut at any moment, \<^verbatim>\<open>load_hard_state\<close> gives back a state that had been
  written: the one flushed last or one whose write was under way, unless a torn slot passes its
  checksum; what it found is from then on the only state a restart can find. It does so whenever the
  disk answers and a state had ever been flushed; a first write cut short leaves a file it refuses.\<close>

theorem load_after_power_cut:
  assumes "en_disk env = sim_disk_ops rops" and "sim_ok d" and "map_of (sd_files d) (state_path (bk_config b)) = Some f"
    and "may_find f n D" and "n + 1 \<noteq> 0" and "SimDisk_crash rops (d, r) = Some (d1, r1)"
    and "load_hard_state env b (SimDisk_power_on d1, r1) = (res, b', (d2, r2))"
  shows "(\<exists>hs f1. f_pending f = map (slot_write n) hs \<and> map_of (sd_files d1) (state_path (bk_config b)) = Some f1 \<and>
       torn_passes (f_durable f) n hs (f_visible f1)) \<or>
    (case res of
       Inr got \<Rightarrow> got \<in> D \<and> (\<exists>f'. map_of (sd_files d2) (state_path (bk_config b)) = Some f' \<and> may_find f' (bk_state_sequence b') {got})
     | Inl e \<Rightarrow> f_durable f \<noteq> [] \<longrightarrow> \<not> sim_healthy (SimDisk_power_on d1, r1))"
proof -
  obtain h hs where D: "D = insert h (set hs)" and h: "holds (f_durable f) n h" and pend: "f_pending f = map (slot_write n) hs"
    using assms(4) by (auto simp: may_find_def)
  obtain f' where f': "map_of (sd_files d1) (state_path (bk_config b)) = Some f'"
    and v: "f_visible f' \<in> crash_images (map (slot_write n) hs) (f_durable f)"
    and same: "f_durable f' = f_visible f'" "f_pending f' = []"
    using crash_file(1) [OF assms(6), of "state_path (bk_config b)"] assms(3) pend by (auto simp: option_rel_Some1)
  have on: "sim_ok (SimDisk_power_on d1)" "sd_open (SimDisk_power_on d1) = (\<lambda>_. None)"
      "map_of (sd_files (SimDisk_power_on d1)) (state_path (bk_config b)) = Some f'"
    using crash_ok [OF assms(2,6)] crash_file(3) [OF assms(6)] f' by (auto simp: SimDisk_power_on_def sim_ok_def)
  note load = load_cases [OF assms(1,7) on(1,3,2)]
  have settled: "may_find f' m {g}" if "holds (f_visible f') m g" for m g
    using that same by (auto simp: may_find_def intro!: exI [of _ g] exI [of _ "[]"])
  from crash_found [OF v h assms(5)] show ?thesis
  proof (elim disjE)
    assume "torn_passes (f_durable f) n hs (f_visible f')"
    then show ?thesis using pend f' by blast
  next
    assume found: "found (insert h (set hs)) (f_visible f')"
    show ?thesis
    proof (cases "f_visible f' = []")
      case True
      then have "holds (f_visible f') 0 HardState_new" by (simp add: holds_def)
      then show ?thesis using load True found settled on(3) D by (auto simp: found_def split: sum.splits)
    next
      case False
      then show ?thesis using load found settled on(3) D by (auto simp: found_def split: sum.splits)
    qed
  next
    assume "f_durable f = [] \<and> f_visible f' \<noteq> [] \<and> (\<exists>e. scan_state_file (f_visible f') = Inl e)"
    then show ?thesis using load by (auto split: sum.splits)
  qed
qed

theorem load_after_power_cut_witness:
  "\<exists>d1 r1 got b' d2 r2. SimDisk_crash seeded_ops (sample_state_disk, reseed 1) = Some (d1, r1) \<and>
     load_hard_state sample_env sample_broker (SimDisk_power_on d1, r1) = (Inr got, b', (d2, r2)) \<and>
     got \<in> {sample_vote, HardState_new}"
proof -
  let ?f1 = "\<lparr>f_durable = slot_bytes sample_vote 0, f_visible = slot_bytes sample_vote 0, f_pending = []\<rparr>"
  obtain d1 r1 where crash: "SimDisk_crash seeded_ops (sample_state_disk, reseed 1) = Some (d1, r1)"
    and f1: "sd_files d1 = [(''d/raft.state'', ?f1)]"
    by (simp add: SimDisk_crash_def sample_state_disk_def sample_state_file_def SimDisk_new_def no_faults_def tear_probability_def
        round_double_def crash_applied_def no_error slot_write_def Let_def)
  obtain res b' d2 r2 where run: "load_hard_state sample_env sample_broker (SimDisk_power_on d1, r1) = (res, b', (d2, r2))"
    by (metis prod_cases4)
  have path: "state_path (bk_config sample_broker) = ''d/raft.state''"
    by (simp add: state_path_def sample_broker_def Broker_new_def kStateFileName_def normalize.simps)
  have healthy: "sim_healthy (SimDisk_power_on d1, r1)"
    using crash_ok [OF sample_state_ok crash] crash_file(3) [OF crash] f1
    by (auto simp: sim_healthy_def SimDisk_power_on_def sim_ok_def sample_state_disk_def SimDisk_new_def no_faults_def)
  have slot: "\<not> torn_passes c 1 hs (f_visible ?f1)" for c hs
    by (simp add: torn_passes_def slot_of_def state_slot_offset_def kStateSlotBytes_def short_slot)
  have "(\<exists>hs f1. f_pending sample_state_file = map (slot_write 1) hs \<and> map_of (sd_files d1) (state_path (bk_config sample_broker)) = Some f1 \<and>
       torn_passes (f_durable sample_state_file) 1 hs (f_visible f1)) \<or>
    (case res of
       Inr got \<Rightarrow> got \<in> {sample_vote, HardState_new} \<and>
         (\<exists>f'. map_of (sd_files d2) (state_path (bk_config sample_broker)) = Some f' \<and> may_find f' (bk_state_sequence b') {got})
     | Inl e \<Rightarrow> f_durable sample_state_file \<noteq> [] \<longrightarrow> \<not> sim_healthy (SimDisk_power_on d1, r1))"
    by (rule load_after_power_cut [OF _ sample_state_ok _ sample_may_find _ crash run])
      (simp_all add: sample_env_def path, simp add: sample_state_disk_def)
  then obtain got where "res = Inr got" "got \<in> {sample_vote, HardState_new}"
    using healthy f1 slot path by (cases res) (auto simp: sample_state_file_def)
  then show ?thesis using crash run by blast
qed

end
