(* ===== verification/Raft_Steps.thy ===== *)
theory Raft_Steps
  imports Raft_Node
begin

text \<open>
  What the operations of a Raft node do to the parts of its state that elections are decided by: the
  term and the vote, the role and the votes gathered, and the messages waiting to be sent. Most
  operations leave all of it alone and only queue messages that are not votes; those that do not are
  characterised exactly.
\<close>

section \<open>Ballots\<close>

text \<open>A message that binds its sender to a choice: a request for votes is the candidate's vote for itself.\<close>

definition ballot :: "Message \<Rightarrow> (NodeId \<times> Term \<times> NodeId) option" where
  "ballot m =
     (case m_type m of
        kRequestVote \<Rightarrow> Some (m_from m, m_term m, m_from m)
      | kRequestVoteResponse \<Rightarrow> if m_granted m then Some (m_from m, m_term m, m_to m) else None
      | kAppendEntries \<Rightarrow> None
      | kAppendEntriesResponse \<Rightarrow> None)"

text \<open>A message as the node with this state sends it.\<close>

definition own_message :: "Node \<Rightarrow> Message \<Rightarrow> bool" where
  "own_message nd m \<longleftrightarrow> m_from m = nd_id nd \<and> m_term m = nd_term nd"

section \<open>Operations that decide nothing\<close>

text \<open>The state is that before as far as elections go, and only messages that are no ballots were queued.\<close>

definition quiet :: "Node \<Rightarrow> Node \<Rightarrow> bool" where
  "quiet nd nd' \<longleftrightarrow>
     nd_config nd' = nd_config nd \<and> nd_hard nd' = nd_hard nd \<and> nd_hard_state_dirty nd' = nd_hard_state_dirty nd \<and>
     nd_role nd' = nd_role nd \<and> nd_votes nd' = nd_votes nd \<and>
     (\<exists>ms. nd_out nd' = nd_out nd @ ms \<and> (\<forall>m \<in> set ms. own_message nd m \<and> ballot m = None))"

lemma quiet_refl [simp, intro]: "quiet nd nd"
  by (simp add: quiet_def)

lemma quiet_trans: "quiet a b \<Longrightarrow> quiet b c \<Longrightarrow> quiet a c"
  by (auto simp: quiet_def own_message_def)

lemma quiet_fields:
  assumes "nd_config nd' = nd_config nd" and "nd_hard nd' = nd_hard nd"
    and "nd_hard_state_dirty nd' = nd_hard_state_dirty nd" and "nd_role nd' = nd_role nd" and "nd_votes nd' = nd_votes nd"
    and "nd_out nd' = nd_out nd"
  shows "quiet nd nd'"
  using assms by (simp add: quiet_def)

lemma quiet_send: "m_type m \<in> {kAppendEntries, kAppendEntriesResponse} \<or> m_type m = kRequestVoteResponse \<and> \<not> m_granted m \<Longrightarrow>
    quiet nd (Node_send m nd)"
  by (auto simp: quiet_def Node_send_def own_message_def ballot_def)

lemma quiet_fold: "(\<And>x nd. quiet nd (f x nd)) \<Longrightarrow> quiet nd (fold f xs nd)"
  by (induction xs arbitrary: nd) (auto intro: quiet_trans)

lemma quiet_send_append_entries: "quiet nd (send_append_entries peer nd)"
  unfolding send_append_entries_def
  by (rule quiet_send) (simp add: append_entries_for_def Let_def Message_new_def)

lemma quiet_broadcast: "quiet nd (broadcast_heartbeat nd)"
  unfolding broadcast_heartbeat_def by (rule quiet_fold) (rule quiet_send_append_entries)

lemma quiet_push: "quiet nd (push_appended index nd)"
  unfolding push_appended_def by (rule quiet_fold) (simp add: quiet_send_append_entries)

lemma quiet_advance: "quiet nd (advance_commit_index nd)"
  by (simp add: advance_commit_index_def quiet_fields)

lemma quiet_log_appended: "quiet nd (log_appended index end_idx t nd)"
proof -
  let ?nd = "(append_epoch t index nd)\<lparr>nd_log_end := (if end_idx > index then end_idx else index + 1), nd_last_term := t\<rparr>"
  have "quiet nd ?nd" by (rule quiet_fields) (simp_all add: append_epoch_def)
  moreover have "quiet ?nd (push_appended index (advance_commit_index ?nd))" by (rule quiet_trans [OF quiet_advance quiet_push])
  ultimately show ?thesis unfolding log_appended_def Let_def by (auto intro: quiet_trans)
qed

lemma quiet_refresh: "quiet nd (refresh_last_term nd)"
  by (simp add: refresh_last_term_def quiet_fields)

lemma quiet_restore: "quiet nd (restore_log log_end epochs nd)"
  by (simp add: restore_log_def refresh_last_term_def Let_def quiet_fields)

lemma quiet_take_entry: "quiet nd (take_entry message nd)"
proof -
  have "quiet nd (drop_conflict message nd)"
    by (simp add: drop_conflict_def refresh_last_term_def truncate_epochs_from_def Let_def quiet_fields)
  moreover have "quiet nd (log_appended a e t (nd\<lparr>nd_pending_append := True\<rparr>))" for nd a e t
    using quiet_log_appended [of "nd\<lparr>nd_pending_append := True\<rparr>"]
    by (rule quiet_trans [OF quiet_fields, rotated 6]) simp_all
  ultimately show ?thesis unfolding take_entry_def Let_def by (auto intro: quiet_trans)
qed

lemma quiet_adopt_commit: "quiet nd (adopt_commit message nd)"
  by (simp add: adopt_commit_def quiet_fields)

lemma quiet_append_refused: "quiet nd (append_refused message nd)"
  unfolding append_refused_def by (rule quiet_send) (simp add: Message_new_def)

lemma quiet_append_accepted: "quiet nd (append_accepted message nd)"
  unfolding append_accepted_def by (rule quiet_send) (simp add: Message_new_def)

lemma quiet_append_part:
  "quiet nd (if \<not> append_matches message nd then append_refused message nd
             else append_accepted message (adopt_commit message (if carries_entry message then take_entry message nd else nd)))"
  by (auto intro: quiet_append_refused quiet_trans [OF quiet_trans [OF quiet_take_entry quiet_adopt_commit] quiet_append_accepted]
      quiet_trans [OF quiet_adopt_commit quiet_append_accepted])

lemma quiet_append_response: "quiet nd (handle_append_entries_response message nd)"
proof -
  have upd: "quiet nd (nd\<lparr>nd_next := x\<rparr>)" "quiet nd (nd\<lparr>nd_match := x\<rparr>)" for nd x
    by (simp_all add: quiet_fields)
  show ?thesis
    unfolding handle_append_entries_response_def Let_def
    by (auto intro!: quiet_send_append_entries quiet_advance
        intro: quiet_trans [OF upd(1)] quiet_trans [OF upd(2)] quiet_trans [OF quiet_advance] quiet_trans [OF quiet_trans [OF upd(2) upd(1)]])
qed

section \<open>Operations that decide\<close>

lemma quiet_reset: "reset_election_timer ops nd r = Some (nd', r') \<Longrightarrow> quiet nd nd'"
  by (auto simp: reset_election_timer_def Let_def quiet_fields split: bind_splits if_splits)

lemma become_follower_effect:
  "become_follower ops t l nd r = Some (nd', r') \<Longrightarrow>
   quiet (nd\<lparr>nd_hard := (if t > nd_term nd then \<lparr>hs_term = t, hs_voted_for = kNoNode\<rparr> else nd_hard nd),
            nd_hard_state_dirty := (t > nd_term nd \<or> nd_hard_state_dirty nd), nd_role := kFollower, nd_votes := {}\<rparr>) nd'"
  unfolding become_follower_def Let_def
  by (drule quiet_reset, erule quiet_trans [rotated]) (auto intro: quiet_fields)

lemma become_candidate_effect:
  "become_candidate ops nd r = Some (nd', r') \<Longrightarrow>
   quiet (nd\<lparr>nd_hard := \<lparr>hs_term = nd_term nd + 1, hs_voted_for = nd_id nd\<rparr>, nd_hard_state_dirty := True,
            nd_role := kCandidate, nd_votes := {nd_id nd}\<rparr>) nd'"
  unfolding become_candidate_def
  by (drule quiet_reset, erule quiet_trans [rotated]) (auto intro: quiet_fields)

lemma become_leader_effect: "quiet (nd\<lparr>nd_role := kLeader\<rparr>) (become_leader nd)"
  unfolding become_leader_def by (rule quiet_trans [OF quiet_fields quiet_broadcast]) simp_all

lemma request_votes_effect:
  "\<exists>ms. request_votes nd = nd\<lparr>nd_out := nd_out nd @ ms\<rparr> \<and>
        (\<forall>m \<in> set ms. own_message nd m \<and> m_type m = kRequestVote)"
proof -
  let ?req = "\<lambda>peer nd. Node_send (Message_new\<lparr>m_type := kRequestVote, m_to := peer, m_log_index := nd_log_end nd,
      m_log_term := nd_last_term nd\<rparr>) nd"
  have "\<exists>ms. fold ?req ps nd = nd\<lparr>nd_out := nd_out nd @ ms\<rparr> \<and> (\<forall>m \<in> set ms. own_message nd m \<and> m_type m = kRequestVote)" for ps
  proof (induction ps arbitrary: nd)
    case (Cons p ps)
    obtain ms where "fold ?req ps (?req p nd) = (?req p nd)\<lparr>nd_out := nd_out (?req p nd) @ ms\<rparr>"
        "\<forall>m \<in> set ms. own_message (?req p nd) m \<and> m_type m = kRequestVote"
      using Cons.IH by blast
    then show ?case
      by (intro exI [of _ "(Message_new\<lparr>m_type := kRequestVote, m_to := p, m_log_index := nd_log_end nd,
          m_log_term := nd_last_term nd\<rparr>)\<lparr>m_from := nd_id nd, m_term := nd_term nd\<rparr> # ms"])
        (simp add: Node_send_def own_message_def)
  qed (auto intro: exI [of _ "[]"])
  then show ?thesis unfolding request_votes_def .
qed

section \<open>What a node may say\<close>

text \<open>A recorded state may be followed by a newer one: a later term, or the same with the vote cast since.\<close>

definition hs_le :: "HardState \<Rightarrow> HardState \<Rightarrow> bool" where
  "hs_le h h' \<longleftrightarrow>
     hs_term h < hs_term h' \<or> hs_term h = hs_term h' \<and> (hs_voted_for h = kNoNode \<or> hs_voted_for h = hs_voted_for h')"

lemma hs_le_refl [simp]: "hs_le h h"
  by (simp add: hs_le_def)

lemma hs_le_trans: "hs_le a b \<Longrightarrow> hs_le b c \<Longrightarrow> hs_le a c"
  by (auto simp: hs_le_def)

definition granted_to :: "NodeId \<Rightarrow> NodeId \<Rightarrow> Term \<Rightarrow> Message \<Rightarrow> bool" where
  "granted_to v i t m \<longleftrightarrow>
     m_type m = kRequestVoteResponse \<and> m_granted m \<and> m_from m = v \<and> m_to m = i \<and> m_term m = t"

definition requested_by :: "NodeId \<Rightarrow> Term \<Rightarrow> Message \<Rightarrow> bool" where
  "requested_by i t m \<longleftrightarrow> m_type m = kRequestVote \<and> m_from m = i \<and> m_term m = t"

text \<open>
  A node is true to the states \<open>D\<close> it may find recorded and to the messages \<open>net\<close> that were sent:
  it never goes back behind a recorded term or vote; when it owes no write the record is exact; every
  vote it counts is its own or was sent to it; every ballot it queued is its recorded choice, and a
  vote it grants was asked for.
\<close>

definition ballot_ok :: "Message set \<Rightarrow> Node \<Rightarrow> Message \<Rightarrow> bool" where
  "ballot_ok net nd m \<longleftrightarrow>
     own_message nd m \<and>
     (\<forall>v t c. ballot m = Some (v, t, c) \<longrightarrow> nd_voted_for nd = c \<and> c \<noteq> kNoNode) \<and>
     (\<forall>v c t. granted_to v c t m \<longrightarrow> (\<exists>m' \<in> net. requested_by c t m'))"

definition true_to :: "Config \<Rightarrow> HardState set \<Rightarrow> Message set \<Rightarrow> Node \<Rightarrow> bool" where
  "true_to cf D net nd \<longleftrightarrow>
     nd_config nd = cf \<and> nd_id nd \<noteq> kNoNode \<and> (\<forall>h \<in> D. hs_le h (nd_hard nd)) \<and> (\<not> nd_hard_state_dirty nd \<longrightarrow> D = {nd_hard nd}) \<and>
     (nd_role nd \<noteq> kFollower \<longrightarrow> nd_voted_for nd = nd_id nd \<and> finite (nd_votes nd) \<and>
        (\<forall>v \<in> nd_votes nd. v = nd_id nd \<or> (\<exists>m \<in> net. granted_to v (nd_id nd) (nd_term nd) m))) \<and>
     (nd_role nd = kLeader \<longrightarrow> quorum (nd_config nd) \<le> card (nd_votes nd)) \<and>
     (\<forall>m \<in> set (nd_out nd). ballot_ok net nd m)"

lemma ballot_ok_quiet: "ballot_ok net nd m \<Longrightarrow> quiet nd nd' \<Longrightarrow> ballot_ok net nd' m"
  by (simp add: ballot_ok_def quiet_def own_message_def)

lemma ballot_ok_plain: "own_message nd m \<Longrightarrow> ballot m = None \<Longrightarrow> ballot_ok net nd m"
  by (simp add: ballot_ok_def granted_to_def) (auto simp: ballot_def)

lemma true_to_out: "true_to cf D net nd \<Longrightarrow> m \<in> set (nd_out nd) \<Longrightarrow> ballot_ok net nd m"
  by (simp add: true_to_def)

lemma true_to_quiet:
  assumes "true_to cf D net nd" and "quiet nd nd'"
  shows "true_to cf D net nd'"
proof -
  obtain ms where ms: "nd_out nd' = nd_out nd @ ms" "\<forall>m \<in> set ms. own_message nd m \<and> ballot m = None"
    using assms(2) by (auto simp: quiet_def)
  have "ballot_ok net nd m" if "m \<in> set (nd_out nd')" for m
    using that ms true_to_out [OF assms(1)] ballot_ok_plain by auto
  then have "ballot_ok net nd' m" if "m \<in> set (nd_out nd')" for m
    using that ballot_ok_quiet [OF _ assms(2)] by blast
  moreover have eqs: "nd_config nd' = nd_config nd" "nd_hard nd' = nd_hard nd" "nd_role nd' = nd_role nd"
      "nd_hard_state_dirty nd' = nd_hard_state_dirty nd" "nd_votes nd' = nd_votes nd"
    using assms(2) by (simp_all add: quiet_def)
  ultimately show ?thesis using assms(1) unfolding true_to_def eqs by blast
qed

lemma true_to_follower:
  assumes "true_to cf D net nd" and "nd_out nd = []" and "become_follower ops t l nd r = Some (nd', r')"
  shows "true_to cf D net nd'"
proof (rule true_to_quiet [OF _ become_follower_effect [OF assms(3)]])
  have "hs_le h \<lparr>hs_term = t, hs_voted_for = kNoNode\<rparr>" if "h \<in> D" "t > nd_term nd" for h
  proof -
    have "hs_le h (nd_hard nd)" using that assms(1) by (simp add: true_to_def)
    then show ?thesis using that(2) by (auto simp: hs_le_def)
  qed
  then show "true_to cf D net (nd\<lparr>nd_hard := (if t > nd_term nd then \<lparr>hs_term = t, hs_voted_for = kNoNode\<rparr> else nd_hard nd),
      nd_hard_state_dirty := (t > nd_term nd \<or> nd_hard_state_dirty nd), nd_role := kFollower, nd_votes := {}\<rparr>)"
    using assms(1,2) by (auto simp: true_to_def)
qed

lemma true_to_leader:
  assumes "true_to cf D net nd" and "nd_role nd = kCandidate" and "quorum (nd_config nd) \<le> card (nd_votes nd)"
  shows "true_to cf D net (become_leader nd)"
  by (rule true_to_quiet [OF _ become_leader_effect]) (use assms in \<open>auto simp: true_to_def ballot_ok_def own_message_def\<close>)

lemma true_to_campaign:
  assumes "true_to cf D net nd" and "nd_out nd = []" and "nd_term nd < nd_term nd + 1" and "campaign ops nd r = Some (nd', r')"
  shows "true_to cf D net nd'"
proof -
  obtain nd1 where c: "become_candidate ops nd r = Some (nd1, r')"
    and nd': "nd' = (if card (nd_votes nd1) \<ge> quorum (nd_config nd1) then become_leader nd1 else request_votes nd1)"
    using assms(4) by (auto simp: campaign_def split: bind_splits)
  let ?c = "nd\<lparr>nd_hard := \<lparr>hs_term = nd_term nd + 1, hs_voted_for = nd_id nd\<rparr>, nd_hard_state_dirty := True,
            nd_role := kCandidate, nd_votes := {nd_id nd}\<rparr>"
  have q: "quiet ?c nd1" by (rule become_candidate_effect [OF c])
  have "hs_le h (nd_hard ?c)" if "h \<in> D" for h
  proof -
    have "hs_le h (nd_hard nd)" using that assms(1) by (simp add: true_to_def)
    then show ?thesis using assms(3) by (auto simp: hs_le_def)
  qed
  then have "true_to cf D net ?c" using assms(1,2) by (auto simp: true_to_def)
  then have t1: "true_to cf D net nd1" using q by (rule true_to_quiet)
  have role: "nd_role nd1 = kCandidate" "nd_voted_for nd1 = nd_id nd1" using q by (simp_all add: quiet_def)
  obtain ms where ms: "request_votes nd1 = nd1\<lparr>nd_out := nd_out nd1 @ ms\<rparr>"
      "\<forall>m \<in> set ms. own_message nd1 m \<and> m_type m = kRequestVote"
    using request_votes_effect [of nd1] by blast
  have id: "nd_id nd1 \<noteq> kNoNode" using t1 unfolding true_to_def by blast
  have "ballot_ok net nd1 m" if "m \<in> set ms" for m
    using ms(2) that role(2) id by (auto simp: ballot_ok_def ballot_def own_message_def granted_to_def)
  then have "true_to cf D net (request_votes nd1)" using t1 ms(1) by (auto simp: true_to_def ballot_ok_def own_message_def)
  then show ?thesis using nd' true_to_leader [OF t1 role(1)] by auto
qed

lemma true_to_tick:
  assumes "true_to cf D net nd" and "nd_out nd = []" and "nd_term nd < nd_term nd + 1" and "tick ops nd r = Some (nd', r')"
  shows "true_to cf D net nd'"
proof -
  have beat: "true_to cf D net (broadcast_heartbeat (nd\<lparr>nd_heartbeat_elapsed := x\<rparr>))" "true_to cf D net (nd\<lparr>nd_heartbeat_elapsed := x\<rparr>)" for x
    using true_to_quiet [OF assms(1), of "nd\<lparr>nd_heartbeat_elapsed := x\<rparr>"] true_to_quiet [OF _ quiet_broadcast]
    by (auto simp: quiet_fields)
  have wait: "true_to cf D net (nd\<lparr>nd_election_elapsed := x\<rparr>)" for x
    using true_to_quiet [OF assms(1), of "nd\<lparr>nd_election_elapsed := x\<rparr>"] by (simp add: quiet_fields)
  show ?thesis
    using assms(2-4) beat wait true_to_campaign [OF wait [of "nd_election_elapsed nd + 1"], of ops r nd' r']
    by (auto simp: tick_def Let_def split: if_splits)
qed

lemma true_to_request_vote:
  assumes "true_to cf D net nd" and "m \<in> net" and "m_type m = kRequestVote" and "m_term m = nd_term nd" and "m_from m \<noteq> kNoNode"
  shows "true_to cf D net (handle_request_vote m nd)"
proof (cases "(nd_voted_for nd \<noteq> kNoNode \<and> nd_voted_for nd \<noteq> m_from m) \<or> \<not> log_is_up_to_date (m_log_index m) (m_log_term m) nd")
  case True
  then have "handle_request_vote m nd = Node_reply m kRequestVoteResponse False nd"
    by (auto simp: handle_request_vote_def Let_def)
  moreover have "quiet nd (Node_reply m kRequestVoteResponse False nd)"
    unfolding Node_reply_def by (rule quiet_send) simp
  ultimately show ?thesis using true_to_quiet [OF assms(1)] by simp
next
  case False
  define nd1 where "nd1 = (if nd_voted_for nd \<noteq> m_from m
      then nd\<lparr>nd_hard := (nd_hard nd)\<lparr>hs_voted_for := m_from m\<rparr>, nd_hard_state_dirty := True\<rparr> else nd)\<lparr>nd_election_elapsed := 0\<rparr>"
  have run: "handle_request_vote m nd = Node_reply m kRequestVoteResponse True nd1"
    using False by (auto simp: handle_request_vote_def Let_def nd1_def)
  have vote: "nd_voted_for nd1 = m_from m" "nd_term nd1 = nd_term nd" "nd_id nd1 = nd_id nd" by (auto simp: nd1_def)
  have "hs_le h (nd_hard nd1)" if "h \<in> D" for h
  proof -
    have "hs_le h (nd_hard nd)" using that assms(1) by (simp add: true_to_def)
    then show ?thesis using False by (auto simp: nd1_def hs_le_def)
  qed
  moreover have "nd_role nd \<noteq> kFollower \<longrightarrow> m_from m = nd_id nd"
    using False assms(1) by (auto simp: true_to_def)
  moreover have "ballot_ok net nd1 x" if "ballot_ok net nd x" for x
    using that False vote by (auto simp: ballot_ok_def own_message_def)
  ultimately have t1: "true_to cf D net nd1" using assms(1) by (auto simp: true_to_def nd1_def)
  have "\<exists>m' \<in> net. requested_by (m_from m) (nd_term nd) m'"
    using assms(2-4) by (auto simp: requested_by_def)
  then have "ballot_ok net nd1 (Message_new\<lparr>m_type := kRequestVoteResponse, m_to := m_from m, m_granted := True,
      m_log_index := nd_log_end nd1, m_log_term := nd_last_term nd1, m_from := nd_id nd1, m_term := nd_term nd1\<rparr>)"
    using vote assms(5) by (auto simp: ballot_ok_def own_message_def ballot_def granted_to_def)
  then show ?thesis
    using t1 unfolding run Node_reply_def Node_send_def by (auto simp: true_to_def ballot_ok_def own_message_def)
qed

lemma true_to_vote_response:
  assumes "true_to cf D net nd" and "m \<in> net" and "m_type m = kRequestVoteResponse" and "m_term m = nd_term nd"
    and "m_to m = nd_id nd"
  shows "true_to cf D net (handle_request_vote_response m nd)"
proof (cases "nd_role nd = kCandidate \<and> m_granted m")
  case True
  let ?nd = "nd\<lparr>nd_votes := insert (m_from m) (nd_votes nd)\<rparr>"
  have "granted_to (m_from m) (nd_id nd) (nd_term nd) m" using assms(3-5) True by (simp add: granted_to_def)
  then have "true_to cf D net ?nd"
    using assms(1,2) True by (auto simp: true_to_def ballot_ok_def own_message_def)
  then show ?thesis
    using True true_to_leader [of cf D net ?nd] by (auto simp: handle_request_vote_response_def Let_def)
next
  case False
  then show ?thesis using assms(1) by (auto simp: handle_request_vote_response_def)
qed

lemma true_to_append_entries:
  assumes "true_to cf D net nd" and "nd_out nd = []" and "handle_append_entries ops m nd r = Some (nd', r')"
  shows "true_to cf D net nd'"
proof (cases "nd_role nd = kLeader")
  case False
  then obtain nd1 where f: "become_follower ops (m_term m) (m_from m) nd r = Some (nd1, r')"
    and nd': "nd' = (if \<not> append_matches m nd1 then append_refused m nd1
        else append_accepted m (adopt_commit m (if carries_entry m then take_entry m nd1 else nd1)))"
    using assms(3) by (auto simp: handle_append_entries_def split: bind_splits)
  show ?thesis unfolding nd' by (rule true_to_quiet [OF true_to_follower [OF assms(1,2) f] quiet_append_part])
qed (use assms in \<open>auto simp: handle_append_entries_def\<close>)

lemma become_follower_out: "become_follower ops t l nd r = Some (nd', r') \<Longrightarrow> nd_out nd' = nd_out nd \<and> nd_config nd' = nd_config nd"
  by (auto simp: become_follower_def reset_election_timer_def Let_def split: bind_splits if_splits)

lemma become_follower_term: "become_follower ops t l nd r = Some (nd', r') \<Longrightarrow> nd_term nd' = max t (nd_term nd)"
  by (auto simp: become_follower_def reset_election_timer_def Let_def max_def split: bind_splits if_splits)

lemma true_to_handle:
  assumes "true_to cf D net nd" and "nd_out nd = []" and "m \<in> net" and "m_to m = nd_id nd" and "m_from m \<noteq> kNoNode"
    and "m_term m = nd_term nd" and "handle ops m nd r = Some (nd', r')"
  shows "true_to cf D net nd'"
  using assms true_to_request_vote [OF assms(1,3)] true_to_vote_response [OF assms(1,3)]
    true_to_append_entries [OF assms(1,2), of ops m r nd' r'] true_to_quiet [OF assms(1) quiet_append_response]
  by (auto simp: handle_def split: MessageType.splits)

lemma quiet_stale: "quiet nd (reply_stale m nd)"
  by (cases "m_type m") (auto simp: reply_stale_def Node_reply_def intro!: quiet_send)

lemma true_to_step:
  assumes "true_to cf D net nd" and "nd_out nd = []" and "m \<in> net" and "m_to m = nd_id nd" and "m_from m \<noteq> kNoNode"
    and "step ops m nd r = Some (nd', r')"
  shows "true_to cf D net nd'"
proof (cases "m_type m = kRequestVote \<and> has_live_leader nd")
  case True
  then have "nd' = nd\<lparr>nd_lease_refusals := nd_lease_refusals nd + 1\<rparr>" using assms(6) by (simp add: step_def)
  then show ?thesis using true_to_quiet [OF assms(1), of nd'] by (simp add: quiet_fields)
next
  case False
  let ?hint = "if m_type m = kAppendEntries then m_from m else kNoNode"
  obtain nd1 r1 where nd1: "(if m_term m > nd_term nd then become_follower ops (m_term m) ?hint nd r else Some (nd, r)) = Some (nd1, r1)"
    and rest: "(if m_term m < nd_term nd1 then Some (reply_stale m nd1, r1) else handle ops m nd1 r1) = Some (nd', r')"
    using assms(6) False by (auto simp: step_def split: bind_splits)
  have t1: "true_to cf D net nd1" "nd_out nd1 = []" "nd_id nd1 = nd_id nd" "m_term m \<le> nd_term nd1"
  proof -
    have "true_to cf D net nd1 \<and> nd_out nd1 = [] \<and> nd_id nd1 = nd_id nd \<and> m_term m \<le> nd_term nd1"
    proof (cases "m_term m > nd_term nd")
      case True
      then have f: "become_follower ops (m_term m) ?hint nd r = Some (nd1, r1)" using nd1 by simp
      show ?thesis
        using true_to_follower [OF assms(1,2) f] become_follower_out [OF f] become_follower_term [OF f] assms(2) by simp
    next
      case False
      then show ?thesis using nd1 assms(1,2) by simp
    qed
    then show "true_to cf D net nd1" "nd_out nd1 = []" "nd_id nd1 = nd_id nd" "m_term m \<le> nd_term nd1" by simp_all
  qed
  show ?thesis
    using rest t1 true_to_quiet [OF t1(1) quiet_stale] true_to_handle [OF t1(1,2) assms(3) _ assms(5), of ops r1 nd' r'] assms(4)
    by (auto split: if_splits)
qed

end
