(* ===== verification/Raft_Cluster.thy ===== *)
theory Raft_Cluster
  imports Raft_Steps
begin

text \<open>
  A cluster of Raft nodes under the driver of \<^verbatim>\<open>server/broker.cpp\<close>, as a step relation. Each
  member has its node, the states of \<^verbatim>\<open>raft.state\<close> a restart may find, and its log on disk; a log
  is given by the batch each offset lies in. The network is the set of everything ever sent: a
  message may be delivered late, out of order, many times or never. A step is one input to one node
  followed by \<^verbatim>\<open>drive\<close>: log orders, then the term and the vote, then messages, of which any may
  fail to leave. A write of the state file that fails may or may not have reached the disk. Any node
  may lose power at any step and restart.

  The relation covers executions in which terms stay below \<open>2 ^ 32\<close>, the width of the epoch in a
  batch header, and in which a broker whose disk refused a log write is restarted before it handles
  anything else, as the comment in \<^verbatim>\<open>drive\<close> asks.
\<close>

section \<open>Quorums\<close>

text \<open>Any two quorums share a member, and a member chooses once: so two choices made by quorums are one.\<close>

locale quorum_system =
  fixes is_quorum :: "'v set \<Rightarrow> bool"
  assumes meet: "is_quorum Q \<Longrightarrow> is_quorum Q' \<Longrightarrow> Q \<inter> Q' \<noteq> {}"
begin

lemma one_choice:
  assumes "is_quorum Q" and "is_quorum Q'" and "\<And>v. v \<in> Q \<Longrightarrow> chose v c" and "\<And>v. v \<in> Q' \<Longrightarrow> chose v c'"
    and "\<And>v c c'. chose v c \<Longrightarrow> chose v c' \<Longrightarrow> c = c'"
  shows "c = c'"
  using meet [OF assms(1,2)] assms(3-5) by blast

end

definition majority :: "'v set \<Rightarrow> 'v set \<Rightarrow> bool" where
  "majority M Q \<longleftrightarrow> finite M \<and> Q \<subseteq> M \<and> card M < 2 * card Q"

lemma majority_meet:
  assumes "majority M Q" and "majority M Q'"
  shows "Q \<inter> Q' \<noteq> {}"
proof
  assume disj: "Q \<inter> Q' = {}"
  have fin: "finite M" "Q \<union> Q' \<subseteq> M" "finite Q" "finite Q'"
    using assms by (auto simp: majority_def intro: finite_subset)
  have "card Q + card Q' = card (Q \<union> Q')" using fin disj by (simp add: card_Un_disjoint)
  also have "\<dots> \<le> card M" using fin by (simp add: card_mono)
  finally show False using assms by (simp add: majority_def)
qed

interpretation maj: quorum_system "majority M"
  by unfold_locales (rule majority_meet)

section \<open>The cluster\<close>

text \<open>The batch an offset lies in: the term that wrote it, its first offset and the offset after its last.\<close>

type_synonym entry = "Term \<times> nat \<times> nat"

record Cluster =
  cl_node :: "NodeId \<Rightarrow> Node"
  cl_disk :: "NodeId \<Rightarrow> HardState set"
  cl_log :: "NodeId \<Rightarrow> entry list"
  cl_net :: "(Message \<times> entry option) set"
  cl_elected :: "(Term \<times> NodeId) set"
  cl_llog :: "Term \<Rightarrow> entry list"

text \<open>
  \<open>cl_elected\<close> remembers who ever led which term, and \<open>cl_llog\<close> the last log of the leader of
  each term.
\<close>

definition members_ok :: "NodeId set \<Rightarrow> (NodeId \<Rightarrow> Config) \<Rightarrow> bool" where
  "members_ok M cfg \<longleftrightarrow>
     finite M \<and> kNoNode \<notin> M \<and>
     (\<forall>i \<in> M. cfg_id (cfg i) = i \<and> distinct (cfg_peers (cfg i)) \<and> set (cfg_peers (cfg i)) = M - {i})"

text \<open>The epochs a restart reads off the log.\<close>

fun epochs_from :: "nat \<Rightarrow> Term option \<Rightarrow> entry list \<Rightarrow> Epoch list" where
  "epochs_from k last_term [] = []"
| "epochs_from k last_term (e # es) =
     (if last_term = Some (fst e) then epochs_from (Suc k) last_term es
      else \<lparr>ep_term = fst e, ep_start = of_nat k\<rparr> # epochs_from (Suc k) (Some (fst e)) es)"

definition boot :: "'r random_ops \<Rightarrow> Config \<Rightarrow> HardState \<Rightarrow> entry list \<Rightarrow> 'r \<Rightarrow> (Node \<times> 'r) option" where
  "boot ops config h L r =
     map_option (\<lambda>(nd, r). (restore_log (of_nat (length L)) (epochs_from 0 None L) nd, r)) (Node_new ops config h r)"

text \<open>A batch begins or the log ends at \<open>k\<close>.\<close>

definition boundary :: "entry list \<Rightarrow> nat \<Rightarrow> bool" where
  "boundary L k \<longleftrightarrow> k = length L \<or> k < length L \<and> fst (snd (L ! k)) = k"

definition write_batch :: "entry \<Rightarrow> entry list" where
  "write_batch e = replicate (snd (snd e) - fst (snd e)) e"

text \<open>The log orders of a \<open>Ready\<close>, with the batch that came with the message: \<open>None\<close> when storage refuses.\<close>

definition order_cut :: "Ready \<Rightarrow> entry list \<Rightarrow> entry list option" where
  "order_cut rd L =
     (if rd_truncate_from rd = kNoIndex then Some L
      else if boundary L (unat (rd_truncate_from rd)) then Some (take (unat (rd_truncate_from rd)) L) else None)"

definition order_write :: "Ready \<Rightarrow> entry option \<Rightarrow> entry list \<Rightarrow> entry list option" where
  "order_write rd att L =
     (if \<not> rd_append_entry rd then Some L
      else case att of
             None \<Rightarrow> None
           | Some e \<Rightarrow> if fst (snd e) = length L \<and> fst (snd e) < snd (snd e) then Some (L @ write_batch e) else None)"

definition orders :: "Ready \<Rightarrow> entry option \<Rightarrow> entry list \<Rightarrow> entry list option" where
  "orders rd att L = Option.bind (order_cut rd L) (order_write rd att)"

text \<open>The message as it leaves: one that names an entry carries the batch that begins there, and its extent.\<close>

definition outgoing :: "entry list \<Rightarrow> Message \<Rightarrow> (Message \<times> entry option) set" where
  "outgoing L m =
     (let k = unat (m_entry_index m)
      in if \<not> carries_entry m then {(m, None)}
         else if k < length L \<and> boundary L k then {(m\<lparr>m_entry_end := of_nat (snd (snd (L ! k)))\<rparr>, Some (L ! k))}
         else {})"

text \<open>One input: the node after it, the log with what a proposal appended, the batch that came with a message.\<close>

inductive input :: "'r random_ops \<Rightarrow> Cluster \<Rightarrow> NodeId \<Rightarrow> Node \<Rightarrow> entry list \<Rightarrow> entry option \<Rightarrow> bool"
  for ops :: "'r random_ops" and c :: Cluster and i :: NodeId
where
  tick: "tick ops (cl_node c i) r = Some (nd, r') \<Longrightarrow> input ops c i nd (cl_log c i) None"
| recv: "(m, att) \<in> cl_net c \<Longrightarrow> m_to m = i \<Longrightarrow> step ops m (cl_node c i) r = Some (nd, r') \<Longrightarrow>
    input ops c i nd (cl_log c i) att"
| propose: "nd_role (cl_node c i) = kLeader \<Longrightarrow> 0 < n \<Longrightarrow> length (cl_log c i) + n < 2 ^ 64 - 1 \<Longrightarrow>
    e = (nd_term (cl_node c i), length (cl_log c i), length (cl_log c i) + n) \<Longrightarrow>
    input ops c i (log_appended (of_nat (length (cl_log c i))) (of_nat (length (cl_log c i) + n)) (nd_term (cl_node c i)) (cl_node c i))
      (cl_log c i @ write_batch e) None"

definition elect :: "NodeId \<Rightarrow> Node \<Rightarrow> (Term \<times> NodeId) set \<Rightarrow> (Term \<times> NodeId) set" where
  "elect i nd E = (if nd_role nd = kLeader then insert (nd_term nd, i) E else E)"

definition lead :: "Node \<Rightarrow> entry list \<Rightarrow> (Term \<Rightarrow> entry list) \<Rightarrow> Term \<Rightarrow> entry list" where
  "lead nd L ll = (if nd_role nd = kLeader then ll(nd_term nd := L) else ll)"

definition put_node :: "NodeId \<Rightarrow> Node \<Rightarrow> HardState set \<Rightarrow> entry list \<Rightarrow> (Message \<times> entry option) set \<Rightarrow> Cluster \<Rightarrow> Cluster" where
  "put_node i nd D L S c =
     c\<lparr>cl_node := (cl_node c)(i := nd), cl_disk := (cl_disk c)(i := D), cl_log := (cl_log c)(i := L), cl_net := cl_net c \<union> S\<rparr>"

definition put_leader :: "NodeId \<Rightarrow> Node \<Rightarrow> entry list \<Rightarrow> Cluster \<Rightarrow> Cluster" where
  "put_leader i nd L c = c\<lparr>cl_elected := elect i nd (cl_elected c), cl_llog := lead nd L (cl_llog c)\<rparr>"

inductive cstep :: "'r random_ops \<Rightarrow> NodeId set \<Rightarrow> (NodeId \<Rightarrow> Config) \<Rightarrow> Cluster \<Rightarrow> Cluster \<Rightarrow> bool"
  for ops :: "'r random_ops" and M :: "NodeId set" and cfg :: "NodeId \<Rightarrow> Config" and c :: Cluster
where
  run: "i \<in> M \<Longrightarrow> unat (nd_term (cl_node c i)) + 1 < 2 ^ 32 \<Longrightarrow> input ops c i nd L att \<Longrightarrow> take_ready nd = (rd, nd1) \<Longrightarrow>
    orders rd att L = Some L' \<Longrightarrow>
    (nd2, D) = (if rd_persist_hard_state rd then (hard_state_persisted nd1, {rd_hard_state rd}) else (nd1, cl_disk c i)) \<Longrightarrow>
    S \<subseteq> \<Union> (outgoing L' ` set (rd_messages rd)) \<Longrightarrow>
    cstep ops M cfg c (put_leader i nd L' (put_node i nd2 D L' S c))"
| unsaved: "i \<in> M \<Longrightarrow> unat (nd_term (cl_node c i)) + 1 < 2 ^ 32 \<Longrightarrow> input ops c i nd L att \<Longrightarrow> take_ready nd = (rd, nd1) \<Longrightarrow>
    orders rd att L = Some L' \<Longrightarrow> rd_persist_hard_state rd \<Longrightarrow>
    cstep ops M cfg c (put_leader i nd L' (put_node i nd1 (insert (rd_hard_state rd) (cl_disk c i)) L' {} c))"
| interrupted: "i \<in> M \<Longrightarrow> unat (nd_term (cl_node c i)) + 1 < 2 ^ 32 \<Longrightarrow> input ops c i nd L att \<Longrightarrow> take_ready nd = (rd, nd1) \<Longrightarrow>
    L' = cl_log c i \<or> L' = L \<or> order_cut rd L = Some L' \<or> orders rd att L = Some L' \<Longrightarrow>
    h \<in> cl_disk c i \<Longrightarrow> boot ops (cfg i) h L' r = Some (nd2, r') \<Longrightarrow>
    cstep ops M cfg c (put_leader i nd L' (put_node i nd2 {h} L' {} c))"
| restart: "i \<in> M \<Longrightarrow> h \<in> cl_disk c i \<Longrightarrow> boot ops (cfg i) h (cl_log c i) r = Some (nd, r') \<Longrightarrow>
    cstep ops M cfg c (put_node i nd {h} (cl_log c i) {} c)"

definition initial :: "'r random_ops \<Rightarrow> NodeId set \<Rightarrow> (NodeId \<Rightarrow> Config) \<Rightarrow> Cluster \<Rightarrow> bool" where
  "initial ops M cfg c \<longleftrightarrow>
     (\<forall>i \<in> M. (\<exists>r r'. boot ops (cfg i) HardState_new [] r = Some (cl_node c i, r')) \<and>
        cl_disk c i = {HardState_new} \<and> cl_log c i = []) \<and>
     cl_net c = {} \<and> cl_elected c = {} \<and> cl_llog c = (\<lambda>_. [])"

inductive reachable :: "'r random_ops \<Rightarrow> NodeId set \<Rightarrow> (NodeId \<Rightarrow> Config) \<Rightarrow> Cluster \<Rightarrow> bool"
  for ops :: "'r random_ops" and M :: "NodeId set" and cfg :: "NodeId \<Rightarrow> Config"
where
  start: "initial ops M cfg c \<Longrightarrow> reachable ops M cfg c"
| after: "reachable ops M cfg c \<Longrightarrow> cstep ops M cfg c c' \<Longrightarrow> reachable ops M cfg c'"

inductive_cases input_cases: "input ops c i nd L att"
inductive_cases cstep_cases: "cstep ops M cfg c c'"

end
