(* ===== verification/Raft_Sample.thy ===== *)
theory Raft_Sample
  imports Raft_Cluster
begin

text \<open>
  A cluster of three whose first node wins an election: the run at which the theorems about reachable
  clusters are instantiated. Nothing here models code.
\<close>

definition sample_config :: "NodeId \<Rightarrow> Config" where
  "sample_config i = \<lparr>cfg_id = i, cfg_peers = filter (\<lambda>p. p \<noteq> i) [1, 2, 3], cfg_election_timeout_ticks = 1,
     cfg_election_timeout_jitter_ticks = 0, cfg_heartbeat_timeout_ticks = 1\<rparr>"

definition sample_node :: "NodeId \<Rightarrow> Node" where
  "sample_node i = (Node_init (sample_config i) HardState_new)\<lparr>nd_election_timeout := 1\<rparr>"

definition sample_cluster :: Cluster where
  "sample_cluster = \<lparr>cl_node = sample_node, cl_disk = (\<lambda>_. {HardState_new}), cl_log = (\<lambda>_. []), cl_net = {},
     cl_elected = {}, cl_llog = (\<lambda>_. [])\<rparr>"

text \<open>One input, every write and every message of which goes through.\<close>

definition drive_all :: "NodeId \<Rightarrow> Node \<Rightarrow> Cluster \<Rightarrow> Cluster" where
  "drive_all i nd c =
     put_leader i nd (cl_log c i)
       (put_node i (hard_state_persisted (snd (take_ready nd))) {nd_hard nd} (cl_log c i)
          ((\<lambda>m. (m, None)) ` set (nd_out nd)) c)"

lemma drive_all_step:
  assumes "i \<in> M" and "unat (nd_term (cl_node c i)) + 1 < 2 ^ 32" and "input ops c i nd (cl_log c i) att"
    and "nd_hard_state_dirty nd \<or> cl_disk c i = {nd_hard nd}"
    and "nd_pending_truncate nd = kNoIndex" and "\<not> nd_pending_append nd" and "\<forall>m \<in> set (nd_out nd). \<not> carries_entry m"
  shows "cstep ops M cfg c (drive_all i nd c)"
  unfolding drive_all_def
  by (rule cstep.run [OF assms(1-3), of "fst (take_ready nd)" "snd (take_ready nd)"])
    (use assms(4-7) in \<open>auto simp: take_ready_def orders_def order_cut_def order_write_def outgoing_def hard_state_persisted_def\<close>)

definition after_tick :: "NodeId \<Rightarrow> Cluster \<Rightarrow> Cluster" where
  "after_tick i c = drive_all i (fst (the (tick seeded_ops (cl_node c i) (reseed 0)))) c"

definition after_message :: "Message \<Rightarrow> Cluster \<Rightarrow> Cluster" where
  "after_message m c = drive_all (m_to m) (fst (the (step seeded_ops m (cl_node c (m_to m)) (reseed 0)))) c"

definition sample_request :: Message where
  "sample_request = Message_new\<lparr>m_type := kRequestVote, m_from := 1, m_to := 2, m_term := 1\<rparr>"

definition sample_grant :: Message where
  "sample_grant = Message_new\<lparr>m_type := kRequestVoteResponse, m_from := 2, m_to := 1, m_term := 1, m_granted := True\<rparr>"

lemmas sample_defs = after_tick_def after_message_def drive_all_def put_leader_def put_node_def elect_def lead_def
  take_ready_def hard_state_persisted_def sample_cluster_def sample_request_def sample_grant_def
  tick_def campaign_def become_candidate_def reset_election_timer_def request_votes_def step_def has_live_leader_def
  become_follower_def handle_def handle_request_vote_def log_is_up_to_date_def Node_reply_def
  handle_request_vote_response_def become_leader_def broadcast_heartbeat_def send_append_entries_def append_entries_for_def
  next_index_def carries_entry_def
  sample_node_def sample_config_def Node_init_def Let_def quorum_def cluster_size_def HardState_new_def
  Node_send_def Message_new_def kNoNode_def kNoTerm_def

lemma sample_initial: "initial seeded_ops {1, 2, 3} sample_config sample_cluster"
  by (simp add: initial_def boot_def Node_new_def restore_log_def refresh_last_term_def sample_defs)

lemma sample_request_step: "cstep seeded_ops {1, 2, 3} sample_config sample_cluster (after_tick 1 sample_cluster)"
  unfolding after_tick_def
  by (rule drive_all_step [OF _ _ input.tick]) (simp_all add: sample_defs)

lemma sample_vote_step:
  "cstep seeded_ops {1, 2, 3} sample_config (after_tick 1 sample_cluster) (after_message sample_request (after_tick 1 sample_cluster))"
  unfolding after_message_def [of sample_request]
  by (rule drive_all_step [OF _ _ input.recv [of sample_request None]]) (simp_all add: sample_defs)

lemma sample_win_step:
  "cstep seeded_ops {1, 2, 3} sample_config (after_message sample_request (after_tick 1 sample_cluster))
     (after_message sample_grant (after_message sample_request (after_tick 1 sample_cluster)))"
  unfolding after_message_def [of sample_grant]
  by (rule drive_all_step [OF _ _ input.recv [of sample_grant None]]) (simp_all add: sample_defs)

definition sample_led :: Cluster where
  "sample_led = after_message sample_grant (after_message sample_request (after_tick 1 sample_cluster))"

lemma sample_reachable: "reachable seeded_ops {1, 2, 3} sample_config sample_led"
  unfolding sample_led_def
  by (rule reachable.after [OF _ sample_win_step], rule reachable.after [OF _ sample_vote_step],
      rule reachable.after [OF _ sample_request_step], rule reachable.start [OF sample_initial])

lemma sample_members: "members_ok {1, 2, 3} sample_config"
  by (auto simp: members_ok_def sample_config_def kNoNode_def)

lemma sample_elected: "(1, 1) \<in> cl_elected sample_led"
  by (simp add: sample_led_def sample_defs)

end
