(* ===== verification/Raft_Election.thy ===== *)
theory Raft_Election
  imports Raft_Sample
begin

text \<open>
  Election safety: in every reachable state of the cluster, at most one node has ever led a term. The
  invariant says that each node is true to what is recorded and to what was sent, that a ballot on the
  network is recorded on the disk of its sender, and that whoever led a term was chosen by a majority.
\<close>

section \<open>The invariant\<close>

definition msgs :: "Cluster \<Rightarrow> Message set" where
  "msgs c = fst ` cl_net c"

definition ballots :: "Message set \<Rightarrow> (NodeId \<times> Term \<times> NodeId) set" where
  "ballots net = {b. \<exists>m \<in> net. ballot m = Some b}"

definition chosen :: "NodeId set \<Rightarrow> Message set \<Rightarrow> Term \<Rightarrow> NodeId \<Rightarrow> bool" where
  "chosen M net t i \<longleftrightarrow> M = {i} \<or> (\<exists>Q. majority M Q \<and> (\<forall>v \<in> Q. (v, t, i) \<in> ballots net))"

text \<open>A recorded state that honours a ballot: the vote itself, or a later term.\<close>

definition honours :: "HardState \<Rightarrow> Term \<Rightarrow> NodeId \<Rightarrow> bool" where
  "honours h t x \<longleftrightarrow> t < hs_term h \<or> t = hs_term h \<and> hs_voted_for h = x"

definition node_inv :: "(NodeId \<Rightarrow> Config) \<Rightarrow> Cluster \<Rightarrow> NodeId \<Rightarrow> bool" where
  "node_inv cfg c i \<longleftrightarrow>
     nd_out (cl_node c i) = [] \<and> cl_disk c i \<noteq> {} \<and> true_to (cfg i) (cl_disk c i) (msgs c) (cl_node c i) \<and>
     (nd_role (cl_node c i) = kLeader \<longrightarrow> (nd_term (cl_node c i), i) \<in> cl_elected c)"

definition ballot_inv :: "NodeId set \<Rightarrow> Cluster \<Rightarrow> bool" where
  "ballot_inv M c \<longleftrightarrow>
     (\<forall>m \<in> msgs c. m_from m \<in> M) \<and>
     (\<forall>v t x. (v, t, x) \<in> ballots (msgs c) \<longrightarrow> x \<noteq> kNoNode \<and> (\<forall>h \<in> cl_disk c v. honours h t x)) \<and>
     (\<forall>v t x y. (v, t, x) \<in> ballots (msgs c) \<longrightarrow> (v, t, y) \<in> ballots (msgs c) \<longrightarrow> x = y) \<and>
     (\<forall>m \<in> msgs c. \<forall>v i t. granted_to v i t m \<longrightarrow> (\<exists>m' \<in> msgs c. requested_by i t m'))"

definition vote_inv :: "NodeId set \<Rightarrow> (NodeId \<Rightarrow> Config) \<Rightarrow> Cluster \<Rightarrow> bool" where
  "vote_inv M cfg c \<longleftrightarrow>
     (\<forall>i \<in> M. node_inv cfg c i) \<and> ballot_inv M c \<and> (\<forall>(t, i) \<in> cl_elected c. i \<in> M \<and> chosen M (msgs c) t i)"

lemma honours_le: "honours h t x \<Longrightarrow> x \<noteq> kNoNode \<Longrightarrow> hs_le h h' \<Longrightarrow> honours h' t x"
  by (auto simp: honours_def hs_le_def)

lemma ballots_mono: "net \<subseteq> net' \<Longrightarrow> ballots net \<subseteq> ballots net'"
  by (auto simp: ballots_def)

lemma chosen_mono: "net \<subseteq> net' \<Longrightarrow> chosen M net t i \<Longrightarrow> chosen M net' t i"
  unfolding chosen_def using ballots_mono by blast

lemma true_to_mono: "true_to cf D net nd \<Longrightarrow> net \<subseteq> net' \<Longrightarrow> true_to cf D net' nd"
  by (simp add: true_to_def ballot_ok_def) blast

lemma ballotsI: "m \<in> net \<Longrightarrow> ballot m = Some b \<Longrightarrow> b \<in> ballots net"
  unfolding ballots_def by blast

lemma granted_ballot: "granted_to v i t m \<Longrightarrow> m \<in> net \<Longrightarrow> (v, t, i) \<in> ballots net"
  by (erule ballotsI) (simp add: granted_to_def ballot_def)

lemma requested_ballot: "requested_by i t m \<Longrightarrow> m \<in> net \<Longrightarrow> (i, t, i) \<in> ballots net"
  by (erule ballotsI) (simp add: requested_by_def ballot_def)

lemma vote_invD:
  assumes "vote_inv M cfg c"
  shows vote_inv_from: "m \<in> msgs c \<Longrightarrow> m_from m \<in> M"
    and vote_inv_honours: "(v, t, x) \<in> ballots (msgs c) \<Longrightarrow> h \<in> cl_disk c v \<Longrightarrow> honours h t x"
    and vote_inv_some: "(v, t, x) \<in> ballots (msgs c) \<Longrightarrow> x \<noteq> kNoNode"
    and vote_inv_unique: "(v, t, x) \<in> ballots (msgs c) \<Longrightarrow> (v, t, y) \<in> ballots (msgs c) \<Longrightarrow> x = y"
    and vote_inv_request: "m \<in> msgs c \<Longrightarrow> granted_to v i t m \<Longrightarrow> \<exists>m' \<in> msgs c. requested_by i t m'"
    and vote_inv_node: "i \<in> M \<Longrightarrow> node_inv cfg c i"
    and vote_inv_elected: "(t, i) \<in> cl_elected c \<Longrightarrow> i \<in> M \<and> chosen M (msgs c) t i"
  using assms unfolding vote_inv_def ballot_inv_def by blast+

section \<open>One input\<close>

lemma members_quorum:
  assumes "members_ok M cfg" and "i \<in> M"
  shows "quorum (cfg i) = card M div 2 + 1"
proof -
  have "length (cfg_peers (cfg i)) = card (M - {i})"
  proof -
    have "distinct (cfg_peers (cfg i))" "set (cfg_peers (cfg i)) = M - {i}"
      using assms by (simp_all add: members_ok_def)
    then show ?thesis using distinct_card by fastforce
  qed
  moreover have "card M = Suc (card (M - {i}))"
    using assms card.remove [of M i] unfolding members_ok_def by blast
  ultimately show ?thesis by (simp add: quorum_def cluster_size_def)
qed

lemma input_true_to:
  assumes "members_ok M cfg" and "vote_inv M cfg c" and "i \<in> M" and "unat (nd_term (cl_node c i)) + 1 < 2 ^ 32"
    and "input ops c i nd L att"
  shows "true_to (cfg i) (cl_disk c i) (msgs c) nd"
proof -
  have tr: "true_to (cfg i) (cl_disk c i) (msgs c) (cl_node c i)" and out: "nd_out (cl_node c i) = []"
    using assms(2,3) by (simp_all add: vote_inv_def node_inv_def)
  have id: "nd_id (cl_node c i) = i" using tr assms(1,3) by (simp add: true_to_def members_ok_def)
  from assms(5) show ?thesis
  proof cases
    case (tick r r')
    have "nd_term (cl_node c i) < nd_term (cl_node c i) + 1"
      using assms(4) by (simp add: word_less_nat_alt unat_word_ariths)
    then show ?thesis using true_to_tick [OF tr out _ tick(3)] by simp
  next
    case (recv m r r')
    have m: "m \<in> msgs c" using recv(2) by (force simp: msgs_def)
    moreover have "m_from m \<noteq> kNoNode"
      using assms(1,2) m by (auto simp: vote_inv_def ballot_inv_def members_ok_def)
    ultimately show ?thesis using true_to_step [OF tr out _ _ _ recv(4)] recv(3) id by simp
  next
    case (propose n e)
    then show ?thesis using true_to_quiet [OF tr quiet_log_appended] by simp
  qed
qed

lemma leader_chosen:
  assumes "members_ok M cfg" and "vote_inv M cfg c" and "i \<in> M" and "true_to (cfg i) (cl_disk c i) (msgs c) nd"
    and "nd_role nd = kLeader"
  shows "chosen M (msgs c) (nd_term nd) i"
proof -
  have id: "nd_id nd = i" and cf: "nd_config nd = cfg i" using assms(1,3,4) by (auto simp: true_to_def members_ok_def)
  have votes: "v = i \<or> (\<exists>m \<in> msgs c. granted_to v i (nd_term nd) m)" if "v \<in> nd_votes nd" for v
    using assms(4,5) that id by (auto simp: true_to_def)
  have from_M: "m_from m \<in> M" if "m \<in> msgs c" for m using assms(2) that by (simp add: vote_inv_def ballot_inv_def)
  have "v \<in> M" if "v \<in> nd_votes nd" for v
    using votes [OF that] from_M assms(3) by (auto simp: granted_to_def)
  then have sub: "nd_votes nd \<subseteq> M" by blast
  have fin: "finite M" using assms(1) by (simp add: members_ok_def)
  have "card M div 2 + 1 \<le> card (nd_votes nd)"
    using assms(4,5) cf members_quorum [OF assms(1,3)] by (simp add: true_to_def)
  then have q: "card M < 2 * card (nd_votes nd)" by simp
  show ?thesis
  proof (cases "nd_votes nd \<subseteq> {i}")
    case True
    then have "card (nd_votes nd) \<le> 1" using card_mono [of "{i}"] by force
    then have "card M \<le> 1" using q by simp
    then have "M = {i}" using assms(3) fin by (metis One_nat_def card_le_Suc0_iff_eq insertI1 is_singletonI' is_singleton_the_elem singletonD emptyE)
    then show ?thesis by (simp add: chosen_def)
  next
    case False
    then obtain v m where m: "m \<in> msgs c" "granted_to v i (nd_term nd) m" using votes by blast
    then obtain m' where "m' \<in> msgs c" "requested_by i (nd_term nd) m'"
      using assms(2) unfolding vote_inv_def ballot_inv_def by blast
    then have "(i, nd_term nd, i) \<in> ballots (msgs c)" using requested_ballot by blast
    then have "\<forall>v \<in> nd_votes nd. (v, nd_term nd, i) \<in> ballots (msgs c)" using votes granted_ballot by blast
    then show ?thesis using fin sub q by (auto simp: chosen_def majority_def)
  qed
qed

lemma input_disk:
  assumes "vote_inv M cfg c" and "i \<in> M" and "true_to (cfg i) (cl_disk c i) (msgs c) nd" and "(i, t, x) \<in> ballots (msgs c)"
  shows "honours (nd_hard nd) t x"
proof -
  obtain h where "h \<in> cl_disk c i" using assms(1,2) by (auto simp: vote_inv_def node_inv_def)
  moreover from this have "honours h t x" "x \<noteq> kNoNode" "hs_le h (nd_hard nd)"
    using assms(1,3,4) by (auto simp: vote_inv_def ballot_inv_def true_to_def)
  ultimately show ?thesis using honours_le by blast
qed

section \<open>The steps\<close>

text \<open>
  What a step leaves of node \<open>i\<close>: a node true to the states \<open>D\<close> on its disk, all of which are at least
  as new as what the ballots sent before record, and messages \<open>T\<close> that say what \<open>D\<close> records.
\<close>

lemma fresh_ballot:
  assumes "\<And>m. m \<in> T \<Longrightarrow> ballot_ok net nd m" and "(v, t, x) \<in> ballots T"
  shows "v = nd_id nd \<and> t = nd_term nd \<and> nd_voted_for nd = x \<and> x \<noteq> kNoNode"
proof -
  obtain m where m: "m \<in> T" "ballot m = Some (v, t, x)" using assms(2) unfolding ballots_def by blast
  have "v = m_from m" "t = m_term m" using m(2) by (auto simp: ballot_def split: MessageType.splits if_splits)
  then show ?thesis using assms(1) [OF m(1)] m(2) by (simp add: ballot_ok_def own_message_def)
qed

lemma ballots_Un: "ballots (net \<union> T) = ballots net \<union> ballots T"
  unfolding ballots_def by blast

lemma ballot_inv_step:
  assumes "vote_inv M cfg c" and "i \<in> M" and "nd_id nd = i" and "msgs c' = msgs c \<union> T" and "cl_disk c' = (cl_disk c)(i := D)"
    and hon: "\<And>h t x. h \<in> D \<Longrightarrow> (i, t, x) \<in> ballots (msgs c) \<Longrightarrow> honours h t x"
    and say: "\<And>m. m \<in> T \<Longrightarrow> ballot_ok (msgs c) nd m" and rec: "T \<noteq> {} \<Longrightarrow> D = {nd_hard nd}"
  shows "ballot_inv M c'"
proof -
  have fresh: "v = nd_id nd \<and> t = nd_term nd \<and> nd_voted_for nd = x \<and> x \<noteq> kNoNode" if "(v, t, x) \<in> ballots T" for v t x
    using say that by (rule fresh_ballot)
  have D: "D = {nd_hard nd}" if "b \<in> ballots T" for b using rec that by (auto simp: ballots_def)
  have split: "b \<in> ballots (msgs c') \<Longrightarrow> b \<in> ballots (msgs c) \<or> b \<in> ballots T" for b
    using assms(4) by (simp add: ballots_Un)
  have keep: "honours h t x" if "h \<in> cl_disk c' v" "(v, t, x) \<in> ballots (msgs c)" for h v t x
    using that hon vote_inv_honours [OF assms(1)] assms(5) by (cases "v = i") auto
  have new: "honours h t x" if "h \<in> cl_disk c' v" "(v, t, x) \<in> ballots T" for h v t x
    using that(1) fresh [OF that(2)] D [OF that(2)] assms(3,5) by (simp add: honours_def)
  have mixed: "x = y" if "(v, t, x) \<in> ballots T" "(v, t, y) \<in> ballots (msgs c)" for v t x y
  proof -
    note f = fresh [OF that(1)]
    then have "nd_hard nd \<in> cl_disk c' v" using D [OF that(1)] assms(3,5) by simp
    then have "honours (nd_hard nd) t y" using that(2) by (rule keep)
    then show ?thesis using f by (simp add: honours_def)
  qed
  have one: "x = y" if "(v, t, x) \<in> ballots (msgs c')" "(v, t, y) \<in> ballots (msgs c')" for v t x y
    using split [OF that(1)] split [OF that(2)] mixed [of v t x y] mixed [of v t y x] fresh [of v t x] fresh [of v t y]
      vote_inv_unique [OF assms(1), of v t x y] by metis
  have req: "\<exists>m' \<in> msgs c'. requested_by j t m'" if "m \<in> msgs c'" "granted_to v j t m" for m v j t
  proof (cases "m \<in> T")
    case True
    then show ?thesis using say [OF True] that(2) assms(4) unfolding ballot_ok_def by blast
  next
    case False
    then show ?thesis using vote_inv_request [OF assms(1) _ that(2)] that(1) assms(4) by blast
  qed
  have "m_from m \<in> M" if "m \<in> msgs c'" for m
    using that say [of m] assms(2-4) vote_inv_from [OF assms(1), of m] by (auto simp: ballot_ok_def own_message_def)
  moreover have "x \<noteq> kNoNode" if "(v, t, x) \<in> ballots (msgs c')" for v t x
    using split [OF that] fresh [of v t x] vote_inv_some [OF assms(1)] by blast
  moreover have "honours h t x" if "(v, t, x) \<in> ballots (msgs c')" "h \<in> cl_disk c' v" for v t x h
    using split [OF that(1)] keep [OF that(2)] new [OF that(2)] by blast
  ultimately show ?thesis unfolding ballot_inv_def using one req by (intro conjI ballI allI impI) simp_all
qed

lemma vote_inv_step:
  assumes "members_ok M cfg" and "vote_inv M cfg c" and "i \<in> M" and "true_to (cfg i) (cl_disk c i) (msgs c) nd"
    and "true_to (cfg i) D (msgs c) nd'" and "nd_out nd' = []" and "D \<noteq> {}"
    and "\<And>h t x. h \<in> D \<Longrightarrow> (i, t, x) \<in> ballots (msgs c) \<Longrightarrow> honours h t x"
    and "\<And>m. m \<in> fst ` S \<Longrightarrow> ballot_ok (msgs c) nd m" and "S \<noteq> {} \<Longrightarrow> D = {nd_hard nd}"
    and "nd_role nd' = kLeader \<Longrightarrow> nd_role nd = kLeader \<and> nd_term nd' = nd_term nd"
    and "E = elect i nd (cl_elected c) \<or> E = cl_elected c \<and> nd_role nd' \<noteq> kLeader"
    and "c' = (put_node i nd' D L S c)\<lparr>cl_elected := E, cl_llog := ll\<rparr>"
  shows "vote_inv M cfg c'"
proof -
  have net: "msgs c' = msgs c \<union> fst ` S" using assms(13) by (auto simp: put_node_def msgs_def)
  then have sub: "msgs c \<subseteq> msgs c'" by blast
  have disk: "cl_disk c' = (cl_disk c)(i := D)" and node: "cl_node c' = (cl_node c)(i := nd')" and el: "cl_elected c' = E"
    using assms(13) by (simp_all add: put_node_def)
  have id: "nd_id nd = i" using assms(1,3,4) by (auto simp: true_to_def members_ok_def)
  have "ballot_inv M c'"
    using assms(10) by (intro ballot_inv_step [OF assms(2,3) id net disk assms(8,9)]) simp_all
  moreover have "j \<in> M \<and> chosen M (msgs c') t j" if "(t, j) \<in> E" for t j
    using that assms(3,12) leader_chosen [OF assms(1-4)] chosen_mono [OF sub] vote_inv_elected [OF assms(2)]
    by (auto simp: elect_def split: if_splits)
  moreover have "node_inv cfg c' j" if "j \<in> M" for j
  proof (cases "j = i")
    case True
    then show ?thesis
      using assms(6,7,11,12) true_to_mono [OF assms(5) sub] disk node el by (auto simp: node_inv_def elect_def)
  next
    case False
    have "cl_elected c \<subseteq> E" using assms(12) by (auto simp: elect_def)
    moreover note vote_inv_node [OF assms(2) that]
    ultimately show ?thesis using False true_to_mono [OF _ sub] disk node el by (auto simp: node_inv_def)
  qed
  ultimately show ?thesis using el by (auto simp: vote_inv_def)
qed

lemma outgoing_ballot:
  assumes "(m, att) \<in> outgoing L x"
  shows "ballot_ok net nd m \<longleftrightarrow> ballot_ok net nd x"
proof -
  have "ballot_ok net nd (x\<lparr>m_entry_end := e\<rparr>) \<longleftrightarrow> ballot_ok net nd x" for e
    by (cases "m_type x") (simp_all add: ballot_ok_def own_message_def ballot_def granted_to_def)
  then show ?thesis using assms by (auto simp: outgoing_def Let_def split: if_splits)
qed

lemma boot_effect:
  assumes "boot ops cf h L r = Some (nd, r')"
  shows "nd_config nd = cf \<and> nd_hard nd = h \<and> \<not> nd_hard_state_dirty nd \<and> nd_role nd = kFollower \<and> nd_out nd = []"
proof -
  obtain nd0 where nd0: "Node_new ops cf h r = Some (nd0, r')" and nd: "nd = restore_log (of_nat (length L)) (epochs_from 0 None L) nd0"
    using assms by (auto simp: boot_def)
  have "quiet (Node_init cf h) nd0" using nd0 unfolding Node_new_def by (rule quiet_reset)
  moreover have "nd_out nd0 = []"
    using nd0 by (auto simp: Node_new_def reset_election_timer_def Node_init_def Let_def split: bind_splits if_splits)
  ultimately show ?thesis
    using quiet_restore [of nd0] nd by (simp add: quiet_def Node_init_def restore_log_def refresh_last_term_def Let_def)
qed

lemma boot_true: "boot ops cf h L r = Some (nd, r') \<Longrightarrow> cfg_id cf \<noteq> kNoNode \<Longrightarrow> true_to cf {h} net nd"
  by (drule boot_effect) (simp add: true_to_def)

lemma member_id: "members_ok M cfg \<Longrightarrow> i \<in> M \<Longrightarrow> cfg_id (cfg i) \<noteq> kNoNode"
  by (auto simp: members_ok_def)

lemma put_leader_put: "put_leader i nd L (put_node i nd' D L S c) =
    (put_node i nd' D L S c)\<lparr>cl_elected := elect i nd (cl_elected c), cl_llog := lead nd L (cl_llog c)\<rparr>"
  by (simp add: put_leader_def put_node_def)

lemma vote_inv_run:
  assumes "members_ok M cfg" and "vote_inv M cfg c" and "i \<in> M" and tr: "true_to (cfg i) (cl_disk c i) (msgs c) nd"
    and rd: "take_ready nd = (rd, nd1)"
    and nd2: "(nd2, D) = (if rd_persist_hard_state rd then (hard_state_persisted nd1, {rd_hard_state rd}) else (nd1, cl_disk c i))"
    and S: "S \<subseteq> \<Union> (outgoing L' ` set (rd_messages rd))"
  shows "vote_inv M cfg (put_leader i nd L' (put_node i nd2 D L' S c))"
proof (rule vote_inv_step [OF assms(1-4)])
  have D: "D = {nd_hard nd}" and f: "nd_config nd2 = nd_config nd" "nd_hard nd2 = nd_hard nd" "nd_role nd2 = nd_role nd"
      "nd_votes nd2 = nd_votes nd" "nd_out nd2 = []"
    using nd2 rd tr by (auto simp: take_ready_def hard_state_persisted_def true_to_def split: if_splits)
  show "true_to (cfg i) D (msgs c) nd2" using tr unfolding true_to_def D f by auto
  show "nd_out nd2 = []" "D \<noteq> {}" "D = {nd_hard nd}" using D f by simp_all
  show "honours h t x" if "h \<in> D" "(i, t, x) \<in> ballots (msgs c)" for h t x
    using that D input_disk [OF assms(2-4)] by simp
  show "ballot_ok (msgs c) nd m" if "m \<in> fst ` S" for m
    using that S rd true_to_out [OF tr] outgoing_ballot by (fastforce simp: take_ready_def)
  show "nd_role nd = kLeader \<and> nd_term nd2 = nd_term nd" if "nd_role nd2 = kLeader" using that f by simp
qed (auto simp: put_leader_put)

lemma vote_inv_unsaved:
  assumes "members_ok M cfg" and "vote_inv M cfg c" and "i \<in> M" and tr: "true_to (cfg i) (cl_disk c i) (msgs c) nd"
    and rd: "take_ready nd = (rd, nd1)" and dirty: "rd_persist_hard_state rd"
  shows "vote_inv M cfg (put_leader i nd L' (put_node i nd1 (insert (rd_hard_state rd) (cl_disk c i)) L' {} c))"
proof (rule vote_inv_step [OF assms(1-4)])
  have h: "rd_hard_state rd = nd_hard nd" and nd1: "nd1 = nd\<lparr>nd_out := [], nd_pending_truncate := kNoIndex, nd_pending_append := False\<rparr>"
      and d: "nd_hard_state_dirty nd"
    using rd dirty by (auto simp: take_ready_def)
  show "true_to (cfg i) (insert (rd_hard_state rd) (cl_disk c i)) (msgs c) nd1"
    using tr h d by (auto simp: true_to_def nd1)
  show "honours s t x" if "s \<in> insert (rd_hard_state rd) (cl_disk c i)" "(i, t, x) \<in> ballots (msgs c)" for s t x
    using that h input_disk [OF assms(2-4)] vote_inv_honours [OF assms(2)] by auto
  show "nd_role nd = kLeader \<and> nd_term nd1 = nd_term nd" if "nd_role nd1 = kLeader" using that nd1 by simp
  show "nd_out nd1 = []" using nd1 by simp
qed (auto simp: put_leader_put)

lemma vote_inv_boot:
  assumes "members_ok M cfg" and "vote_inv M cfg c" and "i \<in> M" and "true_to (cfg i) (cl_disk c i) (msgs c) nd"
    and "h \<in> cl_disk c i" and b: "boot ops (cfg i) h L' r = Some (nd2, r')"
    and "E = elect i nd (cl_elected c) \<or> E = cl_elected c"
  shows "vote_inv M cfg ((put_node i nd2 {h} L' {} c)\<lparr>cl_elected := E, cl_llog := ll\<rparr>)"
proof (rule vote_inv_step [OF assms(1-4)])
  show "true_to (cfg i) {h} (msgs c) nd2" by (rule boot_true [OF b member_id [OF assms(1,3)]])
  show "honours s t x" if "s \<in> {h}" "(i, t, x) \<in> ballots (msgs c)" for s t x
    using that assms(5) vote_inv_honours [OF assms(2)] by simp
qed (use boot_effect [OF b] assms(7) in auto)

lemma vote_inv_cstep:
  assumes "members_ok M cfg" and "vote_inv M cfg c" and "cstep ops M cfg c c'"
  shows "vote_inv M cfg c'"
  using assms(3)
proof cases
  case (run i nd L att rd nd1 L' nd2 D S)
  show ?thesis unfolding run(1)
    by (rule vote_inv_run [OF assms(1,2) run(2) input_true_to [OF assms(1,2) run(2-4)] run(5,7,8)])
next
  case (unsaved i nd L att rd nd1 L')
  show ?thesis unfolding unsaved(1)
    by (rule vote_inv_unsaved [OF assms(1,2) unsaved(2) input_true_to [OF assms(1,2) unsaved(2-4)] unsaved(5,7)])
next
  case (interrupted i nd L att rd nd1 L' h r nd2 r')
  show ?thesis unfolding interrupted(1) put_leader_put
    by (rule vote_inv_boot [OF assms(1,2) interrupted(2) input_true_to [OF assms(1,2) interrupted(2-4)] interrupted(7,8)]) simp
next
  case (restart i h r nd r')
  have "true_to (cfg i) (cl_disk c i) (msgs c) (cl_node c i)"
    using vote_inv_node [OF assms(2) restart(2)] by (simp add: node_inv_def)
  from vote_inv_boot [OF assms(1,2) restart(2) this restart(3,4), of "cl_elected c" "cl_llog c"]
  show ?thesis unfolding restart(1) by (simp add: put_node_def)
qed

lemma vote_inv_initial:
  assumes "members_ok M cfg" and "initial ops M cfg c"
  shows "vote_inv M cfg c"
proof -
  have "msgs c = {}" "cl_elected c = {}" using assms(2) by (simp_all add: initial_def msgs_def)
  moreover have "node_inv cfg c i" if "i \<in> M" for i
  proof -
    obtain r r' where "boot ops (cfg i) HardState_new [] r = Some (cl_node c i, r')" "cl_disk c i = {HardState_new}"
      using assms(2) \<open>i \<in> M\<close> unfolding initial_def by blast
    then show ?thesis
      using boot_effect boot_true member_id [OF assms(1) \<open>i \<in> M\<close>] by (fastforce simp: node_inv_def)
  qed
  ultimately show ?thesis by (simp add: vote_inv_def ballot_inv_def ballots_def)
qed

lemma vote_inv_reachable: "members_ok M cfg \<Longrightarrow> reachable ops M cfg c \<Longrightarrow> vote_inv M cfg c"
  by (rotate_tac 1, induction rule: reachable.induct) (auto intro: vote_inv_initial vote_inv_cstep)

lemma one_leader:
  assumes "vote_inv M cfg c" and "(t, i) \<in> cl_elected c" and "(t, j) \<in> cl_elected c"
  shows "i = j"
proof (cases "M = {i} \<or> M = {j}")
  case True
  then show ?thesis using vote_inv_elected [OF assms(1)] assms(2,3) by blast
next
  case False
  then obtain Q Q' where "majority M Q" "\<forall>v \<in> Q. (v, t, i) \<in> ballots (msgs c)" "majority M Q'" "\<forall>v \<in> Q'. (v, t, j) \<in> ballots (msgs c)"
    using vote_inv_elected [OF assms(1)] assms(2,3) unfolding chosen_def by blast
  then show ?thesis
    using maj.one_choice [of M Q Q' "\<lambda>v x. (v, t, x) \<in> ballots (msgs c)" i j] vote_inv_unique [OF assms(1)] by blast
qed

text \<open>C1. Election safety: whatever the network does to messages and wherever nodes lose power, no two
  nodes ever lead the same term, now or at different times; and a node that takes itself for a leader
  is one of those elected.\<close>

theorem election_safety:
  assumes "members_ok M cfg" and "reachable ops M cfg c"
  shows "(\<forall>t i j. (t, i) \<in> cl_elected c \<longrightarrow> (t, j) \<in> cl_elected c \<longrightarrow> i = j) \<and>
    (\<forall>i \<in> M. nd_role (cl_node c i) = kLeader \<longrightarrow> (nd_term (cl_node c i), i) \<in> cl_elected c)"
  using one_leader [OF vote_inv_reachable [OF assms]] vote_inv_node [OF vote_inv_reachable [OF assms]]
  by (auto simp: node_inv_def)

theorem election_safety_witness:
  "{j. (1, j) \<in> cl_elected sample_led} = {1}"
  using election_safety [OF sample_members sample_reachable] sample_elected by blast

end
