(* ===== verification/Raft_Divergence.thy ===== *)
theory Raft_Divergence
  imports Raft_Sample
begin

text \<open>
  A run of the cluster model in which two members disagree about a committed entry. A follower adopts
  the leader's commit index up to the end of its own log, even when the message confirmed only an
  earlier part of it. The run is computed: a script of moves is executed by \<open>play\<close>, and every move is
  shown to be a step of the cluster.
\<close>

section \<open>Scripts\<close>

datatype move = Tick NodeId | Recv nat | Propose NodeId

definition post :: "entry list \<Rightarrow> Message \<Rightarrow> (Message \<times> entry option) list" where
  "post L m =
     (let k = unat (m_entry_index m)
      in if \<not> carries_entry m then [(m, None)]
         else if k < length L \<and> boundary L k then [(m\<lparr>m_entry_end := of_nat (snd (snd (L ! k)))\<rparr>, Some (L ! k))]
         else [])"

text \<open>A cluster whose messages are kept in a list, the first sent first.\<close>

type_synonym board = "Cluster \<times> (Message \<times> entry option) list"

definition cluster_of :: "board \<Rightarrow> Cluster" where
  "cluster_of b = (fst b)\<lparr>cl_net := set (snd b)\<rparr>"

definition settle :: "NodeId \<Rightarrow> Node \<Rightarrow> entry list \<Rightarrow> entry option \<Rightarrow> board \<Rightarrow> board option" where
  "settle i nd L att b =
     (let (rd, nd1) = take_ready nd
      in case orders rd att L of
           None \<Rightarrow> None
         | Some L' \<Rightarrow>
             let (nd2, D) = (if rd_persist_hard_state rd then (hard_state_persisted nd1, {rd_hard_state rd}) else (nd1, cl_disk (fst b) i))
             in Some (put_leader i nd L' (put_node i nd2 D L' {} (fst b)), snd b @ concat (map (post L') (rd_messages rd))))"

fun play :: "move \<Rightarrow> board \<Rightarrow> board option" where
  "play (Tick i) b =
     (case tick seeded_ops (cl_node (fst b) i) (reseed 0) of
        None \<Rightarrow> None
      | Some (nd, _) \<Rightarrow> settle i nd (cl_log (fst b) i) None b)"
| "play (Recv n) b =
     (if n < length (snd b)
      then let (m, att) = snd b ! n
           in case step seeded_ops m (cl_node (fst b) (m_to m)) (reseed 0) of
                None \<Rightarrow> None
              | Some (nd, _) \<Rightarrow> settle (m_to m) nd (cl_log (fst b) (m_to m)) att b
      else None)"
| "play (Propose i) b =
     (let nd = cl_node (fst b) i; L = cl_log (fst b) i
      in if nd_role nd = kLeader
         then settle i (log_appended (of_nat (length L)) (of_nat (length L + 1)) (nd_term nd) nd) (L @ [(nd_term nd, length L, length L + 1)]) None b
         else None)"

definition divergence :: "move list" where
  "divergence =
     [Tick 1, Recv 0, Recv 2, Propose 1, Recv 5, Propose 1,
      Tick 2, Recv 9, Recv 10, Propose 2, Recv 14, Recv 15, Recv 16, Recv 17, Recv 18, Recv 19, Tick 2, Recv 21,
      Tick 3, Recv 24, Recv 25, Recv 26, Recv 28, Recv 29]"

section \<open>Every move is a step of the cluster\<close>

lemma set_post: "set (post L m) = outgoing L m"
  by (simp add: post_def outgoing_def Let_def)

lemma settle_step:
  assumes "settle i nd L att b = Some b'" and "input seeded_ops (cluster_of b) i nd L att" and "i \<in> M"
    and "unat (nd_term (cl_node (fst b) i)) + 1 < 2 ^ 32"
  shows "cstep seeded_ops M cfg (cluster_of b) (cluster_of b')"
proof -
  obtain rd nd1 where ready: "take_ready nd = (rd, nd1)" by force
  obtain L' where L': "orders rd att L = Some L'" using assms(1) ready by (auto simp: settle_def split: option.splits)
  obtain nd2 D where nd2: "(nd2, D) = (if rd_persist_hard_state rd then (hard_state_persisted nd1, {rd_hard_state rd}) else (nd1, cl_disk (fst b) i))"
    by (metis surj_pair)
  have "cluster_of b' = put_leader i nd L' (put_node i nd2 D L' (\<Union> (outgoing L' ` set (rd_messages rd))) (cluster_of b))"
    using assms(1) by (auto simp: settle_def ready L' nd2 [symmetric] cluster_of_def put_leader_def put_node_def set_post)
  then show ?thesis
    using cstep.run [OF assms(3) _ assms(2) ready L', of nd2 D "\<Union> (outgoing L' ` set (rd_messages rd))" cfg] assms(4) nd2
    by (simp add: cluster_of_def)
qed

text \<open>The term a node may be in before a move: that the terms stay small is checked along the way.\<close>

definition early :: "board \<Rightarrow> bool" where
  "early b \<longleftrightarrow> (\<forall>i \<in> {1, 2, 3}. unat (nd_term (cl_node (fst b) i)) < 100) \<and> (\<forall>i \<in> {1, 2, 3}. length (cl_log (fst b) i) < 100) \<and>
     (\<forall>(m, _) \<in> set (snd b). m_to m \<in> {1, 2, 3})"

fun move_ok :: "move \<Rightarrow> bool" where
  "move_ok (Tick i) = (i \<in> {1, 2, 3})"
| "move_ok (Recv n) = True"
| "move_ok (Propose i) = (i \<in> {1, 2, 3})"

lemma play_step:
  assumes "play mv b = Some b'" and "early b" and "move_ok mv"
  shows "cstep seeded_ops {1, 2, 3} cfg (cluster_of b) (cluster_of b')"
proof (cases mv)
  case (Tick i)
  then obtain nd r where t: "tick seeded_ops (cl_node (cluster_of b) i) (reseed 0) = Some (nd, r)"
    and s: "settle i nd (cl_log (cluster_of b) i) None b = Some b'"
    using assms(1) by (auto simp: cluster_of_def split: option.splits)
  show ?thesis by (rule settle_step [OF s input.tick [OF t]]) (use assms(2,3) Tick in \<open>auto simp: early_def\<close>)
next
  case (Recv n)
  obtain m att where m: "snd b ! n = (m, att)" by force
  then obtain nd r where n: "n < length (snd b)" and t: "step seeded_ops m (cl_node (cluster_of b) (m_to m)) (reseed 0) = Some (nd, r)"
    and s: "settle (m_to m) nd (cl_log (cluster_of b) (m_to m)) att b = Some b'"
    using assms(1) Recv by (auto simp: cluster_of_def split: option.splits if_splits)
  have sent: "(m, att) \<in> set (snd b)" using m n nth_mem by metis
  then have "(m, att) \<in> cl_net (cluster_of b)" by (simp add: cluster_of_def)
  from settle_step [OF s input.recv [OF this refl t]] show ?thesis using assms(2) sent by (auto simp: early_def)
next
  case (Propose i)
  let ?nd = "cl_node (cluster_of b) i" and ?L = "cl_log (cluster_of b) i"
  have lead: "nd_role ?nd = kLeader"
    and s: "settle i (log_appended (of_nat (length ?L)) (of_nat (length ?L + 1)) (nd_term ?nd) ?nd) (?L @ write_batch (nd_term ?nd, length ?L, length ?L + 1)) None b = Some b'"
    using assms(1) Propose by (auto simp: cluster_of_def write_batch_def Let_def split: if_splits)
  have i: "i \<in> {1, 2, 3}" using assms(3) Propose by simp
  then have "length ?L + 1 < 2 ^ 64 - 1" using assms(2) by (auto simp: early_def cluster_of_def)
  from settle_step [OF s input.propose [OF lead _ this refl] i] show ?thesis using assms(2) i by (auto simp: early_def)
qed

fun play_checked :: "move list \<Rightarrow> board \<Rightarrow> board option" where
  "play_checked [] b = Some b"
| "play_checked (mv # ms) b = (if early b \<and> move_ok mv then Option.bind (play mv b) (play_checked ms) else None)"

lemma play_reachable:
  "play_checked ms b = Some b' \<Longrightarrow> reachable seeded_ops {1, 2, 3} cfg (cluster_of b) \<Longrightarrow> reachable seeded_ops {1, 2, 3} cfg (cluster_of b')"
proof (induction ms b rule: play_checked.induct)
  case (2 mv ms b)
  then obtain c where "early b \<and> move_ok mv" "play mv b = Some c" "play_checked ms c = Some b'"
    by (auto simp: bind_eq_Some_conv split: if_splits)
  moreover from this have "reachable seeded_ops {1, 2, 3} cfg (cluster_of c)"
    using reachable.after [OF 2(3) play_step] by blast
  ultimately show ?case using 2(1) by blast
qed simp

lemmas play_defs = sample_defs settle_def post_def early_def orders_def order_cut_def order_write_def write_batch_def boundary_def
  log_appended_def append_epoch_def push_appended_def advance_commit_index_def quorum_end_def match_end_def term_at_def
  epoch_start_at_def handle_append_entries_def append_matches_def append_refused_def append_at_def entry_end_def drop_conflict_def
  take_entry_def adopt_commit_def append_accepted_def handle_append_entries_response_def reply_stale_def
  truncate_epochs_from_def pop_epochs.simps refresh_last_term_def upper_bound_def kNoIndex_def

lemma small_words: "\<not> (2 :: u64) \<le> 1" "\<not> (2 :: u64) < 1" "\<not> (3 :: u64) \<le> 1" "\<not> (3 :: u64) < 1"
  by (simp_all add: word_le_nat_alt word_less_nat_alt)

section \<open>Two committed entries at one index\<close>

lemma divergence_played:
  "\<exists>b. play_checked divergence (sample_cluster, []) = Some b \<and>
     nd_commit_index (cl_node (fst b) 1) = 2 \<and> nd_commit_index (cl_node (fst b) 3) = 2 \<and>
     fst (cl_log (fst b) 1 ! 1) = 1 \<and> fst (cl_log (fst b) 3 ! 1) = 2"
  by (simp add: play_defs partition_loop.simps divergence_def small_words)

text \<open>C12. Followers do not only commit what the leader committed. There is an execution of a cluster of three,
  with nothing worse than messages that arrive late or never, after which two members both hold entry 1
  below their commit index and the entry is not the same one: the first wrote it in term 1, the second
  in term 2. The member that is wrong was sent a duplicate of entry 0 with a commit index of 2, and
  \<^verbatim>\<open>handle_append_entries\<close> clamps that index to the end of its own log instead of the end of what the
  message confirmed.\<close>

theorem commit_of_unconfirmed_tail:
  "\<exists>c. reachable seeded_ops {1, 2, 3} sample_config c \<and>
     1 < nd_commit_index (cl_node c 1) \<and> 1 < nd_commit_index (cl_node c 3) \<and> fst (cl_log c 1 ! 1) \<noteq> fst (cl_log c 3 ! 1)"
proof -
  obtain b where b: "play_checked divergence (sample_cluster, []) = Some b" "nd_commit_index (cl_node (fst b) 1) = 2"
      "nd_commit_index (cl_node (fst b) 3) = 2" "fst (cl_log (fst b) 1 ! 1) = 1" "fst (cl_log (fst b) 3 ! 1) = 2"
    using divergence_played by blast
  have "cluster_of (sample_cluster, []) = sample_cluster" by (simp add: cluster_of_def sample_cluster_def)
  then have "reachable seeded_ops {1, 2, 3} sample_config (cluster_of b)"
    using play_reachable [OF b(1), of sample_config] reachable.start [OF sample_initial] by simp
  then show ?thesis using b by (intro exI [of _ "cluster_of b"]) (simp add: cluster_of_def)
qed

end
