(* ===== verification/Trace.thy ===== *)
theory Trace
  imports Base
begin

text \<open>
  \<^verbatim>\<open>src/src/sim/trace.h\<close> and \<^verbatim>\<open>trace.cpp\<close>: the event trace of the simulator,
  its rolling hash and its window of recent events. The lemmas show that the ring buffer keeps exactly
  the last events in order and that the hash never forgets a divergence.
\<close>

section \<open>Numbers as text\<close>

text \<open>\<^verbatim>\<open>std::to_string\<close> of an unsigned number.\<close>

definition digit_char :: "nat \<Rightarrow> char" where
  "digit_char d = char_of (48 + d)"

fun to_string :: "nat \<Rightarrow> string" where
  "to_string n = (if n < 10 then [digit_char n] else to_string (n div 10) @ [digit_char (n mod 10)])"

declare to_string.simps [simp del]

definition int_to_string :: "int \<Rightarrow> string" where
  "int_to_string i = (if i < 0 then ''-'' @ to_string (nat (- i)) else to_string (nat i))"

text \<open>\<^verbatim>\<open>%14lld\<close> and \<^verbatim>\<open>%-16s\<close>: padding on the left and on the right.\<close>

definition pad_left :: "nat \<Rightarrow> string \<Rightarrow> string" where
  "pad_left w s = replicate (w - length s) (CHR '' '') @ s"

definition pad_right :: "nat \<Rightarrow> string \<Rightarrow> string" where
  "pad_right w s = s @ replicate (w - length s) (CHR '' '')"

section \<open>Events (\<^verbatim>\<open>trace.h\<close>)\<close>

datatype EventKind =
    kTimer
  | kAppend | kFsync | kAck | kRecovered
  | kCrash | kRestart | kCorrupt
  | kConnect | kAccept | kSend | kDeliver | kReset | kDropped | kPartitionStart | kPartitionEnd
  | kCampaign | kVote | EventKind_kLeader | kStepDown | kRaftPersist | kRaftRecover
  | kReplicate | kTruncate | kCommit

fun EventKind_value :: "EventKind \<Rightarrow> u32" where
  "EventKind_value kTimer = 1"
| "EventKind_value kAppend = 10" | "EventKind_value kFsync = 11"
| "EventKind_value kAck = 12" | "EventKind_value kRecovered = 13"
| "EventKind_value kCrash = 20" | "EventKind_value kRestart = 21" | "EventKind_value kCorrupt = 22"
| "EventKind_value kConnect = 30" | "EventKind_value kAccept = 31" | "EventKind_value kSend = 32"
| "EventKind_value kDeliver = 33" | "EventKind_value kReset = 34" | "EventKind_value kDropped = 35"
| "EventKind_value kPartitionStart = 36" | "EventKind_value kPartitionEnd = 37"
| "EventKind_value kCampaign = 40" | "EventKind_value kVote = 41" | "EventKind_value EventKind_kLeader = 42"
| "EventKind_value kStepDown = 43" | "EventKind_value kRaftPersist = 44" | "EventKind_value kRaftRecover = 45"
| "EventKind_value kReplicate = 46" | "EventKind_value kTruncate = 47" | "EventKind_value kCommit = 48"

fun EventKind_to_string :: "EventKind \<Rightarrow> string" where
  "EventKind_to_string kTimer = ''TIMER''"
| "EventKind_to_string kAppend = ''APPEND''" | "EventKind_to_string kFsync = ''FSYNC''"
| "EventKind_to_string kAck = ''ACK''" | "EventKind_to_string kRecovered = ''RECOVERED''"
| "EventKind_to_string kCrash = ''CRASH''" | "EventKind_to_string kRestart = ''RESTART''"
| "EventKind_to_string kCorrupt = ''CORRUPT''"
| "EventKind_to_string kConnect = ''CONNECT''" | "EventKind_to_string kAccept = ''ACCEPT''"
| "EventKind_to_string kSend = ''SEND''" | "EventKind_to_string kDeliver = ''DELIVER''"
| "EventKind_to_string kReset = ''RESET''" | "EventKind_to_string kDropped = ''DROPPED''"
| "EventKind_to_string kPartitionStart = ''PARTITION_START''"
| "EventKind_to_string kPartitionEnd = ''PARTITION_END''"
| "EventKind_to_string kCampaign = ''CAMPAIGN''" | "EventKind_to_string kVote = ''VOTE''"
| "EventKind_to_string EventKind_kLeader = ''LEADER''" | "EventKind_to_string kStepDown = ''STEP_DOWN''"
| "EventKind_to_string kRaftPersist = ''RAFT_PERSIST''" | "EventKind_to_string kRaftRecover = ''RAFT_RECOVER''"
| "EventKind_to_string kReplicate = ''REPLICATE''" | "EventKind_to_string kTruncate = ''TRUNCATE''"
| "EventKind_to_string kCommit = ''COMMIT''"

record TraceEvent =
  te_time :: Nanos
  te_node :: u32
  te_kind :: EventKind
  te_a :: u64
  te_b :: u64

definition TraceEvent_new :: TraceEvent where
  "TraceEvent_new = \<lparr>te_time = 0, te_node = 0, te_kind = kTimer, te_a = 0, te_b = 0\<rparr>"

record Trace =
  tr_hash :: u64
  tr_count :: u64
  tr_recent :: "TraceEvent list"
  tr_next :: nat
  tr_wrapped :: bool
  tr_capture_all :: bool
  tr_all :: "TraceEvent list"

section \<open>Recording (\<^verbatim>\<open>trace.cpp\<close>)\<close>

definition kFnvOffsetBasis :: u64 where
  "kFnvOffsetBasis = 14695981039346656037"

definition kFnvPrime :: u64 where
  "kFnvPrime = 1099511628211"

definition mix :: "u64 \<Rightarrow> u64 \<Rightarrow> u64" where
  "mix hash value = fold (\<lambda>byte hash. (hash XOR (drop_bit (byte * 8) value AND 0xFF)) * kFnvPrime) [0..<8] hash"

definition Trace_new :: "nat \<Rightarrow> Trace" where
  "Trace_new recent_capacity =
     \<lparr>tr_hash = kFnvOffsetBasis, tr_count = 0,
      tr_recent = replicate (if recent_capacity = 0 then 1 else recent_capacity) TraceEvent_new,
      tr_next = 0, tr_wrapped = False, tr_capture_all = False, tr_all = []\<rparr>"

definition Trace_set_capture_all :: "bool \<Rightarrow> Trace \<Rightarrow> Trace" where
  "Trace_set_capture_all on t = t\<lparr>tr_capture_all := on\<rparr>"

text \<open>The five fields, one after the other.\<close>

definition hash_event :: "TraceEvent \<Rightarrow> u64 \<Rightarrow> u64" where
  "hash_event ev hash =
     (let hash = mix hash (te_time ev);
          hash = mix hash (ucast (te_node ev));
          hash = mix hash (ucast (EventKind_value (te_kind ev)));
          hash = mix hash (te_a ev)
      in mix hash (te_b ev))"

definition Trace_record :: "TraceEvent \<Rightarrow> Trace \<Rightarrow> Trace" where
  "Trace_record ev t =
     (let t = t\<lparr>tr_hash := hash_event ev (tr_hash t), tr_count := tr_count t + 1,
                tr_recent := (tr_recent t)[tr_next t := ev], tr_next := (tr_next t + 1) mod length (tr_recent t)\<rparr>;
          t = (if tr_next t = 0 then t\<lparr>tr_wrapped := True\<rparr> else t)
      in if tr_capture_all t then t\<lparr>tr_all := tr_all t @ [ev]\<rparr> else t)"

definition Trace_recent :: "Trace \<Rightarrow> TraceEvent list" where
  "Trace_recent t =
     (if \<not> tr_wrapped t then take (tr_next t) (tr_recent t)
      else map (\<lambda>i. tr_recent t ! ((tr_next t + i) mod length (tr_recent t))) [0..<length (tr_recent t)])"

text \<open>The longest line is shorter than the buffer it is printed to, so nothing is cut off.\<close>

definition Trace_format :: "TraceEvent \<Rightarrow> string" where
  "Trace_format ev =
     pad_left 14 (int_to_string (sint (te_time ev))) @ '' '' @
     pad_left 3 (to_string (unat (te_node ev))) @ '' '' @
     pad_right 16 (EventKind_to_string (te_kind ev)) @ '' '' @
     pad_left 20 (to_string (unat (te_a ev))) @ '' '' @
     pad_left 20 (to_string (unat (te_b ev)))"

section \<open>The window\<close>

text \<open>After \<open>evs\<close>: where the next event goes, and where each of the last ones is.\<close>

definition window_holds :: "TraceEvent list \<Rightarrow> Trace \<Rightarrow> bool" where
  "window_holds evs t \<longleftrightarrow>
     tr_recent t \<noteq> [] \<and> tr_next t = length evs mod length (tr_recent t) \<and>
     tr_wrapped t = (length (tr_recent t) \<le> length evs) \<and>
     (\<forall>j < length evs. length evs \<le> j + length (tr_recent t) \<longrightarrow> tr_recent t ! (j mod length (tr_recent t)) = evs ! j)"

lemma window_record:
  assumes "window_holds evs t"
  shows "window_holds (evs @ [ev]) (Trace_record ev t)"
proof -
  let ?c = "length (tr_recent t)" and ?k = "length evs"
  have c: "0 < ?c" and next_at: "tr_next t = ?k mod ?c" and wr: "tr_wrapped t = (?c \<le> ?k)"
    and held: "\<And>j. j < ?k \<Longrightarrow> ?k \<le> j + ?c \<Longrightarrow> tr_recent t ! (j mod ?c) = evs ! j"
    using assms by (auto simp: window_holds_def)
  have "(tr_recent t)[?k mod ?c := ev] ! (j mod ?c) = (evs @ [ev]) ! j" if j: "j < Suc ?k" "Suc ?k \<le> j + ?c" for j
  proof (cases "j = ?k")
    case False
    have "?k mod ?c \<noteq> j mod ?c"
    proof
      assume "?k mod ?c = j mod ?c"
      then have "?c dvd ?k - j" using j by (simp add: mod_eq_dvd_iff_nat)
      then show False using j False by (auto dest: dvd_imp_le)
    qed
    then show ?thesis using False j held [of j] by (simp add: nth_append)
  qed (use c in simp)
  moreover have "(?c \<le> ?k \<or> Suc (?k mod ?c) mod ?c = 0) = (?c \<le> Suc ?k)"
    using c by (auto simp: mod_Suc_eq not_le le_Suc_eq dest: dvd_imp_le)
  ultimately show ?thesis
    using c next_at wr
    by (auto simp: window_holds_def Trace_record_def Let_def mod_Suc_eq split: if_splits)
qed

lemma window_holds_fold: "window_holds evs' t \<Longrightarrow> window_holds (evs' @ evs) (fold Trace_record evs t)"
proof (induction evs arbitrary: evs' t)
  case (Cons ev evs)
  from Cons.IH [OF window_record [OF Cons.prems]] show ?case by simp
qed simp

lemma window_length: "length (tr_recent (Trace_record ev t)) = length (tr_recent t)"
  by (simp add: Trace_record_def Let_def)

lemma window_length_fold: "length (tr_recent (fold Trace_record evs t)) = length (tr_recent t)"
  by (induction evs arbitrary: t) (simp_all add: window_length)

lemma window_recent:
  assumes "window_holds evs t"
  shows "Trace_recent t = drop (length evs - length (tr_recent t)) evs"
proof (rule nth_equalityI)
  let ?c = "length (tr_recent t)" and ?k = "length evs"
  have c: "0 < ?c" and next_at: "tr_next t = ?k mod ?c" and wr: "tr_wrapped t = (?c \<le> ?k)"
    and held: "\<And>j. j < ?k \<Longrightarrow> ?k \<le> j + ?c \<Longrightarrow> tr_recent t ! (j mod ?c) = evs ! j"
    using assms by (auto simp: window_holds_def)
  show len: "length (Trace_recent t) = length (drop (?k - ?c) evs)"
    using c next_at wr by (auto simp: Trace_recent_def)
  fix i assume "i < length (Trace_recent t)"
  then have i: "i < length (drop (?k - ?c) evs)" by (simp add: len)
  show "Trace_recent t ! i = drop (?k - ?c) evs ! i"
  proof (cases "?c \<le> ?k")
    case True
    then have "(?k - ?c + i) mod ?c = (?k mod ?c + i) mod ?c"
      using le_mod_geq [of ?c "?k + i"] by (simp add: mod_add_left_eq)
    then show ?thesis using True i wr next_at held [of "?k - ?c + i"] by (simp add: Trace_recent_def)
  next
    case False
    then show ?thesis using i wr next_at held [of i] by (simp add: Trace_recent_def)
  qed
qed

section \<open>The hash\<close>

lemma prime_inverse: "kFnvPrime * 14886173955864302971 = 1"
  by (simp add: kFnvPrime_def)

lemma prime_inj: "a * kFnvPrime = b * kFnvPrime \<longleftrightarrow> a = b"
proof
  assume eq: "a * kFnvPrime = b * kFnvPrime"
  have "a = a * (kFnvPrime * 14886173955864302971)" by (simp only: prime_inverse mult_1_right)
  also have "\<dots> = b * (kFnvPrime * 14886173955864302971)" by (simp only: mult.assoc [symmetric] eq)
  also have "\<dots> = b" by (simp only: prime_inverse mult_1_right)
  finally show "a = b" .
qed simp

definition byte_of :: "nat \<Rightarrow> u64 \<Rightarrow> u64" where
  "byte_of i v = drop_bit (i * 8) v AND 0xFF"

definition mix_bytes :: "u64 \<Rightarrow> nat list \<Rightarrow> u64 \<Rightarrow> u64" where
  "mix_bytes v is h = fold (\<lambda>i h. (h XOR byte_of i v) * kFnvPrime) is h"

lemma mix_eq: "mix h v = mix_bytes v [0..<8] h"
  unfolding mix_def mix_bytes_def byte_of_def ..

lemma mix_bytes_inj: "mix_bytes v is h = mix_bytes v is h' \<longleftrightarrow> h = h'"
  unfolding mix_bytes_def by (induction "is" arbitrary: h h') (simp_all add: prime_inj xor_cancel_right)

lemma mix_inj: "mix h v = mix h' v \<longleftrightarrow> h = h'"
  by (simp only: mix_eq mix_bytes_inj)

lemma mix_bytes_cong: "(\<And>i. i \<in> set is \<Longrightarrow> byte_of i v = byte_of i v') \<Longrightarrow> mix_bytes v is h = mix_bytes v' is h"
  unfolding mix_bytes_def by (induction "is" arbitrary: h) simp_all

text \<open>Two numbers that differ in one of their eight bytes.\<close>

definition one_byte_apart :: "u64 \<Rightarrow> u64 \<Rightarrow> bool" where
  "one_byte_apart v v' \<longleftrightarrow>
     (\<exists>i < 8. byte_of i v \<noteq> byte_of i v' \<and> (\<forall>j < 8. j \<noteq> i \<longrightarrow> byte_of j v = byte_of j v'))"

lemma mix_one_byte:
  assumes "one_byte_apart v v'"
  shows "mix h v \<noteq> mix h v'"
proof -
  obtain i where i: "i < 8" "byte_of i v \<noteq> byte_of i v'" and rest: "\<And>j. j < 8 \<Longrightarrow> j \<noteq> i \<Longrightarrow> byte_of j v = byte_of j v'"
    using assms by (auto simp: one_byte_apart_def)
  have split: "[0..<8] = [0..<i] @ i # [Suc i..<8]"
    using i(1) upt_add_eq_append [of 0 i "8 - i"] upt_conv_Cons [of i 8] by simp
  let ?h = "mix_bytes v' [0..<i] h"
  have pre: "mix_bytes v [0..<i] h = ?h" by (rule mix_bytes_cong) (use i(1) rest in auto)
  have post: "mix_bytes v [Suc i..<8] x = mix_bytes v' [Suc i..<8] x" for x
    by (rule mix_bytes_cong) (use rest in auto)
  have "(?h XOR byte_of i v) * kFnvPrime \<noteq> (?h XOR byte_of i v') * kFnvPrime"
    using i(2) by (simp only: prime_inj xor_cancel_left not_False_eq_True)
  then have "mix_bytes v' [Suc i..<8] ((?h XOR byte_of i v) * kFnvPrime) \<noteq> mix_bytes v' [Suc i..<8] ((?h XOR byte_of i v') * kFnvPrime)"
    by (simp only: mix_bytes_inj not_False_eq_True)
  moreover have "mix h w = mix_bytes w [Suc i..<8] ((mix_bytes w [0..<i] h XOR byte_of i w) * kFnvPrime)" for w
    unfolding mix_eq split mix_bytes_def by simp
  ultimately show ?thesis by (simp only: pre post not_False_eq_True)
qed

lemma hash_event_inj: "hash_event ev h = hash_event ev h' \<longleftrightarrow> h = h'"
  by (simp add: hash_event_def Let_def mix_inj)

lemma hash_record: "tr_hash (Trace_record ev t) = hash_event ev (tr_hash t)"
  by (simp add: Trace_record_def Let_def)

lemma hash_fold: "tr_hash (fold Trace_record evs t) = fold hash_event evs (tr_hash t)"
  by (induction evs arbitrary: t) (simp_all add: hash_record)

lemma fold_hash_inj: "fold hash_event evs h = fold hash_event evs h' \<longleftrightarrow> h = h'"
  by (induction evs arbitrary: h h') (simp_all add: hash_event_inj)

lemma kinds_one_byte:
  assumes "k \<noteq> k'"
  shows "one_byte_apart (ucast (EventKind_value k)) (ucast (EventKind_value k'))"
proof -
  have "byte_of 0 (ucast (EventKind_value k)) \<noteq> byte_of 0 (ucast (EventKind_value k'))"
    using assms by (cases k; cases k'; simp add: byte_of_def)
  moreover have "byte_of j (ucast (EventKind_value k)) = 0" if "j < 8" "j \<noteq> 0" for j k
  proof -
    have "j \<in> {1, 2, 3, 4, 5, 6, 7}" using that by auto
    then show ?thesis by (cases k) (auto simp: byte_of_def)
  qed
  ultimately show ?thesis unfolding one_byte_apart_def by (intro exI [of _ 0]) auto
qed

text \<open>C39. The hash is a canary. If two runs record the same events but for one, and those two differ in
  their kind, or in one byte of one of the other four fields, then the hashes of the runs differ, however
  many events follow. And on any two traces, recording the same further events keeps equal hashes equal
  and different hashes different.\<close>

theorem trace_hash_canary:
  assumes "ev' = ev\<lparr>te_time := v\<rparr> \<and> one_byte_apart (te_time ev) v \<or>
    ev' = ev\<lparr>te_node := n\<rparr> \<and> one_byte_apart (ucast (te_node ev)) (ucast n) \<or>
    ev' = ev\<lparr>te_kind := k\<rparr> \<and> k \<noteq> te_kind ev \<or>
    ev' = ev\<lparr>te_a := v\<rparr> \<and> one_byte_apart (te_a ev) v \<or> ev' = ev\<lparr>te_b := v\<rparr> \<and> one_byte_apart (te_b ev) v"
  shows "tr_hash (fold Trace_record (evs @ ev # more_evs) (Trace_new cap)) \<noteq>
         tr_hash (fold Trace_record (evs @ ev' # more_evs) (Trace_new cap')) \<and>
         (tr_hash (fold Trace_record more_evs t) = tr_hash (fold Trace_record more_evs t') \<longleftrightarrow> tr_hash t = tr_hash t')"
proof
  let ?h = "fold hash_event evs kFnvOffsetBasis"
  have start: "tr_hash (Trace_new c) = kFnvOffsetBasis" for c by (simp add: Trace_new_def)
  have "hash_event ev ?h \<noteq> hash_event ev' ?h"
    using assms mix_one_byte [OF kinds_one_byte [of "te_kind ev" k]]
    by (auto simp: hash_event_def Let_def mix_inj dest: mix_one_byte)
  then show "tr_hash (fold Trace_record (evs @ ev # more_evs) (Trace_new cap)) \<noteq>
         tr_hash (fold Trace_record (evs @ ev' # more_evs) (Trace_new cap'))"
    by (simp add: hash_fold start fold_hash_inj hash_record)
qed (simp add: hash_fold fold_hash_inj)

theorem trace_hash_canary_witness:
  "tr_hash (Trace_record TraceEvent_new (Trace_new 64)) \<noteq> tr_hash (Trace_record (TraceEvent_new\<lparr>te_a := 256\<rparr>) (Trace_new 64)) \<and>
   tr_hash (Trace_record TraceEvent_new (Trace_new 64)) \<noteq> tr_hash (Trace_record (TraceEvent_new\<lparr>te_kind := kCrash\<rparr>) (Trace_new 64))"
proof
  have "byte_of j 0 = byte_of j 256" if "j < 8" "j \<noteq> 1" for j
  proof -
    have "j \<in> {0, 2, 3, 4, 5, 6, 7}" using that by auto
    then show ?thesis by (auto simp: byte_of_def)
  qed
  moreover have "byte_of 1 0 \<noteq> byte_of 1 256" by (simp add: byte_of_def)
  ultimately have "one_byte_apart 0 256"
    unfolding one_byte_apart_def by (intro exI [of _ 1]) auto
  then show "tr_hash (Trace_record TraceEvent_new (Trace_new 64)) \<noteq> tr_hash (Trace_record (TraceEvent_new\<lparr>te_a := 256\<rparr>) (Trace_new 64))"
    using trace_hash_canary [where ev' = "TraceEvent_new\<lparr>te_a := 256\<rparr>" and ev = TraceEvent_new and v = 256 and evs = "[]"
        and more_evs = "[]" and cap = 64 and cap' = 64]
    by (simp add: TraceEvent_new_def)
  show "tr_hash (Trace_record TraceEvent_new (Trace_new 64)) \<noteq> tr_hash (Trace_record (TraceEvent_new\<lparr>te_kind := kCrash\<rparr>) (Trace_new 64))"
    using trace_hash_canary [where ev' = "TraceEvent_new\<lparr>te_kind := kCrash\<rparr>" and ev = TraceEvent_new and k = kCrash and evs = "[]"
        and more_evs = "[]" and cap = 64 and cap' = 64]
    by (simp add: TraceEvent_new_def)
qed

text \<open>The window printed beside a violation: the last events, oldest first, as many as there is room for.\<close>

theorem trace_window:
  "Trace_recent (fold Trace_record evs (Trace_new n)) = drop (length evs - max 1 n) evs"
proof -
  have "window_holds [] (Trace_new n)" by (simp add: window_holds_def Trace_new_def)
  then have "window_holds evs (fold Trace_record evs (Trace_new n))" using window_holds_fold [of "[]"] by simp
  from window_recent [OF this] show ?thesis by (simp add: window_length_fold Trace_new_def max_def)
qed

end
