(* ===== verification/Heap_Queue.thy ===== *)
theory Heap_Queue
  imports Prelude
begin

text \<open>
  The queues kept with \<^verbatim>\<open>std::push_heap\<close> and \<^verbatim>\<open>std::pop_heap\<close>: the scheduler's events
  and the loop's timers. The code only ever looks at the front, the element that no other precedes, and
  its comparator is total, so the queue is modelled by its elements in the order they come to the front;
  how a heap lays them out is not visible. The locale states what the comparator must be for that, and
  proves once that pushing keeps the order.
\<close>

section \<open>The queue\<close>

text \<open>\<open>later a b\<close> is the comparator: \<open>a\<close> comes to the front after \<open>b\<close>.\<close>

fun push_heap :: "('a \<Rightarrow> 'a \<Rightarrow> bool) \<Rightarrow> 'a \<Rightarrow> 'a list \<Rightarrow> 'a list" where
  "push_heap later e [] = [e]"
| "push_heap later e (x # xs) = (if later x e then e # x # xs else x # push_heap later e xs)"

text \<open>\<^verbatim>\<open>std::make_heap\<close> over what is left of a queue: its elements pushed one after the other.\<close>

definition make_heap :: "('a \<Rightarrow> 'a \<Rightarrow> bool) \<Rightarrow> 'a list \<Rightarrow> 'a list" where
  "make_heap later xs = fold (push_heap later) xs []"

lemma set_push_heap [simp]: "set (push_heap later e xs) = insert e (set xs)"
  by (induction xs) auto

lemma length_push_heap [simp]: "length (push_heap later e xs) = Suc (length xs)"
  by (induction xs) auto

lemma distinct_push_heap: "distinct (map k (push_heap later e xs)) \<longleftrightarrow> k e \<notin> k ` set xs \<and> distinct (map k xs)"
  by (induction xs) auto

lemma filter_push_heap_other [simp]: "\<not> P e \<Longrightarrow> filter P (push_heap later e xs) = filter P xs"
  by (induction xs) auto

section \<open>The contract of a comparator\<close>

locale fire_order =
  fixes later :: "'a \<Rightarrow> 'a \<Rightarrow> bool" and ident :: "'a \<Rightarrow> 'k"
  assumes trans: "later c b \<Longrightarrow> later b a \<Longrightarrow> later c a"
    and irrefl: "\<not> later a a"
    and resolved: "ident a \<noteq> ident b \<Longrightarrow> later a b \<or> later b a"
begin

text \<open>In the order of firing, no two with the same identity.\<close>

definition in_order :: "'a list \<Rightarrow> bool" where
  "in_order xs \<longleftrightarrow> sorted_wrt (\<lambda>a b. later b a) xs"

lemma in_order_tl: "in_order (x # xs) \<Longrightarrow> in_order xs"
  by (simp add: in_order_def)

lemma front_first: "in_order (x # xs) \<Longrightarrow> y \<in> set xs \<Longrightarrow> later y x"
  by (simp add: in_order_def)

lemma push_in_order: "in_order xs \<Longrightarrow> ident e \<notin> ident ` set xs \<Longrightarrow> in_order (push_heap later e xs)"
proof (induction xs)
  case (Cons x xs)
  show ?case
  proof (cases "later x e")
    case True
    then show ?thesis using Cons.prems by (auto simp: in_order_def intro: trans)
  next
    case False
    then have "later e x" using Cons.prems(2) resolved [of e x] by auto
    then show ?thesis using Cons False by (auto simp: in_order_def)
  qed
qed (simp add: in_order_def)

lemma filter_in_order: "in_order xs \<Longrightarrow> in_order (filter P xs)"
  by (simp add: in_order_def sorted_wrt_filter)

lemma push_last: "in_order xs \<Longrightarrow> (\<And>x. x \<in> set xs \<Longrightarrow> \<not> later x e) \<Longrightarrow> push_heap later e xs = xs @ [e]"
  by (induction xs) (auto simp: in_order_def)

lemma filter_push_last:
  assumes "in_order xs" and "P e" and "\<And>x. x \<in> set xs \<Longrightarrow> P x \<Longrightarrow> \<not> later x e"
  shows "filter P (push_heap later e xs) = filter P xs @ [e]"
  using assms
proof (induction xs)
  case (Cons x xs)
  have "filter P (x # xs) = []" if "later x e"
    using Cons.prems that trans [OF front_first [OF Cons.prems(1)]] by (auto simp: filter_empty_conv)
  then show ?case using Cons in_order_tl [OF Cons.prems(1)] by auto
qed simp

lemma make_heap_in_order: "in_order xs \<Longrightarrow> make_heap later xs = xs"
proof -
  have "in_order (ys @ xs) \<Longrightarrow> fold (push_heap later) xs ys = ys @ xs" for ys
  proof (induction xs arbitrary: ys)
    case (Cons x xs)
    have "push_heap later x ys = ys @ [x]"
    proof (rule push_last)
      show "in_order ys" using Cons.prems by (simp add: in_order_def sorted_wrt_append)
      show "\<not> later y x" if "y \<in> set ys" for y
        using Cons.prems that trans [of x y x] irrefl by (auto simp: in_order_def sorted_wrt_append)
    qed
    then show ?case using Cons.IH [of "ys @ [x]"] Cons.prems by simp
  qed simp
  from this [of "[]"] show "in_order xs \<Longrightarrow> make_heap later xs = xs" by (simp add: make_heap_def)
qed

end

end
