(* ===== verification/Scheduler.thy ===== *)
theory Scheduler
  imports Trace Heap_Queue
begin

text \<open>
  \<^verbatim>\<open>src/src/sim/scheduler.h\<close>, \<^verbatim>\<open>scheduler.cpp\<close> and \<^verbatim>\<open>io/sim/sim_clock.h\<close>:
  virtual time, the queue of events and the clock a node reads. A callback is a value of the type \<open>'c\<close>;
  running the next event hands it to the owner of the scheduler, which holds the state it acts on. The
  theorems show that events fire in the order of their deadline and of their number, that time never
  goes back, and that a cancelled event never fires.
\<close>

section \<open>State\<close>

type_synonym EventId = u64

definition kInvalidEvent :: EventId where
  [consts_of]: "kInvalidEvent = 0"

record EventTag =
  et_kind :: EventKind
  et_node :: u32
  et_a :: u64
  et_b :: u64

record 'c Event =
  ev_when :: Nanos
  ev_id :: EventId
  ev_tag :: EventTag
  ev_callback :: "'c option"

record 'c Scheduler =
  sc_trace :: Trace
  sc_queue :: "'c Event list"
  sc_cancelled :: "EventId set"
  sc_now :: Nanos
  sc_next_id :: EventId
  sc_events_run :: u64

definition Event_LaterFirst :: "'c Event \<Rightarrow> 'c Event \<Rightarrow> bool" where
  "Event_LaterFirst a b = (if ev_when a \<noteq> ev_when b then sint (ev_when a) > sint (ev_when b) else ev_id a > ev_id b)"

definition Scheduler_new :: "Trace \<Rightarrow> 'c Scheduler" where
  "Scheduler_new trace =
     \<lparr>sc_trace = trace, sc_queue = [], sc_cancelled = {}, sc_now = 0, sc_next_id = 1, sc_events_run = 0\<rparr>"

section \<open>Operations (\<^verbatim>\<open>scheduler.cpp\<close>)\<close>

definition schedule_at :: "Nanos \<Rightarrow> EventTag \<Rightarrow> 'c option \<Rightarrow> 'c Scheduler \<Rightarrow> EventId \<times> 'c Scheduler" where
  "schedule_at when_at tag callback s =
     (let ev = \<lparr>ev_when = (if sint when_at < sint (sc_now s) then sc_now s else when_at), ev_id = sc_next_id s,
                ev_tag = tag, ev_callback = callback\<rparr>
      in (ev_id ev, s\<lparr>sc_next_id := sc_next_id s + 1, sc_queue := push_heap Event_LaterFirst ev (sc_queue s)\<rparr>))"

definition schedule_after :: "Nanos \<Rightarrow> EventTag \<Rightarrow> 'c option \<Rightarrow> 'c Scheduler \<Rightarrow> EventId \<times> 'c Scheduler" where
  "schedule_after delay tag callback s = schedule_at (sc_now s + (if sint delay < 0 then 0 else delay)) tag callback s"

definition Scheduler_cancel :: "EventId \<Rightarrow> 'c Scheduler \<Rightarrow> bool \<times> 'c Scheduler" where
  "Scheduler_cancel eid s =
     (if eid = kInvalidEvent then (False, s)
      else (eid \<notin> sc_cancelled s, s\<lparr>sc_cancelled := insert eid (sc_cancelled s)\<rparr>))"

definition Scheduler_record :: "EventTag \<Rightarrow> 'c Scheduler \<Rightarrow> 'c Scheduler" where
  "Scheduler_record tag s =
     s\<lparr>sc_trace := Trace_record \<lparr>te_time = sc_now s, te_node = et_node tag, te_kind = et_kind tag,
                                 te_a = et_a tag, te_b = et_b tag\<rparr> (sc_trace s)\<rparr>"

text \<open>The loop of \<^verbatim>\<open>drop_cancelled_from_top\<close>: the queue and the tombstones left.\<close>

fun drop_cancelled :: "'c Event list \<Rightarrow> EventId set \<Rightarrow> 'c Event list \<times> EventId set" where
  "drop_cancelled [] cancelled = ([], cancelled)"
| "drop_cancelled (ev # q) cancelled =
     (if ev_id ev \<notin> cancelled then (ev # q, cancelled) else drop_cancelled q (cancelled - {ev_id ev}))"

definition drop_cancelled_from_top :: "'c Scheduler \<Rightarrow> 'c Scheduler" where
  "drop_cancelled_from_top s =
     (let (q, cancelled) = drop_cancelled (sc_queue s) (sc_cancelled s) in s\<lparr>sc_queue := q, sc_cancelled := cancelled\<rparr>)"

definition Scheduler_next_deadline :: "'c Scheduler \<Rightarrow> Nanos \<times> 'c Scheduler" where
  "Scheduler_next_deadline s =
     (let s = drop_cancelled_from_top s in (case sc_queue s of [] \<Rightarrow> kNoTimeout | ev # _ \<Rightarrow> ev_when ev, s))"

definition Scheduler_empty :: "'c Scheduler \<Rightarrow> bool \<times> 'c Scheduler" where
  "Scheduler_empty s = (let s = drop_cancelled_from_top s in (sc_queue s = [], s))"

definition advance_to :: "Nanos \<Rightarrow> 'c Scheduler \<Rightarrow> 'c Scheduler" where
  "advance_to when_at s = (if sint when_at > sint (sc_now s) then s\<lparr>sc_now := when_at\<rparr> else s)"

text \<open>The event that runs, whose callback is the owner's to run next: \<open>None\<close> when there is none.\<close>

definition run_next_before :: "Nanos \<Rightarrow> 'c Scheduler \<Rightarrow> 'c Event option \<times> 'c Scheduler" where
  "run_next_before limit s =
     (let s = drop_cancelled_from_top s
      in case sc_queue s of
           [] \<Rightarrow> (None, s)
         | ev # q \<Rightarrow>
             if sint (ev_when ev) > sint limit then (None, s)
             else let s = advance_to (ev_when ev) (s\<lparr>sc_queue := q\<rparr>);
                      s = Scheduler_record (ev_tag ev) s
                  in (Some ev, s\<lparr>sc_events_run := sc_events_run s + 1\<rparr>))"

definition earlier_deadline :: "Nanos \<Rightarrow> Nanos \<Rightarrow> Nanos" where
  "earlier_deadline a b =
     (if a = kNoTimeout then b else if b = kNoTimeout then a else if sint a < sint b then a else b)"

section \<open>The clock of a node (\<^verbatim>\<open>sim_clock.h\<close>)\<close>

record SimClock =
  ck_boot_offset :: Nanos
  ck_wall_epoch_ms :: i64
  ck_wall_skew_ms :: i64

definition SimClock_new :: "Nanos \<Rightarrow> i64 \<Rightarrow> SimClock" where
  "SimClock_new boot_offset wall_epoch_ms =
     \<lparr>ck_boot_offset = boot_offset, ck_wall_epoch_ms = wall_epoch_ms, ck_wall_skew_ms = 0\<rparr>"

definition monotonic_now :: "'c Scheduler \<Rightarrow> SimClock \<Rightarrow> Nanos" where
  "monotonic_now s ck = sc_now s + ck_boot_offset ck"

text \<open>Division of signed numbers rounds toward zero.\<close>

definition sdiv_i64 :: "i64 \<Rightarrow> i64 \<Rightarrow> i64" where
  "sdiv_i64 a b = word_of_int (sgn (sint a) * sgn (sint b) * (\<bar>sint a\<bar> div \<bar>sint b\<bar>))"

definition wall_now_ms :: "'c Scheduler \<Rightarrow> SimClock \<Rightarrow> i64" where
  "wall_now_ms s ck = ck_wall_epoch_ms ck + ck_wall_skew_ms ck + sdiv_i64 (sc_now s) kNanosPerMilli"

definition jump_wall_clock :: "i64 \<Rightarrow> SimClock \<Rightarrow> SimClock" where
  "jump_wall_clock delta_ms ck = ck\<lparr>ck_wall_skew_ms := ck_wall_skew_ms ck + delta_ms\<rparr>"

section \<open>The order of events\<close>

lemma sint_resolved: "a \<noteq> b \<Longrightarrow> sint (a :: i64) < sint b \<or> sint b < sint a"
  using signed_word_eqI [of a b, where ?'a = int] by force

interpretation sched: fire_order Event_LaterFirst ev_id
proof unfold_locales
  show "ev_id a \<noteq> ev_id b \<Longrightarrow> Event_LaterFirst a b \<or> Event_LaterFirst b a" for a b :: "'a Event"
    using sint_resolved [of "ev_when a" "ev_when b"] by (auto simp: Event_LaterFirst_def)
qed (auto simp: Event_LaterFirst_def split: if_splits)

text \<open>What a scheduler has done: the events that fired, in order, and the numbers that were cancelled.\<close>

inductive history :: "Trace \<Rightarrow> 'c Event list \<Rightarrow> EventId set \<Rightarrow> 'c Scheduler \<Rightarrow> bool" for t :: Trace where
  fresh: "history t [] {} (Scheduler_new t)"
| schedule: "history t fired gone s \<Longrightarrow> sc_next_id s + 1 \<noteq> 0 \<Longrightarrow> history t fired gone (snd (schedule_at when_at tag cb s))"
| cancel: "history t fired gone s \<Longrightarrow> history t fired (insert eid gone) (snd (Scheduler_cancel eid s))"
| note_event: "history t fired gone s \<Longrightarrow> history t fired gone (Scheduler_record tag s)"
| peek: "history t fired gone s \<Longrightarrow> history t fired gone (drop_cancelled_from_top s)"
| advance: "history t fired gone s \<Longrightarrow> history t fired gone (advance_to when_at s)"
| fire: "history t fired gone s \<Longrightarrow> run_next_before limit s = (Some ev, s') \<Longrightarrow> history t (fired @ [ev]) gone s'"

definition history_ok :: "'c Event list \<Rightarrow> EventId set \<Rightarrow> 'c Scheduler \<Rightarrow> bool" where
  "history_ok fired gone s \<longleftrightarrow>
     sched.in_order (fired @ sc_queue s) \<and> distinct (map ev_id (sc_queue s)) \<and>
     (\<forall>ev \<in> set (fired @ sc_queue s). ev_id ev < sc_next_id s) \<and>
     (\<forall>ev \<in> set fired. sint (ev_when ev) \<le> sint (sc_now s)) \<and>
     (\<forall>eid \<in> gone - {kInvalidEvent}. eid \<in> sc_cancelled s \<or> eid < sc_next_id s \<and> eid \<notin> ev_id ` set (sc_queue s)) \<and>
     kInvalidEvent \<notin> ev_id ` set (sc_queue s) \<and> sc_next_id s \<noteq> 0"

lemma succ_less: "x + 1 \<noteq> 0 \<Longrightarrow> (x :: u64) < x + 1"
  using unatSuc [of x] by (simp add: word_less_nat_alt add.commute)

lemma push_after:
  "sched.in_order (xs @ ys) \<Longrightarrow> ev_id e \<notin> ev_id ` set ys \<Longrightarrow> (\<And>x. x \<in> set xs \<Longrightarrow> Event_LaterFirst e x) \<Longrightarrow>
   sched.in_order (xs @ push_heap Event_LaterFirst e ys)"
  using sched.push_in_order [of ys e] by (auto simp: sched.in_order_def sorted_wrt_append)

lemma history_schedule:
  assumes "history_ok fired gone s" and "sc_next_id s + 1 \<noteq> 0"
  shows "history_ok fired gone (snd (schedule_at when_at tag cb s))"
proof -
  let ?w = "if sint when_at < sint (sc_now s) then sc_now s else when_at"
  let ?e = "\<lparr>ev_when = ?w, ev_id = sc_next_id s, ev_tag = tag, ev_callback = cb\<rparr>"
  have lt: "sc_next_id s < sc_next_id s + 1" using assms(2) by (rule succ_less)
  have ids: "\<And>ev. ev \<in> set fired \<union> set (sc_queue s) \<Longrightarrow> ev_id ev < sc_next_id s" using assms(1) by (auto simp: history_ok_def)
  have new: "sc_next_id s \<notin> ev_id ` set (sc_queue s)" using ids by force
  have "Event_LaterFirst ?e f" if "f \<in> set fired" for f
  proof -
    have "sint (ev_when f) \<le> sint ?w" using assms(1) that by (auto simp: history_ok_def)
    then show ?thesis using ids [of f] that sint_resolved [of "ev_when f" ?w] by (auto simp: Event_LaterFirst_def)
  qed
  then have "sched.in_order (fired @ push_heap Event_LaterFirst ?e (sc_queue s))"
    using assms(1) new by (intro push_after) (auto simp: history_ok_def)
  moreover have "distinct (map ev_id (push_heap Event_LaterFirst ?e (sc_queue s)))"
    using assms(1) new by (auto simp: history_ok_def distinct_push_heap)
  moreover have "\<And>ev. ev \<in> set fired \<union> set (sc_queue s) \<Longrightarrow> ev_id ev < sc_next_id s + 1" using ids lt by force
  ultimately show ?thesis
    using assms lt by (auto simp: history_ok_def schedule_at_def Let_def kInvalidEvent_def)
qed

text \<open>Dropping tombstones: what is left begins with a live event, and every live event is left.\<close>

lemma drop_cancelled_spec:
  assumes "drop_cancelled q c = (q', c')" and "distinct (map ev_id q)"
  shows "\<exists>xs. q = xs @ q' \<and> (\<forall>x \<in> set xs. ev_id x \<in> c) \<and> c' = c - ev_id ` set xs \<and> (q' \<noteq> [] \<longrightarrow> ev_id (hd q') \<notin> c)"
  using assms
proof (induction q c rule: drop_cancelled.induct)
  case (2 ev q c)
  show ?case
  proof (cases "ev_id ev \<in> c")
    case True
    then obtain xs where "q = xs @ q'" "\<forall>x \<in> set xs. ev_id x \<in> c - {ev_id ev}" "c' = c - {ev_id ev} - ev_id ` set xs"
        "q' \<noteq> [] \<longrightarrow> ev_id (hd q') \<notin> c - {ev_id ev}"
      using 2 by auto
    moreover from this have "q' \<noteq> [] \<longrightarrow> ev_id (hd q') \<noteq> ev_id ev" using 2(3) by (auto simp: neq_Nil_conv)
    ultimately show ?thesis using True by (intro exI [of _ "ev # xs"]) auto
  next
    case False
    then show ?thesis using 2(2) by (intro exI [of _ "[]"]) auto
  qed
qed simp

lemma drop_top_spec:
  assumes "distinct (map ev_id (sc_queue s))"
  obtains xs where "sc_queue s = xs @ sc_queue (drop_cancelled_from_top s)" "\<forall>x \<in> set xs. ev_id x \<in> sc_cancelled s"
    "drop_cancelled_from_top s = s\<lparr>sc_queue := sc_queue (drop_cancelled_from_top s), sc_cancelled := sc_cancelled s - ev_id ` set xs\<rparr>"
    "sc_queue (drop_cancelled_from_top s) \<noteq> [] \<longrightarrow> ev_id (hd (sc_queue (drop_cancelled_from_top s))) \<notin> sc_cancelled s"
proof -
  obtain q c where d: "drop_cancelled (sc_queue s) (sc_cancelled s) = (q, c)" by force
  obtain xs where "sc_queue s = xs @ q" "\<forall>x \<in> set xs. ev_id x \<in> sc_cancelled s" "c = sc_cancelled s - ev_id ` set xs"
      "q \<noteq> [] \<longrightarrow> ev_id (hd q) \<notin> sc_cancelled s"
    using drop_cancelled_spec [OF d assms] by blast
  then show thesis using d by (intro that [of xs]) (simp_all add: drop_cancelled_from_top_def)
qed

lemma drop_top_now [simp]: "sc_now (drop_cancelled_from_top s) = sc_now s"
  by (simp add: drop_cancelled_from_top_def split: prod.split)

lemma history_peek:
  assumes "history_ok fired gone s"
  shows "history_ok fired gone (drop_cancelled_from_top s)"
proof -
  have d: "distinct (map ev_id (sc_queue s))" using assms by (simp add: history_ok_def)
  obtain xs where xs: "sc_queue s = xs @ sc_queue (drop_cancelled_from_top s)"
      "drop_cancelled_from_top s = s\<lparr>sc_queue := sc_queue (drop_cancelled_from_top s), sc_cancelled := sc_cancelled s - ev_id ` set xs\<rparr>"
    using drop_top_spec [OF d] by blast
  let ?q = "sc_queue (drop_cancelled_from_top s)"
  have sub: "sched.in_order (fired @ ?q)" using assms xs(1) by (auto simp: history_ok_def sched.in_order_def sorted_wrt_append)
  have "eid \<in> sc_cancelled s - ev_id ` set xs \<or> eid < sc_next_id s \<and> eid \<notin> ev_id ` set ?q" if "eid \<in> gone - {kInvalidEvent}" for eid
  proof (cases "eid \<in> ev_id ` set xs")
    case True
    then have "eid \<notin> ev_id ` set ?q" using d xs(1) by auto
    moreover have "eid < sc_next_id s" using True assms xs(1) by (auto simp: history_ok_def)
    ultimately show ?thesis by simp
  next
    case False
    then show ?thesis using assms xs(1) that by (fastforce simp: history_ok_def)
  qed
  then have "history_ok fired gone (s\<lparr>sc_queue := ?q, sc_cancelled := sc_cancelled s - ev_id ` set xs\<rparr>)"
    using assms sub xs(1) by (auto simp: history_ok_def)
  then show ?thesis using xs(2) by simp
qed

lemma history_fire:
  assumes "history_ok fired gone s" and "run_next_before limit s = (Some ev, s')"
  shows "history_ok (fired @ [ev]) gone s' \<and> ev_id ev \<notin> gone \<and> sint (ev_when ev) \<le> sint limit \<and>
    sint (sc_now s) \<le> sint (sc_now s')"
proof -
  let ?s = "drop_cancelled_from_top s"
  have d: "distinct (map ev_id (sc_queue s))" using assms(1) by (simp add: history_ok_def)
  obtain q where q: "sc_queue ?s = ev # q" and lim: "sint (ev_when ev) \<le> sint limit"
    and s': "s' = (Scheduler_record (ev_tag ev) (advance_to (ev_when ev) (?s\<lparr>sc_queue := q\<rparr>)))\<lparr>sc_events_run := sc_events_run ?s + 1\<rparr>"
    using assms(2) by (auto simp: run_next_before_def Let_def Scheduler_record_def advance_to_def split: list.splits if_splits)
  have live: "ev_id ev \<notin> sc_cancelled s"
    by (rule drop_top_spec [OF d]) (simp add: q)
  have ok: "history_ok fired gone ?s" by (rule history_peek [OF assms(1)])
  have "ev \<in> set (sc_queue s)" by (rule drop_top_spec [OF d]) (metis in_set_conv_decomp q Un_iff set_append)
  then have "ev_id ev \<notin> gone" using live assms(1) by (force simp: history_ok_def)
  moreover have "history_ok (fired @ [ev]) gone s'"
    using ok q unfolding s' by (auto simp: history_ok_def Scheduler_record_def advance_to_def)
  moreover have "sint (sc_now s) \<le> sint (sc_now s')"
    unfolding s' by (simp add: Scheduler_record_def advance_to_def)
  ultimately show ?thesis using lim by blast
qed

lemma history_holds: "history t fired gone s \<Longrightarrow> history_ok fired gone s"
proof (induction rule: history.induct)
  case fresh
  show ?case by (simp add: history_ok_def Scheduler_new_def sched.in_order_def)
next
  case (cancel fired gone s eid)
  then show ?case by (auto simp: history_ok_def Scheduler_cancel_def)
next
  case (note_event fired gone s tag)
  then show ?case by (simp add: history_ok_def Scheduler_record_def)
next
  case (advance fired gone s when_at)
  then show ?case by (auto simp: history_ok_def advance_to_def)
qed (simp_all add: history_schedule history_peek history_fire)

lemma none_due:
  assumes "history_ok fired gone s" and "run_next_before limit s = (None, s')" and "ev \<in> set (sc_queue s)" and "ev_id ev \<notin> sc_cancelled s"
  shows "sint limit < sint (ev_when ev)"
proof -
  let ?s = "drop_cancelled_from_top s"
  have d: "distinct (map ev_id (sc_queue s))" using assms(1) by (simp add: history_ok_def)
  have "ev \<in> set (sc_queue ?s)" by (rule drop_top_spec [OF d]) (metis Un_iff assms(3,4) set_append)
  then obtain x q where q: "sc_queue ?s = x # q" "ev \<in> set (x # q)" by (cases "sc_queue ?s") auto
  then have "sint limit < sint (ev_when x)"
    using assms(2) by (auto simp: run_next_before_def Let_def split: if_splits)
  moreover have "sched.in_order (x # q)"
    using history_peek [OF assms(1)] q(1) by (auto simp: history_ok_def sched.in_order_def sorted_wrt_append)
  then have "sint (ev_when x) \<le> sint (ev_when ev)"
    using q(2) by (auto simp: sched.in_order_def Event_LaterFirst_def split: if_splits)
  ultimately show ?thesis by linarith
qed

text \<open>C38. Whatever is scheduled, cancelled and run in whatever order, events fire in the strict order of
  deadline and then of number, each at most once; the next one to run comes after all those that ran,
  is due, and was never cancelled; virtual time does not go back; and when none is run, every live event
  is due later than the limit.\<close>

theorem scheduler_total_order:
  assumes "history t fired gone s"
  shows "sorted_wrt (\<lambda>a b. Event_LaterFirst b a) fired \<and>
    (case run_next_before limit s of
       (Some ev, s') \<Rightarrow>
         (\<forall>f \<in> set fired. Event_LaterFirst ev f) \<and> ev_id ev \<notin> gone \<and> sint (ev_when ev) \<le> sint limit \<and> sint (sc_now s) \<le> sint (sc_now s')
     | (None, s') \<Rightarrow>
         (\<forall>ev \<in> set (sc_queue s). ev_id ev \<in> sc_cancelled s \<or> sint limit < sint (ev_when ev)) \<and> sc_now s' = sc_now s)"
proof -
  note ok = history_holds [OF assms]
  have "sorted_wrt (\<lambda>a b. Event_LaterFirst b a) fired"
    using ok by (simp add: history_ok_def sched.in_order_def sorted_wrt_append)
  moreover have "\<forall>f \<in> set fired. Event_LaterFirst ev f" if "history_ok (fired @ [ev]) gone s'" for ev s'
    using that by (simp add: history_ok_def sched.in_order_def sorted_wrt_append)
  moreover have "sc_now s' = sc_now s" if "run_next_before limit s = (None, s')" for s'
    using that by (auto simp: run_next_before_def Let_def split: list.splits if_splits)
  ultimately show ?thesis
    using history_fire [OF ok, of limit] none_due [OF ok, of limit] by (fastforce split: prod.splits option.splits)
qed

definition sample_tag :: EventTag where
  "sample_tag = \<lparr>et_kind = kTimer, et_node = 0, et_a = 0, et_b = 0\<rparr>"

definition sample_scheduler :: "nat Scheduler" where
  "sample_scheduler = snd (schedule_at 5 sample_tag (Some 7) (snd (schedule_at 9 sample_tag (Some 8) (Scheduler_new (Trace_new 4)))))"

theorem scheduler_total_order_witness:
  "\<exists>ev s'. run_next_before 20 sample_scheduler = (Some ev, s') \<and> ev_when ev = 5 \<and> ev_id ev \<notin> {} \<and> sint (ev_when ev) \<le> sint (20 :: Nanos)"
proof -
  have h: "history (Trace_new 4) [] {} sample_scheduler"
    unfolding sample_scheduler_def
    by (rule history.schedule, rule history.schedule, rule history.fresh) (simp_all add: schedule_at_def Scheduler_new_def Let_def)
  obtain ev s' where run: "run_next_before 20 sample_scheduler = (Some ev, s')" "ev_when ev = 5"
    by (simp add: sample_scheduler_def schedule_at_def Scheduler_new_def Let_def Event_LaterFirst_def run_next_before_def
        drop_cancelled_from_top_def)
  then show ?thesis using scheduler_total_order [OF h, of 20] by auto
qed

end
