(* ===== verification/Sim_Network.thy ===== *)
theory Sim_Network
  imports Scheduler Io_Network Io_Random Buffer "HOL-Library.Product_Lexorder" "HOL-Library.Monad_Syntax"
begin

text \<open>
  \<^verbatim>\<open>src/src/io/sim/sim_network.h\<close> and \<^verbatim>\<open>sim_network.cpp\<close>: the wires between the
  simulated nodes. The fabric shares the scheduler and the generator with the rest of the simulator, so
  its operations act on the three together. A callback it gives the scheduler is a value of
  \<open>FabricCallback\<close>; the scheduler carries those of other owners beside them. The theorems show that a
  connection is a reliable byte stream: what is read on one side is a prefix of what was written on the
  other, in order and without a gap.
\<close>

section \<open>State (\<^verbatim>\<open>sim_network.h\<close>)\<close>

record NetworkFaultConfig =
  nf_min_latency :: Nanos
  nf_max_latency :: Nanos
  nf_partial_write_probability :: double
  nf_partition_reset_delay :: Nanos
  nf_send_window_bytes :: u32

record Endpoint =
  pt_node :: u32
  pt_listener :: bool
  pt_open :: bool
  pt_reset :: bool
  pt_hangup_delivered :: bool
  pt_peer_closed :: bool
  pt_port :: u16
  pt_peer :: ConnId
  pt_rx :: Buffer
  pt_in_flight :: u64
  pt_last_delivery :: Nanos
  pt_interest :: Interest
  pt_handler :: "ConnHandler option"
  pt_backlog :: "ConnId list"

definition Endpoint_new :: Endpoint where
  "Endpoint_new =
     \<lparr>pt_node = 0, pt_listener = False, pt_open = False, pt_reset = False, pt_hangup_delivered = False,
      pt_peer_closed = False, pt_port = 0, pt_peer = kInvalidConn, pt_rx = Buffer_new, pt_in_flight = 0,
      pt_last_delivery = 0, pt_interest = Interest_kNone, pt_handler = None, pt_backlog = []\<rparr>"

record Fabric =
  fb_config :: NetworkFaultConfig
  fb_endpoints :: "Endpoint list"
  fb_networks :: "u32 set"
  fb_node_endpoints :: "u32 \<rightharpoonup> ConnId list"
  fb_names :: "string \<rightharpoonup> u32"
  fb_listeners :: "u32 \<times> u16 \<rightharpoonup> ConnId"
  fb_cuts :: "(u32 \<times> u32) set"
  fb_next_ephemeral_port :: u16
  fb_bytes_delivered :: u64
  fb_bytes_dropped :: u64
  fb_connections_reset :: u64

definition Fabric_new :: "NetworkFaultConfig \<Rightarrow> Fabric" where
  "Fabric_new config =
     \<lparr>fb_config = config, fb_endpoints = [], fb_networks = {}, fb_node_endpoints = Map.empty, fb_names = Map.empty,
      fb_listeners = Map.empty, fb_cuts = {}, fb_next_ephemeral_port = 40000, fb_bytes_delivered = 0,
      fb_bytes_dropped = 0, fb_connections_reset = 0\<rparr>"

text \<open>What the fabric asks the scheduler to run: the three lambdas of the file.\<close>

datatype FabricCallback =
    PartitionResets u32 u32
  | AcceptArrived ConnId ConnId
  | Deliver ConnId ConnId bytes

record ('x, 'r) Wires =
  wr_fabric :: Fabric
  wr_sched :: "(FabricCallback + 'x) Scheduler"
  wr_rng :: 'r

definition wr_record :: "EventTag \<Rightarrow> ('x, 'r) Wires \<Rightarrow> ('x, 'r) Wires" where
  "wr_record tag w = w\<lparr>wr_sched := Scheduler_record tag (wr_sched w)\<rparr>"

section \<open>The fabric (\<^verbatim>\<open>sim_network.cpp\<close>)\<close>

definition add_node :: "u32 \<Rightarrow> string \<Rightarrow> Fabric \<Rightarrow> Fabric" where
  "add_node node name fb =
     fb\<lparr>fb_networks := insert node (fb_networks fb), fb_names := (fb_names fb)(name \<mapsto> node),
        fb_node_endpoints := (fb_node_endpoints fb)(node \<mapsto> (case fb_node_endpoints fb node of None \<Rightarrow> [] | Some ids \<Rightarrow> ids))\<rparr>"

definition endpoint :: "ConnId \<Rightarrow> Fabric \<Rightarrow> Endpoint option" where
  "endpoint conn fb =
     (if conn = kInvalidConn \<or> unat conn \<ge> length (fb_endpoints fb) then None else Some (fb_endpoints fb ! unat conn))"

definition put_endpoint :: "ConnId \<Rightarrow> Endpoint \<Rightarrow> Fabric \<Rightarrow> Fabric" where
  "put_endpoint conn pt fb = fb\<lparr>fb_endpoints := (fb_endpoints fb)[unat conn := pt]\<rparr>"

definition new_endpoint :: "u32 \<Rightarrow> Fabric \<Rightarrow> ConnId \<times> Fabric" where
  "new_endpoint node fb =
     (let conn = of_nat (length (fb_endpoints fb));
          ids = (case fb_node_endpoints fb node of None \<Rightarrow> [] | Some ids \<Rightarrow> ids)
      in (conn, fb\<lparr>fb_endpoints := fb_endpoints fb @ [Endpoint_new\<lparr>pt_node := node, pt_open := True\<rparr>],
                   fb_node_endpoints := (fb_node_endpoints fb)(node \<mapsto> ids @ [conn])\<rparr>))"

definition draw_latency :: "'r random_ops \<Rightarrow> ('x, 'r) Wires \<Rightarrow> (Nanos \<times> ('x, 'r) Wires) option" where
  "draw_latency rops w = do {
     (latency, r) \<leftarrow> next_in_range rops (nf_min_latency (fb_config (wr_fabric w))) (nf_max_latency (fb_config (wr_fabric w))) (wr_rng w);
     Some (latency, w\<lparr>wr_rng := r\<rparr>)
   }"

definition is_cut :: "u32 \<Rightarrow> u32 \<Rightarrow> Fabric \<Rightarrow> bool" where
  "is_cut from_node to_node fb \<longleftrightarrow> (from_node, to_node) \<in> fb_cuts fb"

definition schedule_partition_resets :: "u32 \<Rightarrow> u32 \<Rightarrow> ('x, 'r) Wires \<Rightarrow> ('x, 'r) Wires" where
  "schedule_partition_resets from_node to_node w =
     w\<lparr>wr_sched := snd (schedule_after (nf_partition_reset_delay (fb_config (wr_fabric w)))
        \<lparr>et_kind = kReset, et_node = from_node, et_a = ucast to_node, et_b = 0\<rparr>
        (Some (Inl (PartitionResets from_node to_node))) (wr_sched w))\<rparr>"

definition Fabric_cut :: "u32 \<Rightarrow> u32 \<Rightarrow> ('x, 'r) Wires \<Rightarrow> ('x, 'r) Wires" where
  "Fabric_cut from_node to_node w =
     (if from_node = to_node then w
      else if (from_node, to_node) \<in> fb_cuts (wr_fabric w) then w
      else schedule_partition_resets from_node to_node
             (wr_record \<lparr>et_kind = kPartitionStart, et_node = from_node, et_a = ucast to_node, et_b = 0\<rparr>
                (w\<lparr>wr_fabric := (wr_fabric w)\<lparr>fb_cuts := insert (from_node, to_node) (fb_cuts (wr_fabric w))\<rparr>\<rparr>)))"

definition Fabric_heal :: "u32 \<Rightarrow> u32 \<Rightarrow> ('x, 'r) Wires \<Rightarrow> ('x, 'r) Wires" where
  "Fabric_heal from_node to_node w =
     (if (from_node, to_node) \<notin> fb_cuts (wr_fabric w) then w
      else wr_record \<lparr>et_kind = kPartitionEnd, et_node = from_node, et_a = ucast to_node, et_b = 0\<rparr>
             (w\<lparr>wr_fabric := (wr_fabric w)\<lparr>fb_cuts := fb_cuts (wr_fabric w) - {(from_node, to_node)}\<rparr>\<rparr>))"

definition cut_both :: "u32 \<Rightarrow> u32 \<Rightarrow> ('x, 'r) Wires \<Rightarrow> ('x, 'r) Wires" where
  "cut_both a b w = Fabric_cut b a (Fabric_cut a b w)"

definition heal_both :: "u32 \<Rightarrow> u32 \<Rightarrow> ('x, 'r) Wires \<Rightarrow> ('x, 'r) Wires" where
  "heal_both a b w = Fabric_heal b a (Fabric_heal a b w)"

definition heal_all :: "('x, 'r) Wires \<Rightarrow> ('x, 'r) Wires" where
  "heal_all w = fold (\<lambda>(from_node, to_node). Fabric_heal from_node to_node) (sorted_list_of_set (fb_cuts (wr_fabric w))) w"

text \<open>\<^verbatim>\<open>reset_connection(id, false)\<close>, and the function itself, which may also reset the peer.\<close>

definition reset_quietly :: "ConnId \<Rightarrow> ('x, 'r) Wires \<Rightarrow> ('x, 'r) Wires" where
  "reset_quietly conn w =
     (case endpoint conn (wr_fabric w) of
        None \<Rightarrow> w
      | Some pt \<Rightarrow>
          if pt_reset pt then w
          else wr_record \<lparr>et_kind = kReset, et_node = pt_node pt, et_a = conn, et_b = 0\<rparr>
                 (w\<lparr>wr_fabric := (put_endpoint conn (pt\<lparr>pt_reset := True, pt_open := False\<rparr>) (wr_fabric w))
                                  \<lparr>fb_connections_reset := fb_connections_reset (wr_fabric w) + 1\<rparr>\<rparr>))"

definition reset_connection :: "ConnId \<Rightarrow> bool \<Rightarrow> ('x, 'r) Wires \<Rightarrow> ('x, 'r) Wires" where
  "reset_connection conn notify_peer w =
     (case endpoint conn (wr_fabric w) of
        None \<Rightarrow> w
      | Some pt \<Rightarrow>
          if pt_reset pt then w
          else let w = reset_quietly conn w
               in if notify_peer \<and> pt_peer pt \<noteq> kInvalidConn then reset_quietly (pt_peer pt) w else w)"

definition kill_endpoint :: "u32 \<Rightarrow> ConnId \<Rightarrow> ('x, 'r) Wires \<Rightarrow> ('x, 'r) Wires" where
  "kill_endpoint node conn w =
     (case endpoint conn (wr_fabric w) of
        None \<Rightarrow> w
      | Some pt \<Rightarrow>
          if pt_listener pt
          then w\<lparr>wr_fabric := (put_endpoint conn (pt\<lparr>pt_open := False, pt_backlog := []\<rparr>) (wr_fabric w))
                                \<lparr>fb_listeners := (fb_listeners (wr_fabric w))((node, pt_port pt) := None)\<rparr>\<rparr>
          else reset_connection conn True w)"

definition forget_handler :: "ConnId \<Rightarrow> Fabric \<Rightarrow> Fabric" where
  "forget_handler conn fb =
     (case endpoint conn fb of
        None \<Rightarrow> fb
      | Some pt \<Rightarrow> put_endpoint conn (pt\<lparr>pt_handler := None, pt_interest := Interest_kNone\<rparr>) fb)"

definition kill_node_connections :: "u32 \<Rightarrow> ('x, 'r) Wires \<Rightarrow> ('x, 'r) Wires" where
  "kill_node_connections node w =
     (case fb_node_endpoints (wr_fabric w) node of
        None \<Rightarrow> w
      | Some ids \<Rightarrow>
          let w = fold (kill_endpoint node) ids w;
              fb = fold forget_handler ids (wr_fabric w)
          in w\<lparr>wr_fabric := fb\<lparr>fb_node_endpoints := (fb_node_endpoints fb)(node \<mapsto> [])\<rparr>\<rparr>)"

definition Fabric_deliver :: "ConnId \<Rightarrow> ConnId \<Rightarrow> bytes \<Rightarrow> Fabric \<Rightarrow> Fabric" where
  "Fabric_deliver from_conn to_conn payload fb =
     (let sz = of_nat (length payload);
          fb = (case endpoint from_conn fb of
                  None \<Rightarrow> fb
                | Some src \<Rightarrow>
                    put_endpoint from_conn
                      (src\<lparr>pt_in_flight := pt_in_flight src - (if pt_in_flight src < sz then pt_in_flight src else sz)\<rparr>) fb)
      in case endpoint to_conn fb of
           None \<Rightarrow> fb\<lparr>fb_bytes_dropped := fb_bytes_dropped fb + sz\<rparr>
         | Some dst \<Rightarrow>
             if pt_reset dst \<or> \<not> pt_open dst then fb\<lparr>fb_bytes_dropped := fb_bytes_dropped fb + sz\<rparr>
             else (put_endpoint to_conn (dst\<lparr>pt_rx := Buffer_append payload (pt_rx dst)\<rparr>) fb)
                    \<lparr>fb_bytes_delivered := fb_bytes_delivered fb + sz\<rparr>)"

text \<open>The loop of the lambda in \<^verbatim>\<open>schedule_partition_resets\<close>.\<close>

definition partition_reset_one :: "u32 \<Rightarrow> ConnId \<Rightarrow> ('x, 'r) Wires \<Rightarrow> ('x, 'r) Wires" where
  "partition_reset_one to_node conn w =
     (case endpoint conn (wr_fabric w) of
        None \<Rightarrow> w
      | Some pt \<Rightarrow>
          if pt_listener pt \<or> pt_reset pt then w
          else (case endpoint (pt_peer pt) (wr_fabric w) of
                  None \<Rightarrow> w
                | Some peer \<Rightarrow> if pt_node peer \<noteq> to_node then w else reset_connection conn True w))"

definition partition_resets :: "u32 \<Rightarrow> u32 \<Rightarrow> ('x, 'r) Wires \<Rightarrow> ('x, 'r) Wires" where
  "partition_resets from_node to_node w =
     (if \<not> is_cut from_node to_node (wr_fabric w) then w
      else case fb_node_endpoints (wr_fabric w) from_node of
             None \<Rightarrow> w
           | Some ids \<Rightarrow> fold (partition_reset_one to_node) ids w)"

text \<open>The lambda in \<^verbatim>\<open>connect\<close>.\<close>

definition accept_arrived :: "ConnId \<Rightarrow> ConnId \<Rightarrow> ('x, 'r) Wires \<Rightarrow> ('x, 'r) Wires" where
  "accept_arrived listener_id server w =
     (case endpoint listener_id (wr_fabric w) of
        None \<Rightarrow> reset_connection server True w
      | Some target \<Rightarrow>
          if \<not> pt_open target \<or> \<not> pt_listener target then reset_connection server True w
          else (case endpoint server (wr_fabric w) of
                  None \<Rightarrow> w
                | Some pending \<Rightarrow>
                    if pt_reset pending then w
                    else w\<lparr>wr_fabric := put_endpoint listener_id (target\<lparr>pt_backlog := pt_backlog target @ [server]\<rparr>) (wr_fabric w)\<rparr>))"

fun run_fabric_callback :: "FabricCallback \<Rightarrow> ('x, 'r) Wires \<Rightarrow> ('x, 'r) Wires" where
  "run_fabric_callback (PartitionResets from_node to_node) w = partition_resets from_node to_node w"
| "run_fabric_callback (AcceptArrived listener_id server) w = accept_arrived listener_id server w"
| "run_fabric_callback (Deliver from_conn to_conn payload) w =
     w\<lparr>wr_fabric := Fabric_deliver from_conn to_conn payload (wr_fabric w)\<rparr>"

section \<open>One node's view\<close>

definition SimNetwork_listen :: "u32 \<Rightarrow> u16 \<Rightarrow> ('x, 'r) Wires \<Rightarrow> ConnId result \<times> ('x, 'r) Wires" where
  "SimNetwork_listen node port w =
     (let fb = wr_fabric w;
          bound = (if port = 0 then fb_next_ephemeral_port fb else port);
          fb = (if port = 0 then fb\<lparr>fb_next_ephemeral_port := fb_next_ephemeral_port fb + 1\<rparr> else fb)
      in if fb_listeners fb (node, bound) \<noteq> None then (fail kInvalidArgument, w\<lparr>wr_fabric := fb\<rparr>)
         else let (conn, fb) = new_endpoint node fb;
                  fb = (case endpoint conn fb of
                          None \<Rightarrow> fb
                        | Some pt \<Rightarrow> put_endpoint conn (pt\<lparr>pt_listener := True, pt_port := bound\<rparr>) fb);
                  fb = fb\<lparr>fb_listeners := (fb_listeners fb)((node, bound) \<mapsto> conn)\<rparr>
              in (Inr conn, w\<lparr>wr_fabric := fb\<rparr>))"

definition SimNetwork_local_port :: "u32 \<Rightarrow> ConnId \<Rightarrow> ('x, 'r) Wires \<Rightarrow> u16 result" where
  "SimNetwork_local_port node listener w =
     (case endpoint listener (wr_fabric w) of
        None \<Rightarrow> fail kNotFound
      | Some pt \<Rightarrow> if \<not> pt_listener pt \<or> pt_node pt \<noteq> node then fail kNotFound else Inr (pt_port pt))"

definition SimNetwork_accept :: "u32 \<Rightarrow> ConnId \<Rightarrow> ('x, 'r) Wires \<Rightarrow> ConnId result \<times> ('x, 'r) Wires" where
  "SimNetwork_accept node listener w =
     (case endpoint listener (wr_fabric w) of
        None \<Rightarrow> (fail kNotFound, w)
      | Some pt \<Rightarrow>
          if \<not> pt_listener pt \<or> pt_node pt \<noteq> node \<or> \<not> pt_open pt then (fail kNotFound, w)
          else (case pt_backlog pt of
                  [] \<Rightarrow> (fail kWouldBlock, w)
                | conn # rest \<Rightarrow>
                    (Inr conn, w\<lparr>wr_fabric := put_endpoint listener (pt\<lparr>pt_backlog := rest\<rparr>) (wr_fabric w)\<rparr>)))"

text \<open>Both ends of a new connection, each knowing the other.\<close>

definition pair_endpoints :: "u32 \<Rightarrow> u32 \<Rightarrow> u16 \<Rightarrow> Fabric \<Rightarrow> ConnId \<times> ConnId \<times> Fabric" where
  "pair_endpoints node peer_node port fb =
     (let (client, fb) = new_endpoint node fb;
          (server, fb) = new_endpoint peer_node fb;
          fb = put_endpoint client ((fb_endpoints fb ! unat client)\<lparr>pt_peer := server, pt_port := port\<rparr>) fb;
          fb = put_endpoint server ((fb_endpoints fb ! unat server)\<lparr>pt_peer := client, pt_port := port\<rparr>) fb
      in (client, server, fb))"

definition SimNetwork_connect ::
  "'r random_ops \<Rightarrow> u32 \<Rightarrow> string \<Rightarrow> u16 \<Rightarrow> ('x, 'r) Wires \<Rightarrow> (ConnId result \<times> ('x, 'r) Wires) option" where
  "SimNetwork_connect rops node host port w =
     (case fb_names (wr_fabric w) host of
        None \<Rightarrow> Some (fail kNotFound, w)
      | Some peer_node \<Rightarrow>
          if is_cut node peer_node (wr_fabric w) \<or> is_cut peer_node node (wr_fabric w) then Some (fail kRequestTimedOut, w)
          else (case fb_listeners (wr_fabric w) (peer_node, port) of
                  None \<Rightarrow> Some (fail kNotFound, w)
                | Some listener_id \<Rightarrow> do {
                    let (client, server, fb) = pair_endpoints node peer_node port (wr_fabric w);
                    let w = wr_record \<lparr>et_kind = kConnect, et_node = node, et_a = ucast peer_node, et_b = client\<rparr> (w\<lparr>wr_fabric := fb\<rparr>);
                    (latency, w) \<leftarrow> draw_latency rops w;
                    let w = w\<lparr>wr_sched := snd (schedule_after latency
                               \<lparr>et_kind = kAccept, et_node = peer_node, et_a = ucast node, et_b = server\<rparr>
                               (Some (Inl (AcceptArrived listener_id server))) (wr_sched w))\<rparr>;
                    Some (Inr client, w)
                  }))"

definition SimNetwork_read :: "u32 \<Rightarrow> ConnId \<Rightarrow> nat \<Rightarrow> ('x, 'r) Wires \<Rightarrow> bytes result \<times> ('x, 'r) Wires" where
  "SimNetwork_read node conn out_size w =
     (case endpoint conn (wr_fabric w) of
        None \<Rightarrow> (fail kNotFound, w)
      | Some pt \<Rightarrow>
          if pt_node pt \<noteq> node \<or> pt_listener pt then (fail kNotFound, w)
          else if pt_reset pt then (fail kClosed, w)
          else if \<not> Buffer_empty (pt_rx pt)
          then let n = min out_size (Buffer_size (pt_rx pt))
               in (Inr (take n (Buffer_slice (pt_rx pt))),
                   w\<lparr>wr_fabric := put_endpoint conn (pt\<lparr>pt_rx := Buffer_consume n (pt_rx pt)\<rparr>) (wr_fabric w)\<rparr>)
          else if pt_peer_closed pt then (Inr [], w)
          else if \<not> pt_open pt then (fail kClosed, w)
          else (fail kWouldBlock, w))"

text \<open>How much of a write is taken: what the window leaves room for, and now and then only part of that.\<close>

definition write_amount :: "'r random_ops \<Rightarrow> nat \<Rightarrow> nat \<Rightarrow> ('x, 'r) Wires \<Rightarrow> (nat \<times> ('x, 'r) Wires) option" where
  "write_amount rops data_size room w = do {
     let n = min data_size room;
     let (part, r) = (if n > 1 then next_bool_with_probability rops (nf_partial_write_probability (fb_config (wr_fabric w))) (wr_rng w)
                      else (False, wr_rng w));
     if part
     then do { (x, r) \<leftarrow> rnd_next_below rops (of_nat n) r; Some (1 + unat x, w\<lparr>wr_rng := r\<rparr>) }
     else Some (n, w\<lparr>wr_rng := r\<rparr>)
   }"

text \<open>The bytes taken, on their way to the other end, never before what was sent earlier.\<close>

definition send_bytes ::
  "'r random_ops \<Rightarrow> u32 \<Rightarrow> ConnId \<Rightarrow> Endpoint \<Rightarrow> u32 \<Rightarrow> bytes \<Rightarrow> ('x, 'r) Wires \<Rightarrow> (('x, 'r) Wires) option" where
  "send_bytes rops node conn pt peer_node payload w = do {
     let n = of_nat (length payload);
     let start = sc_now (wr_sched w);
     (latency, w) \<leftarrow> draw_latency rops w;
     let at_time = (if sint (start + latency) < sint (pt_last_delivery pt) then pt_last_delivery pt else start + latency);
     let w = w\<lparr>wr_fabric := put_endpoint conn (pt\<lparr>pt_last_delivery := at_time, pt_in_flight := pt_in_flight pt + n\<rparr>) (wr_fabric w),
               wr_sched := snd (schedule_at at_time
                  \<lparr>et_kind = kDeliver, et_node = peer_node, et_a = pt_peer pt, et_b = n\<rparr>
                  (Some (Inl (Deliver conn (pt_peer pt) payload))) (wr_sched w))\<rparr>;
     Some (wr_record \<lparr>et_kind = kSend, et_node = node, et_a = conn, et_b = n\<rparr> w)
   }"

definition SimNetwork_write ::
  "'r random_ops \<Rightarrow> u32 \<Rightarrow> ConnId \<Rightarrow> bytes \<Rightarrow> ('x, 'r) Wires \<Rightarrow> (nat result \<times> ('x, 'r) Wires) option" where
  "SimNetwork_write rops node conn data w =
     (case endpoint conn (wr_fabric w) of
        None \<Rightarrow> Some (fail kNotFound, w)
      | Some pt \<Rightarrow>
          let window = ucast (nf_send_window_bytes (fb_config (wr_fabric w))) :: u64
          in if pt_node pt \<noteq> node \<or> pt_listener pt then Some (fail kNotFound, w)
             else if pt_reset pt \<or> \<not> pt_open pt then Some (fail kClosed, w)
             else if data = [] then Some (Inr 0, w)
             else if pt_in_flight pt \<ge> window then Some (fail kWouldBlock, w)
             else do {
               (n, w) \<leftarrow> write_amount rops (length data) (unat (window - pt_in_flight pt)) w;
               let dropped = w\<lparr>wr_fabric := (wr_fabric w)\<lparr>fb_bytes_dropped := fb_bytes_dropped (wr_fabric w) + of_nat n\<rparr>\<rparr>;
               (case endpoint (pt_peer pt) (wr_fabric w) of
                  None \<Rightarrow> Some (Inr n, dropped)
                | Some peer \<Rightarrow>
                    if pt_reset peer then Some (Inr n, dropped)
                    else if is_cut node (pt_node peer) (wr_fabric w)
                    then Some (Inr n, wr_record \<lparr>et_kind = kDropped, et_node = node, et_a = conn, et_b = of_nat n\<rparr> dropped)
                    else do {
                      w \<leftarrow> send_bytes rops node conn pt (pt_node peer) (take n data) w;
                      Some (Inr n, w)
                    })
             })"

text \<open>The end of \<^verbatim>\<open>close\<close>, after the listener's backlog or the peer has been told.\<close>

definition shut_endpoint :: "ConnId \<Rightarrow> ('x, 'r) Wires \<Rightarrow> ('x, 'r) Wires" where
  "shut_endpoint conn w =
     (case endpoint conn (wr_fabric w) of
        None \<Rightarrow> w
      | Some pt \<Rightarrow>
          w\<lparr>wr_fabric := put_endpoint conn (pt\<lparr>pt_open := False, pt_handler := None, pt_interest := Interest_kNone\<rparr>) (wr_fabric w)\<rparr>)"

definition SimNetwork_close :: "u32 \<Rightarrow> ConnId \<Rightarrow> ('x, 'r) Wires \<Rightarrow> ('x, 'r) Wires" where
  "SimNetwork_close node conn w =
     (case endpoint conn (wr_fabric w) of
        None \<Rightarrow> w
      | Some pt \<Rightarrow>
          if pt_node pt \<noteq> node then w
          else let fb = wr_fabric w;
                   w = (if pt_listener pt
                        then fold (\<lambda>c. reset_connection c True) (pt_backlog pt)
                               (w\<lparr>wr_fabric := (put_endpoint conn (pt\<lparr>pt_backlog := []\<rparr>) fb)
                                   \<lparr>fb_listeners := (fb_listeners fb)((node, pt_port pt) := None)\<rparr>\<rparr>)
                        else if pt_peer pt \<noteq> kInvalidConn
                        then (case endpoint (pt_peer pt) fb of
                                None \<Rightarrow> w
                              | Some peer \<Rightarrow> w\<lparr>wr_fabric := put_endpoint (pt_peer pt) (peer\<lparr>pt_peer_closed := True\<rparr>) fb\<rparr>)
                        else w)
               in shut_endpoint conn w)"

definition SimNetwork_watch :: "u32 \<Rightarrow> ConnId \<Rightarrow> Interest \<Rightarrow> ConnHandler option \<Rightarrow> ('x, 'r) Wires \<Rightarrow> ('x, 'r) Wires" where
  "SimNetwork_watch node conn interest handler w =
     (case endpoint conn (wr_fabric w) of
        None \<Rightarrow> w
      | Some pt \<Rightarrow>
          if pt_node pt \<noteq> node then w
          else w\<lparr>wr_fabric := put_endpoint conn (pt\<lparr>pt_interest := interest, pt_handler := handler\<rparr>) (wr_fabric w)\<rparr>)"

text \<open>
  Polling calls the handlers, which act on a state that holds the fabric among other things: \<open>get\<close> and
  \<open>put\<close> reach it, and \<open>dispatch\<close> is the virtual call. A handler may connect, so the list of
  connections is read again at every turn.
\<close>

datatype Readiness = Readable | Writable | Hangup

record 's poll_host =
  ph_get :: "'s \<Rightarrow> Fabric"
  ph_put :: "Fabric \<Rightarrow> 's \<Rightarrow> 's"
  ph_dispatch :: "ConnHandler \<Rightarrow> Readiness \<Rightarrow> ConnId \<Rightarrow> 's \<Rightarrow> 's option"

definition endpoint_readable :: "Endpoint \<Rightarrow> bool" where
  "endpoint_readable pt \<longleftrightarrow> (if pt_listener pt then pt_backlog pt \<noteq> [] else \<not> Buffer_empty (pt_rx pt) \<or> pt_peer_closed pt)"

definition endpoint_writable :: "Fabric \<Rightarrow> Endpoint \<Rightarrow> bool" where
  "endpoint_writable fb pt \<longleftrightarrow>
     pt_open pt \<and> \<not> pt_listener pt \<and> \<not> pt_reset pt \<and> pt_in_flight pt < ucast (nf_send_window_bytes (fb_config fb))"

text \<open>The parts of one turn that follow the hangup: reading, then writing.\<close>

definition poll_write :: "'s poll_host \<Rightarrow> ConnId \<Rightarrow> nat \<Rightarrow> 's \<Rightarrow> (nat \<times> 's) option" where
  "poll_write host conn dispatched s =
     (case endpoint conn (ph_get host s) of
        None \<Rightarrow> Some (dispatched, s)
      | Some pt \<Rightarrow>
          (case pt_handler pt of
             None \<Rightarrow> Some (dispatched, s)
           | Some handler \<Rightarrow>
               if endpoint_writable (ph_get host s) pt \<and> wants_write (pt_interest pt)
               then map_option (\<lambda>s. (dispatched + 1, s)) (ph_dispatch host handler Writable conn s)
               else Some (dispatched, s)))"

definition poll_read :: "'s poll_host \<Rightarrow> ConnId \<Rightarrow> nat \<Rightarrow> 's \<Rightarrow> (nat \<times> 's) option" where
  "poll_read host conn dispatched s =
     (case endpoint conn (ph_get host s) of
        None \<Rightarrow> Some (dispatched, s)
      | Some pt \<Rightarrow>
          (case pt_handler pt of
             None \<Rightarrow> Some (dispatched, s)
           | Some handler \<Rightarrow>
               if endpoint_readable pt \<and> wants_read (pt_interest pt)
               then do { s \<leftarrow> ph_dispatch host handler Readable conn s; poll_write host conn (dispatched + 1) s }
               else poll_write host conn dispatched s))"

definition poll_one :: "'s poll_host \<Rightarrow> ConnId \<Rightarrow> nat \<Rightarrow> 's \<Rightarrow> (nat \<times> 's) option" where
  "poll_one host conn dispatched s =
     (case endpoint conn (ph_get host s) of
        None \<Rightarrow> Some (dispatched, s)
      | Some pt \<Rightarrow>
          (case pt_handler pt of
             None \<Rightarrow> Some (dispatched, s)
           | Some handler \<Rightarrow>
               if pt_interest pt = Interest_kNone then Some (dispatched, s)
               else if pt_reset pt \<and> \<not> pt_hangup_delivered pt
               then let s = ph_put host (put_endpoint conn (pt\<lparr>pt_hangup_delivered := True\<rparr>) (ph_get host s)) s
                    in map_option (\<lambda>s. (dispatched + 1, s)) (ph_dispatch host handler Hangup conn s)
               else poll_read host conn dispatched s))"

partial_function (option) poll_loop :: "'s poll_host \<Rightarrow> u32 \<Rightarrow> nat \<Rightarrow> nat \<Rightarrow> 's \<Rightarrow> (nat \<times> 's) option" where
  "poll_loop host node i dispatched s =
     (case fb_node_endpoints (ph_get host s) node of
        None \<Rightarrow> Some (dispatched, s)
      | Some ids \<Rightarrow>
          if i \<ge> length ids then Some (dispatched, s)
          else do {
            (dispatched, s) \<leftarrow> poll_one host (ids ! i) dispatched s;
            poll_loop host node (i + 1) dispatched s
          })"

definition SimNetwork_poll :: "'s poll_host \<Rightarrow> u32 \<Rightarrow> 's \<Rightarrow> (nat \<times> 's) option" where
  "SimNetwork_poll host node s = poll_loop host node 0 0 s"

end
