(* ===== verification/Sim_Stream.thy ===== *)
theory Sim_Stream
  imports Sim_Network "HOL-Library.Sublist"
begin

text \<open>
  What the simulated network promises to the code above it, and where it does not keep it. A run of the
  fabric is any sequence of calls by the nodes, of faults and of events that fire; beside it stand, for
  each connection, the bytes written to it and the bytes read from it. The theorem shows that a
  connection carries a byte stream as long as nothing is written over a cut link. Two concrete runs show
  the limits: a cut that heals in time leaves a gap in the stream, and a peer that closes is seen to have
  closed before its last bytes arrive.
\<close>

section \<open>Runs\<close>

text \<open>The numbers of events and connections are not used up.\<close>

definition roomy :: "('x, 'r) Wires \<Rightarrow> bool" where
  "roomy w \<longleftrightarrow> sc_next_id (wr_sched w) + 1 \<noteq> 0 \<and> length (fb_endpoints (wr_fabric w)) + 2 < 2 ^ 64"

definition over_cut :: "u32 \<Rightarrow> ConnId \<Rightarrow> Fabric \<Rightarrow> bool" where
  "over_cut node conn fb =
     (case endpoint conn fb of
        None \<Rightarrow> False
      | Some pt \<Rightarrow> (case endpoint (pt_peer pt) fb of None \<Rightarrow> False | Some peer \<Rightarrow> is_cut node (pt_node peer) fb))"

fun written :: "bytes \<Rightarrow> nat result \<Rightarrow> bytes" where
  "written data (Inl _) = []"
| "written data (Inr n) = take n data"

fun received :: "bytes result \<Rightarrow> bytes" where
  "received (Inl _) = []"
| "received (Inr got) = got"

text \<open>The part of firing an event that is the fabric's: the callbacks of others do nothing here, what they do is a step of its own.\<close>

definition fire_fabric :: "(FabricCallback + 'x) Event \<Rightarrow> ('x, 'r) Wires \<Rightarrow> ('x, 'r) Wires" where
  "fire_fabric ev w = (case ev_callback ev of Some (Inl cb) \<Rightarrow> run_fabric_callback cb w | _ \<Rightarrow> w)"

inductive wire_run :: "'r random_ops \<Rightarrow> (ConnId \<Rightarrow> bytes) \<Rightarrow> (ConnId \<Rightarrow> bytes) \<Rightarrow> ('x, 'r) Wires \<Rightarrow> bool"
  for rops :: "'r random_ops" where
  start: "wire_run rops (\<lambda>_. []) (\<lambda>_. []) \<lparr>wr_fabric = Fabric_new config, wr_sched = Scheduler_new trace, wr_rng = rng\<rparr>"
| join: "wire_run rops sent got w \<Longrightarrow> wire_run rops sent got (w\<lparr>wr_fabric := add_node node name (wr_fabric w)\<rparr>)"
| listen: "wire_run rops sent got w \<Longrightarrow> roomy w \<Longrightarrow> wire_run rops sent got (snd (SimNetwork_listen node port w))"
| accept: "wire_run rops sent got w \<Longrightarrow> wire_run rops sent got (snd (SimNetwork_accept node conn w))"
| connect: "wire_run rops sent got w \<Longrightarrow> roomy w \<Longrightarrow> SimNetwork_connect rops node host port w = Some (res, w') \<Longrightarrow>
    wire_run rops sent got w'"
| take_in: "wire_run rops sent got w \<Longrightarrow> SimNetwork_read node conn room w = (res, w') \<Longrightarrow>
    wire_run rops sent (got(conn := got conn @ received res)) w'"
| put: "wire_run rops sent got w \<Longrightarrow> roomy w \<Longrightarrow> \<not> over_cut node conn (wr_fabric w) \<Longrightarrow>
    SimNetwork_write rops node conn data w = Some (res, w') \<Longrightarrow>
    wire_run rops (sent(conn := sent conn @ written data res)) got w'"
| close: "wire_run rops sent got w \<Longrightarrow> wire_run rops sent got (SimNetwork_close node conn w)"
| watch: "wire_run rops sent got w \<Longrightarrow> wire_run rops sent got (SimNetwork_watch node conn interest handler w)"
| cut_link: "wire_run rops sent got w \<Longrightarrow> roomy w \<Longrightarrow> wire_run rops sent got (Fabric_cut a b w)"
| heal_link: "wire_run rops sent got w \<Longrightarrow> wire_run rops sent got (Fabric_heal a b w)"
| kill: "wire_run rops sent got w \<Longrightarrow> wire_run rops sent got (kill_node_connections node w)"
| other: "wire_run rops sent got w \<Longrightarrow> roomy w \<Longrightarrow>
    wire_run rops sent got (w\<lparr>wr_sched := snd (schedule_at when_at tag (map_option Inr cb) (wr_sched w))\<rparr>)"
| note_event: "wire_run rops sent got w \<Longrightarrow> wire_run rops sent got (wr_record tag w)"
| advance: "wire_run rops sent got w \<Longrightarrow> wire_run rops sent got (w\<lparr>wr_sched := advance_to when_at (wr_sched w)\<rparr>)"
| draw: "wire_run rops sent got w \<Longrightarrow> wire_run rops sent got (w\<lparr>wr_rng := rng\<rparr>)"
| fire: "wire_run rops sent got w \<Longrightarrow> run_next_before limit (wr_sched w) = (Some ev, s) \<Longrightarrow>
    wire_run rops sent got (fire_fabric ev (w\<lparr>wr_sched := s\<rparr>))"

section \<open>The invariant\<close>

text \<open>The bytes of a connection that are on their way, in the order they will arrive.\<close>

fun payload_of :: "ConnId \<Rightarrow> (FabricCallback + 'x) option \<Rightarrow> bytes" where
  "payload_of conn (Some (Inl (Deliver from_conn to_conn payload))) = (if from_conn = conn then payload else [])"
| "payload_of conn _ = []"

fun is_delivery :: "(FabricCallback + 'x) option \<Rightarrow> bool" where
  "is_delivery (Some (Inl (Deliver from_conn to_conn payload))) = True"
| "is_delivery _ = False"

definition deliveries :: "(FabricCallback + 'x) Event list \<Rightarrow> (FabricCallback + 'x) Event list" where
  "deliveries q = filter (\<lambda>ev. is_delivery (ev_callback ev)) q"

definition transit :: "ConnId \<Rightarrow> (FabricCallback + 'x) Event list \<Rightarrow> bytes" where
  "transit conn q = concat (map (\<lambda>ev. payload_of conn (ev_callback ev)) q)"

definition alive :: "Endpoint \<Rightarrow> bool" where
  "alive pt \<longleftrightarrow> pt_open pt \<and> \<not> pt_reset pt"

definition sched_ok :: "'c Scheduler \<Rightarrow> bool" where
  "sched_ok s \<longleftrightarrow> sc_cancelled s = {} \<and> (\<exists>fired. history_ok fired {} s)"

text \<open>Every connection has two ends that name each other, and only what one end sent is on its way to the other.\<close>

definition paired :: "Fabric \<Rightarrow> bool" where
  "paired fb \<longleftrightarrow>
     (\<forall>c pt. endpoint c fb = Some pt \<longrightarrow> \<not> pt_listener pt \<longrightarrow>
        (\<exists>peer. endpoint (pt_peer pt) fb = Some peer \<and> \<not> pt_listener peer \<and> pt_peer peer = c))"

definition posted :: "Fabric \<Rightarrow> Nanos \<Rightarrow> (FabricCallback + 'x) Event list \<Rightarrow> bool" where
  "posted fb now q \<longleftrightarrow>
     (\<forall>ev \<in> set q. \<forall>a b payload. ev_callback ev = Some (Inl (Deliver a b payload)) \<longrightarrow>
        (\<exists>pt. endpoint a fb = Some pt \<and> \<not> pt_listener pt \<and> pt_peer pt = b \<and>
              sint (ev_when ev) \<le> max (sint (pt_last_delivery pt)) (sint now)))"

definition carried ::
  "(ConnId \<Rightarrow> bytes) \<Rightarrow> (ConnId \<Rightarrow> bytes) \<Rightarrow> Fabric \<Rightarrow> (FabricCallback + 'x) Event list \<Rightarrow> bool" where
  "carried sent got fb q \<longleftrightarrow>
     (\<forall>c pt. endpoint c fb = Some pt \<longrightarrow> \<not> pt_listener pt \<longrightarrow>
        Buffer_ok (pt_rx pt) \<and>
        prefix (got c @ Buffer_slice (pt_rx pt)) (sent (pt_peer pt)) \<and>
        (alive pt \<longrightarrow> got c @ Buffer_slice (pt_rx pt) @ transit (pt_peer pt) q = sent (pt_peer pt)))"

definition unborn :: "(ConnId \<Rightarrow> bytes) \<Rightarrow> (ConnId \<Rightarrow> bytes) \<Rightarrow> Fabric \<Rightarrow> bool" where
  "unborn sent got fb \<longleftrightarrow> (\<forall>c. endpoint c fb = None \<longrightarrow> sent c = [] \<and> got c = [])"

definition stream_inv :: "(ConnId \<Rightarrow> bytes) \<Rightarrow> (ConnId \<Rightarrow> bytes) \<Rightarrow> ('x, 'r) Wires \<Rightarrow> bool" where
  "stream_inv sent got w \<longleftrightarrow>
     sched_ok (wr_sched w) \<and> paired (wr_fabric w) \<and>
     posted (wr_fabric w) (sc_now (wr_sched w)) (sc_queue (wr_sched w)) \<and>
     carried sent got (wr_fabric w) (sc_queue (wr_sched w)) \<and> unborn sent got (wr_fabric w)"

section \<open>Endpoints\<close>

lemma endpoint_put [simp]:
  "endpoint c (put_endpoint d pt fb) = (if c = d \<and> endpoint d fb \<noteq> None then Some pt else endpoint c fb)"
  using word_unat_eq_iff [of c d] by (auto simp: endpoint_def put_endpoint_def nth_list_update)

lemma endpoint_cong [simp]:
  "endpoint c (fb\<lparr>fb_listeners := l\<rparr>) = endpoint c fb" "endpoint c (fb\<lparr>fb_cuts := k\<rparr>) = endpoint c fb"
  "endpoint c (fb\<lparr>fb_connections_reset := x\<rparr>) = endpoint c fb" "endpoint c (fb\<lparr>fb_node_endpoints := m\<rparr>) = endpoint c fb"
  "endpoint c (fb\<lparr>fb_bytes_dropped := x\<rparr>) = endpoint c fb" "endpoint c (fb\<lparr>fb_bytes_delivered := x\<rparr>) = endpoint c fb"
  "endpoint c (fb\<lparr>fb_next_ephemeral_port := p\<rparr>) = endpoint c fb" "endpoint c (add_node node name fb) = endpoint c fb"
  "endpoint c (Fabric_new config) = None"
  by (simp_all add: endpoint_def add_node_def Fabric_new_def)

lemma endpoint_new:
  assumes "new_endpoint node fb = (conn, fb')" and "length (fb_endpoints fb) + 1 < 2 ^ 64"
  shows "endpoint conn fb = None"
    "endpoint c fb' = (if c = conn then Some (Endpoint_new\<lparr>pt_node := node, pt_open := True\<rparr>) else endpoint c fb)"
    "length (fb_endpoints fb') = length (fb_endpoints fb) + 1"
proof -
  have u: "unat conn = length (fb_endpoints fb)"
    using assms unat_of_nat_u64 [of "length (fb_endpoints fb)"] by (auto simp: new_endpoint_def Let_def)
  have "unat kInvalidConn = 2 ^ 64 - 1" by (simp add: kInvalidConn_def unsigned_minus_1_eq_mask mask_eq_exp_minus_1)
  then have ne: "conn \<noteq> kInvalidConn" using u assms(2) by auto
  have "unat c < length (fb_endpoints fb) + 1 \<longleftrightarrow> c = conn \<or> unat c < length (fb_endpoints fb)"
    using u word_unat_eq_iff [of c conn] by (auto simp: less_Suc_eq)
  then show "endpoint conn fb = None" "length (fb_endpoints fb') = length (fb_endpoints fb) + 1"
    "endpoint c fb' = (if c = conn then Some (Endpoint_new\<lparr>pt_node := node, pt_open := True\<rparr>) else endpoint c fb)"
    using u assms(1) ne by (auto simp: endpoint_def new_endpoint_def Let_def nth_append)
qed

section \<open>Steps that move no bytes\<close>

text \<open>An endpoint keeps its peer, its bytes and its last delivery, and if it is dead it stays dead.\<close>

definition keeps :: "Endpoint \<Rightarrow> Endpoint \<Rightarrow> bool" where
  "keeps a b \<longleftrightarrow> pt_peer b = pt_peer a \<and> pt_listener b = pt_listener a \<and> pt_rx b = pt_rx a \<and>
     pt_last_delivery b = pt_last_delivery a \<and> (alive b \<longrightarrow> alive a)"

definition calm :: "('x, 'r) Wires \<Rightarrow> ('x, 'r) Wires \<Rightarrow> bool" where
  "calm w w' \<longleftrightarrow>
     (\<forall>c. rel_option keeps (endpoint c (wr_fabric w)) (endpoint c (wr_fabric w'))) \<and>
     deliveries (sc_queue (wr_sched w')) = deliveries (sc_queue (wr_sched w)) \<and>
     sint (sc_now (wr_sched w)) \<le> sint (sc_now (wr_sched w')) \<and> (sched_ok (wr_sched w) \<longrightarrow> sched_ok (wr_sched w'))"

lemma keeps_refl [simp]: "keeps pt pt"
  by (simp add: keeps_def)

lemma keeps_option_refl [simp]: "rel_option keeps x x"
  by (rule option.rel_refl) simp

lemma calm_refl [simp]: "calm w w"
  by (simp add: calm_def)

lemma calm_trans [trans]: "calm a b \<Longrightarrow> calm b c \<Longrightarrow> calm a c"
proof -
  have "keeps x y \<Longrightarrow> keeps y z \<Longrightarrow> keeps x z" for x y z by (auto simp: keeps_def)
  then have "rel_option keeps x y \<Longrightarrow> rel_option keeps y z \<Longrightarrow> rel_option keeps x z" for x y z
    by (auto simp: option_rel_Some1 option_rel_Some2 elim!: option.rel_cases)
  then show "calm a b \<Longrightarrow> calm b c \<Longrightarrow> calm a c" unfolding calm_def by (metis (no_types, lifting) order_trans)
qed

lemma calm_fold: "(\<And>x w. calm w (f x w)) \<Longrightarrow> calm w (fold f xs w)"
proof (induction xs arbitrary: w)
  case (Cons x xs)
  then show ?case using calm_trans [of w "f x w"] by simp
qed simp

lemma calm_put:
  "endpoint c (wr_fabric w) = Some pt \<Longrightarrow> keeps pt pt' \<Longrightarrow> calm w (w\<lparr>wr_fabric := put_endpoint c pt' (wr_fabric w)\<rparr>)"
  by (simp add: calm_def)

lemma calm_same:
  "(\<And>c. endpoint c fb = endpoint c (wr_fabric w)) \<Longrightarrow> calm w (w\<lparr>wr_fabric := fb\<rparr>)"
  by (simp add: calm_def)

lemma transit_deliveries: "transit c (deliveries q) = transit c q"
proof (induction q)
  case (Cons ev q)
  then show ?case by (cases "(c, ev_callback ev)" rule: payload_of.cases) (simp_all add: transit_def deliveries_def)
qed (simp add: transit_def deliveries_def)

lemma posted_deliveries: "posted fb now (deliveries q) \<longleftrightarrow> posted fb now q"
  by (auto simp: posted_def deliveries_def)

text \<open>So the invariant only sees the deliveries, and survives a calm step.\<close>

lemma calm_inv:
  assumes inv: "stream_inv sent got w" and calm: "calm w w'"
  shows "stream_inv sent got w'"
proof -
  let ?fb = "wr_fabric w" and ?fb' = "wr_fabric w'" and ?q = "sc_queue (wr_sched w)" and ?q' = "sc_queue (wr_sched w')"
  have old: "\<exists>pt. endpoint c ?fb = Some pt \<and> keeps pt pt'" if "endpoint c ?fb' = Some pt'" for c pt'
    using calm that unfolding calm_def by (metis option_rel_Some2)
  have new: "\<exists>pt'. endpoint c ?fb' = Some pt' \<and> keeps pt pt'" if "endpoint c ?fb = Some pt" for c pt
    using calm that unfolding calm_def by (metis option_rel_Some1)
  have none: "endpoint c ?fb' = None \<longleftrightarrow> endpoint c ?fb = None" for c using old new by (metis not_Some_eq)
  have q: "transit c ?q' = transit c ?q" for c
    using calm transit_deliveries unfolding calm_def by metis
  have "paired ?fb'"
    unfolding paired_def
  proof (intro allI impI)
    fix c pt' assume "endpoint c ?fb' = Some pt'" and "\<not> pt_listener pt'"
    then obtain pt where "endpoint c ?fb = Some pt" "keeps pt pt'" "\<not> pt_listener pt" using old by (metis keeps_def)
    then obtain peer where "endpoint (pt_peer pt) ?fb = Some peer" "\<not> pt_listener peer" "pt_peer peer = c"
      using inv by (auto simp: stream_inv_def paired_def)
    then show "\<exists>peer. endpoint (pt_peer pt') ?fb' = Some peer \<and> \<not> pt_listener peer \<and> pt_peer peer = c"
      using new [of "pt_peer pt" peer] \<open>keeps pt pt'\<close> by (auto simp: keeps_def)
  qed
  moreover have "posted ?fb' (sc_now (wr_sched w')) (deliveries ?q)"
    unfolding posted_def
  proof (intro ballI allI impI)
    fix ev a b payload assume ev: "ev \<in> set (deliveries ?q)" "ev_callback ev = Some (Inl (Deliver a b payload))"
    have "posted ?fb (sc_now (wr_sched w)) (deliveries ?q)" using inv by (simp add: stream_inv_def posted_deliveries)
    then obtain pt where pt: "endpoint a ?fb = Some pt" "\<not> pt_listener pt" "pt_peer pt = b"
        "sint (ev_when ev) \<le> max (sint (pt_last_delivery pt)) (sint (sc_now (wr_sched w)))"
      using ev unfolding posted_def by blast
    moreover have "sint (sc_now (wr_sched w)) \<le> sint (sc_now (wr_sched w'))" using calm by (simp add: calm_def)
    ultimately show "\<exists>pt. endpoint a ?fb' = Some pt \<and> \<not> pt_listener pt \<and> pt_peer pt = b \<and>
        sint (ev_when ev) \<le> max (sint (pt_last_delivery pt)) (sint (sc_now (wr_sched w')))"
      using new [OF pt(1)] by (auto simp: keeps_def)
  qed
  moreover have "carried sent got ?fb' ?q'"
    unfolding carried_def q
  proof (intro allI impI)
    fix c pt' assume "endpoint c ?fb' = Some pt'" and "\<not> pt_listener pt'"
    then obtain pt where pt: "endpoint c ?fb = Some pt" "keeps pt pt'" "\<not> pt_listener pt" using old by (metis keeps_def)
    then show "Buffer_ok (pt_rx pt') \<and> prefix (got c @ Buffer_slice (pt_rx pt')) (sent (pt_peer pt')) \<and>
        (alive pt' \<longrightarrow> got c @ Buffer_slice (pt_rx pt') @ transit (pt_peer pt') ?q = sent (pt_peer pt'))"
      using inv by (auto simp: stream_inv_def carried_def keeps_def)
  qed
  moreover have "deliveries ?q' = deliveries ?q" "sched_ok (wr_sched w')"
    using calm inv by (simp_all add: calm_def stream_inv_def)
  ultimately show ?thesis
    using inv none posted_deliveries [of ?fb' _ ?q'] by (simp add: stream_inv_def unborn_def)
qed

lemma sched_ok_schedule:
  "sched_ok s \<Longrightarrow> sc_next_id s + 1 \<noteq> 0 \<Longrightarrow> sched_ok (snd (schedule_at when_at tag cb s))"
proof -
  assume ok: "sched_ok s" and room: "sc_next_id s + 1 \<noteq> 0"
  then obtain fired where "history_ok fired {} s" by (auto simp: sched_ok_def)
  from history_schedule [OF this room] have "history_ok fired {} (snd (schedule_at when_at tag cb s))" .
  moreover have "sc_cancelled (snd (schedule_at when_at tag cb s)) = {}" using ok by (simp add: sched_ok_def schedule_at_def Let_def)
  ultimately show ?thesis unfolding sched_ok_def by blast
qed

lemma calm_schedule:
  "sc_next_id (wr_sched w) + 1 \<noteq> 0 \<Longrightarrow> \<not> is_delivery cb \<Longrightarrow>
   calm w (w\<lparr>wr_sched := snd (schedule_at when_at tag cb (wr_sched w))\<rparr>)"
  using sched_ok_schedule [of "wr_sched w"] by (simp add: calm_def) (simp add: schedule_at_def Let_def deliveries_def)

lemma sched_ok_record: "sched_ok s \<Longrightarrow> sched_ok (Scheduler_record tag s)"
  by (auto simp: sched_ok_def history_ok_def Scheduler_record_def)

lemma sched_ok_advance: "sched_ok s \<Longrightarrow> sched_ok (advance_to when_at s)"
proof -
  assume ok: "sched_ok s"
  then obtain fired where "history_ok fired {} s" by (auto simp: sched_ok_def)
  then have "history_ok fired {} (advance_to when_at s)" by (auto simp: history_ok_def advance_to_def)
  moreover have "sc_cancelled (advance_to when_at s) = {}" using ok by (simp add: sched_ok_def advance_to_def)
  ultimately show ?thesis unfolding sched_ok_def by blast
qed

lemma calm_record: "calm w (wr_record tag w)"
  using sched_ok_record [of "wr_sched w"] by (simp add: calm_def wr_record_def) (simp add: Scheduler_record_def)

lemma calm_advance: "calm w (w\<lparr>wr_sched := advance_to when_at (wr_sched w)\<rparr>)"
  using sched_ok_advance [of "wr_sched w"] by (simp add: calm_def) (simp add: advance_to_def)

lemma calm_reset_quietly: "calm w (reset_quietly conn w)"
proof (cases "endpoint conn (wr_fabric w)")
  case (Some pt)
  have "calm w (w\<lparr>wr_fabric := (put_endpoint conn (pt\<lparr>pt_reset := True, pt_open := False\<rparr>) (wr_fabric w))
      \<lparr>fb_connections_reset := fb_connections_reset (wr_fabric w) + 1\<rparr>\<rparr>)"
    using Some by (simp add: calm_def keeps_def alive_def)
  from calm_trans [OF this calm_record] show ?thesis using Some by (simp add: reset_quietly_def)
qed (simp add: reset_quietly_def)

lemma calm_reset: "calm w (reset_connection conn notify_peer w)"
  using calm_reset_quietly [of w conn] calm_trans [OF calm_reset_quietly [of w conn] calm_reset_quietly]
  by (simp add: reset_connection_def Let_def split: option.split)

lemma calm_kill_endpoint: "calm w (kill_endpoint node conn w)"
  using calm_reset by (auto simp: kill_endpoint_def calm_def keeps_def alive_def split: option.split)

lemma calm_forget: "calm w (w\<lparr>wr_fabric := forget_handler c (wr_fabric w)\<rparr>)"
  by (auto simp: forget_handler_def keeps_def alive_def intro!: calm_put split: option.split)

lemma fold_forget:
  "fold (\<lambda>c w. w\<lparr>wr_fabric := forget_handler c (wr_fabric w)\<rparr>) cs w = w\<lparr>wr_fabric := fold forget_handler cs (wr_fabric w)\<rparr>"
  by (induction cs arbitrary: w) simp_all

lemma calm_kill: "calm w (kill_node_connections node w)"
proof (cases "fb_node_endpoints (wr_fabric w) node")
  case (Some ids)
  let ?w = "fold (kill_endpoint node) ids w"
  have "calm w ?w" by (rule calm_fold) (rule calm_kill_endpoint)
  also have "calm ?w (?w\<lparr>wr_fabric := fold forget_handler ids (wr_fabric ?w)\<rparr>)"
    unfolding fold_forget [symmetric] by (rule calm_fold) (rule calm_forget)
  also have "calm \<dots> (kill_node_connections node w)" using Some by (simp add: kill_node_connections_def Let_def calm_def)
  finally show ?thesis .
qed (simp add: kill_node_connections_def)

lemma calm_partition_reset_one: "calm w (partition_reset_one to_node c w)"
  using calm_reset by (auto simp: partition_reset_one_def split: option.split)

lemma calm_partition_resets: "calm w (partition_resets from_node to_node w)"
  by (auto simp: partition_resets_def intro: calm_fold calm_partition_reset_one split: option.split)

lemma calm_accept_arrived: "calm w (accept_arrived listener_id server w)"
  using calm_reset by (auto simp: accept_arrived_def keeps_def alive_def intro!: calm_put split: option.split)

lemma calm_accept: "calm w (snd (SimNetwork_accept node conn w))"
  by (auto simp: SimNetwork_accept_def keeps_def alive_def intro!: calm_put split: option.split list.split)

lemma calm_watch: "calm w (SimNetwork_watch node conn interest handler w)"
  by (auto simp: SimNetwork_watch_def keeps_def alive_def intro!: calm_put split: option.split)

lemma calm_heal: "calm w (Fabric_heal a b w)"
  by (auto simp: Fabric_heal_def intro!: calm_trans [OF calm_same calm_record])

lemma calm_cut:
  assumes "roomy w"
  shows "calm w (Fabric_cut a b w)"
proof -
  let ?w = "wr_record \<lparr>et_kind = kPartitionStart, et_node = a, et_a = ucast b, et_b = 0\<rparr>
                (w\<lparr>wr_fabric := (wr_fabric w)\<lparr>fb_cuts := insert (a, b) (fb_cuts (wr_fabric w))\<rparr>\<rparr>)"
  have "calm w ?w" by (rule calm_trans [OF calm_same calm_record]) simp
  also have "calm ?w (schedule_partition_resets a b ?w)"
    using assms unfolding schedule_partition_resets_def schedule_after_def
    by (intro calm_schedule) (simp_all add: roomy_def wr_record_def Scheduler_record_def)
  finally show ?thesis by (simp add: Fabric_cut_def)
qed

lemma calm_shut: "calm w (shut_endpoint conn w)"
  by (auto simp: shut_endpoint_def keeps_def alive_def intro!: calm_put split: option.split)

lemma calm_close: "calm w (SimNetwork_close node conn w)"
proof (cases "endpoint conn (wr_fabric w)")
  case (Some pt)
  have "calm w (w\<lparr>wr_fabric := (put_endpoint conn (pt\<lparr>pt_backlog := []\<rparr>) (wr_fabric w))\<lparr>fb_listeners := l\<rparr>\<rparr>)" for l
    using Some by (simp add: calm_def keeps_def alive_def)
  then have "calm w (fold (\<lambda>c. reset_connection c True) cs
      (w\<lparr>wr_fabric := (put_endpoint conn (pt\<lparr>pt_backlog := []\<rparr>) (wr_fabric w))\<lparr>fb_listeners := l\<rparr>\<rparr>))" for cs l
    by (rule calm_trans) (rule calm_fold, rule calm_reset)
  moreover have "calm w (w\<lparr>wr_fabric := put_endpoint c (p\<lparr>pt_peer_closed := True\<rparr>) (wr_fabric w)\<rparr>)"
    if "endpoint c (wr_fabric w) = Some p" for c p
    by (rule calm_put [OF that]) (auto simp: keeps_def alive_def)
  ultimately show ?thesis
    using Some by (auto simp: SimNetwork_close_def Let_def intro!: calm_trans [OF _ calm_shut] split: option.split)
qed (simp add: SimNetwork_close_def)

section \<open>New endpoints\<close>

lemma paired_peer:
  "stream_inv sent got w \<Longrightarrow> endpoint c (wr_fabric w) = Some pt \<Longrightarrow> \<not> pt_listener pt \<Longrightarrow>
   \<exists>peer. endpoint (pt_peer pt) (wr_fabric w) = Some peer \<and> \<not> pt_listener peer \<and> pt_peer peer = c"
  by (simp add: stream_inv_def paired_def)

lemma carried_at:
  assumes "stream_inv sent got w" and "endpoint c (wr_fabric w) = Some pt" and "\<not> pt_listener pt"
  shows "Buffer_ok (pt_rx pt)" "prefix (got c @ Buffer_slice (pt_rx pt)) (sent (pt_peer pt))"
    "alive pt \<Longrightarrow> got c @ Buffer_slice (pt_rx pt) @ transit (pt_peer pt) (sc_queue (wr_sched w)) = sent (pt_peer pt)"
  using assms by (simp_all add: stream_inv_def carried_def)

lemma posted_at:
  assumes "stream_inv sent got w" and "ev \<in> set (sc_queue (wr_sched w))" and "ev_callback ev = Some (Inl (Deliver a b payload))"
  obtains pt where "endpoint a (wr_fabric w) = Some pt" "\<not> pt_listener pt" "pt_peer pt = b"
    "sint (ev_when ev) \<le> max (sint (pt_last_delivery pt)) (sint (sc_now (wr_sched w)))"
  using assms unfolding stream_inv_def posted_def by blast

lemma transit_unborn:
  assumes inv: "stream_inv sent got w" and none: "endpoint c (wr_fabric w) = None"
  shows "transit c (sc_queue (wr_sched w)) = []"
proof -
  have "payload_of c (ev_callback ev) = []" if "ev \<in> set (sc_queue (wr_sched w))" for ev
  proof (cases "(c, ev_callback ev)" rule: payload_of.cases)
    case (1 c' a b payload)
    then have "a \<noteq> c" using none posted_at [OF inv that, of a b payload] by fastforce
    then show ?thesis using 1 by simp
  qed simp_all
  then show ?thesis by (simp add: transit_def)
qed

lemma listener_inv:
  assumes inv: "stream_inv sent got w" and none: "endpoint conn (wr_fabric w) = None" and "pt_listener pt"
    and grown: "\<And>c. endpoint c fb = (if c = conn then Some pt else endpoint c (wr_fabric w))"
  shows "stream_inv sent got (w\<lparr>wr_fabric := fb\<rparr>)"
proof -
  have "paired fb"
    unfolding paired_def grown
  proof (intro allI impI)
    fix c p assume p: "(if c = conn then Some pt else endpoint c (wr_fabric w)) = Some p" "\<not> pt_listener p"
    then have "endpoint c (wr_fabric w) = Some p" using assms(3) by (auto split: if_splits)
    with paired_peer [OF inv this p(2)] none
    show "\<exists>peer. (if pt_peer p = conn then Some pt else endpoint (pt_peer p) (wr_fabric w)) = Some peer \<and> \<not> pt_listener peer \<and> pt_peer peer = c"
      by auto
  qed
  moreover have "posted fb (sc_now (wr_sched w)) (sc_queue (wr_sched w))"
    using inv none by (fastforce simp: stream_inv_def posted_def grown)
  moreover have "carried sent got fb (sc_queue (wr_sched w))" "unborn sent got fb"
    using inv assms(3) by (simp_all add: stream_inv_def carried_def unborn_def grown)
  ultimately show ?thesis using inv by (simp add: stream_inv_def)
qed

lemma listen_inv:
  assumes inv: "stream_inv sent got w" and "roomy w"
  shows "stream_inv sent got (snd (SimNetwork_listen node port w))"
proof -
  let ?fb = "if port = 0 then (wr_fabric w)\<lparr>fb_next_ephemeral_port := fb_next_ephemeral_port (wr_fabric w) + 1\<rparr> else wr_fabric w"
  obtain conn fb where new: "new_endpoint node ?fb = (conn, fb)" by force
  have len: "length (fb_endpoints ?fb) + 1 < 2 ^ 64" using assms(2) by (simp add: roomy_def)
  have same: "endpoint c ?fb = endpoint c (wr_fabric w)" for c by simp
  have "stream_inv sent got (w\<lparr>wr_fabric := ?fb\<rparr>)" by (rule calm_inv [OF inv]) (rule calm_same [OF same])
  moreover have "stream_inv sent got (w\<lparr>wr_fabric := (put_endpoint conn (Endpoint_new\<lparr>pt_node := node, pt_open := True,
      pt_listener := True, pt_port := p\<rparr>) fb)\<lparr>fb_listeners := l\<rparr>\<rparr>)" for p l
    using endpoint_new [OF new len, unfolded same]
    by (intro listener_inv [OF inv, of conn "Endpoint_new\<lparr>pt_node := node, pt_open := True, pt_listener := True, pt_port := p\<rparr>"]) auto
  ultimately show ?thesis
    using new endpoint_new(2) [OF new len, of conn] by (simp add: SimNetwork_listen_def Let_def)
qed

lemma connection_inv:
  assumes inv: "stream_inv sent got w" and none: "endpoint a (wr_fabric w) = None" "endpoint b (wr_fabric w) = None"
    and ends: "\<not> pt_listener pa" "\<not> pt_listener pb" "pt_peer pa = b" "pt_peer pb = a" "pt_rx pa = Buffer_new" "pt_rx pb = Buffer_new"
    and grown: "\<And>c. endpoint c fb = (if c = a then Some pa else if c = b then Some pb else endpoint c (wr_fabric w))" and "a \<noteq> b"
  shows "stream_inv sent got (w\<lparr>wr_fabric := fb\<rparr>)"
proof -
  let ?q = "sc_queue (wr_sched w)"
  have "paired fb"
    unfolding paired_def grown
  proof (intro allI impI)
    fix c p assume p: "(if c = a then Some pa else if c = b then Some pb else endpoint c (wr_fabric w)) = Some p" "\<not> pt_listener p"
    show "\<exists>peer. (if pt_peer p = a then Some pa else if pt_peer p = b then Some pb else endpoint (pt_peer p) (wr_fabric w)) = Some peer \<and>
        \<not> pt_listener peer \<and> pt_peer peer = c"
    proof (cases "c = a \<or> c = b")
      case True
      then show ?thesis using p ends \<open>a \<noteq> b\<close> by auto
    next
      case False
      then show ?thesis using p none paired_peer [OF inv, of c p] by auto
    qed
  qed
  moreover have "posted fb (sc_now (wr_sched w)) ?q"
    using inv none by (fastforce simp: stream_inv_def posted_def grown)
  moreover have "sent a = []" "got a = []" "sent b = []" "got b = []" using inv none by (simp_all add: stream_inv_def unborn_def)
  then have "carried sent got fb ?q"
    using inv ends transit_unborn [OF inv none(1)] transit_unborn [OF inv none(2)] by (simp add: stream_inv_def carried_def grown)
  moreover have "unborn sent got fb" using inv by (simp add: stream_inv_def unborn_def grown)
  ultimately show ?thesis using inv by (simp add: stream_inv_def)
qed

lemma pair_inv:
  assumes inv: "stream_inv sent got w" and "roomy w" and pair: "pair_endpoints node peer_node port (wr_fabric w) = (client, server, fb)"
  shows "stream_inv sent got (w\<lparr>wr_fabric := fb\<rparr>)"
proof -
  obtain a fb1 where one: "new_endpoint node (wr_fabric w) = (a, fb1)" by force
  obtain b fb2 where two: "new_endpoint peer_node fb1 = (b, fb2)" by force
  have len1: "length (fb_endpoints (wr_fabric w)) + 1 < 2 ^ 64" and len: "length (fb_endpoints (wr_fabric w)) + 2 < 2 ^ 64"
    using assms(2) by (simp_all add: roomy_def)
  note new1 = endpoint_new [OF one len1]
  have len2: "length (fb_endpoints fb1) + 1 < 2 ^ 64" using new1(3) len by simp
  note new2 = endpoint_new [OF two len2]
  have ab: "a \<noteq> b" using new1(2) [of a] new2(1) by auto
  have b: "endpoint b (wr_fabric w) = None" using new1(2) [of b] new2(1) ab by simp
  have get: "fb_endpoints f ! unat c = pt" if "endpoint c f = Some pt" for c f pt
    using that by (simp add: endpoint_def split: if_splits)
  let ?pa = "Endpoint_new\<lparr>pt_node := node, pt_open := True, pt_peer := b, pt_port := port\<rparr>"
  let ?pb = "Endpoint_new\<lparr>pt_node := peer_node, pt_open := True, pt_peer := a, pt_port := port\<rparr>"
  have a2: "endpoint a fb2 = Some (Endpoint_new\<lparr>pt_node := node, pt_open := True\<rparr>)"
    and b2: "endpoint b fb2 = Some (Endpoint_new\<lparr>pt_node := peer_node, pt_open := True\<rparr>)"
    using new1(2) [of a] new2(2) [of a] new2(2) [of b] ab by simp_all
  have b3: "endpoint b (put_endpoint a ?pa fb2) = Some (Endpoint_new\<lparr>pt_node := peer_node, pt_open := True\<rparr>)"
    using b2 ab by simp
  have fb: "fb = put_endpoint b ?pb (put_endpoint a ?pa fb2)"
    using pair one two get [OF a2] get [OF b3] by (auto simp: pair_endpoints_def Let_def)
  show ?thesis
    by (rule connection_inv [OF inv new1(1) b, of ?pa ?pb])
      (use ab a2 b2 in \<open>auto simp: fb new1(2) new2(2) Endpoint_new_def\<close>)
qed

lemma draw_calm: "draw_latency rops w = Some (latency, w') \<Longrightarrow> \<exists>rng. w' = w\<lparr>wr_rng := rng\<rparr>"
  by (auto simp: draw_latency_def bind_eq_Some_conv)

lemma calm_rng: "calm w (w\<lparr>wr_rng := rng\<rparr>)"
  by (simp add: calm_def)

lemma connect_inv:
  assumes inv: "stream_inv sent got w" and room: "roomy w" and run: "SimNetwork_connect rops node host port w = Some (res, w')"
  shows "stream_inv sent got w'"
proof -
  consider (refused) "w' = w"
    | (opened) peer_node client server fb latency v listener where
      "pair_endpoints node peer_node port (wr_fabric w) = (client, server, fb)"
      "draw_latency rops (wr_record \<lparr>et_kind = kConnect, et_node = node, et_a = ucast peer_node, et_b = client\<rparr>
        (w\<lparr>wr_fabric := fb\<rparr>)) = Some (latency, v)"
      "w' = v\<lparr>wr_sched := snd (schedule_after latency \<lparr>et_kind = kAccept, et_node = peer_node, et_a = ucast node, et_b = server\<rparr>
        (Some (Inl (AcceptArrived listener server))) (wr_sched v))\<rparr>"
    using run by (auto simp: SimNetwork_connect_def Let_def bind_eq_Some_conv split: option.splits if_splits prod.splits)
  then show ?thesis
  proof cases
    case opened
    let ?w = "w\<lparr>wr_fabric := fb\<rparr>"
    obtain tag rng where v: "v = (wr_record tag ?w)\<lparr>wr_rng := rng\<rparr>" using draw_calm [OF opened(2)] by blast
    have "calm ?w v" unfolding v by (rule calm_trans [OF calm_record calm_rng])
    also have "calm v w'"
      using room unfolding opened(3) schedule_after_def
      by (intro calm_schedule) (simp_all add: v roomy_def wr_record_def Scheduler_record_def)
    finally show ?thesis using calm_inv [OF pair_inv [OF inv room opened(1)]] by blast
  qed (simp add: inv)
qed

section \<open>Steps that move bytes\<close>

text \<open>Replacing one end of a connection by one with the same peer and kind keeps the pairing.\<close>

lemma paired_put:
  assumes "paired fb" and "endpoint c fb = Some pt" and "pt_peer pt' = pt_peer pt" and "pt_listener pt' = pt_listener pt"
  shows "paired (put_endpoint c pt' fb)"
  unfolding paired_def
proof (intro allI impI)
  fix a q assume q: "endpoint a (put_endpoint c pt' fb) = Some q" "\<not> pt_listener q"
  obtain p where p: "endpoint a fb = Some p" "\<not> pt_listener p" "pt_peer q = pt_peer p"
    using q assms(2-4) by (auto split: if_splits)
  then obtain peer where "endpoint (pt_peer p) fb = Some peer" "\<not> pt_listener peer" "pt_peer peer = a"
    using assms(1) unfolding paired_def by blast
  then show "\<exists>peer. endpoint (pt_peer q) (put_endpoint c pt' fb) = Some peer \<and> \<not> pt_listener peer \<and> pt_peer peer = a"
    using assms(2-4) p(3) by (cases "pt_peer p = c") auto
qed

lemma posted_put:
  assumes "posted fb now q" and "endpoint c fb = Some pt" and "pt_peer pt' = pt_peer pt" and "pt_listener pt' = pt_listener pt"
    and "sint (pt_last_delivery pt) \<le> sint (pt_last_delivery pt')"
  shows "posted (put_endpoint c pt' fb) now q"
  unfolding posted_def
proof (intro ballI allI impI)
  fix ev a b payload assume "ev \<in> set q" and "ev_callback ev = Some (Inl (Deliver a b payload))"
  then obtain p where p: "endpoint a fb = Some p" "\<not> pt_listener p" "pt_peer p = b"
      "sint (ev_when ev) \<le> max (sint (pt_last_delivery p)) (sint now)"
    using assms(1) unfolding posted_def by blast
  then have "sint (ev_when ev) \<le> max (sint (pt_last_delivery (if a = c then pt' else p))) (sint now)" using assms(2,5) by auto
  then show "\<exists>p. endpoint a (put_endpoint c pt' fb) = Some p \<and> \<not> pt_listener p \<and> pt_peer p = b \<and>
      sint (ev_when ev) \<le> max (sint (pt_last_delivery p)) (sint now)"
    using p assms(2-4) by (intro exI [of _ "if a = c then pt' else p"]) auto
qed

lemma read_inv:
  assumes inv: "stream_inv sent got w" and run: "SimNetwork_read node conn room w = (res, w')"
  shows "stream_inv sent (got(conn := got conn @ received res)) w'"
proof -
  consider (nothing) "w' = w" "received res = []"
    | (some) pt n where "endpoint conn (wr_fabric w) = Some pt" "\<not> pt_listener pt" "n \<le> Buffer_size (pt_rx pt)"
      "res = Inr (take n (Buffer_slice (pt_rx pt)))"
      "w' = w\<lparr>wr_fabric := put_endpoint conn (pt\<lparr>pt_rx := Buffer_consume n (pt_rx pt)\<rparr>) (wr_fabric w)\<rparr>"
  proof (cases "endpoint conn (wr_fabric w)")
    case (Some pt)
    show ?thesis
    proof (cases "pt_node pt \<noteq> node \<or> pt_listener pt \<or> pt_reset pt \<or> Buffer_empty (pt_rx pt)")
      case True
      then have "w' = w \<and> received res = []" using run Some by (auto simp: SimNetwork_read_def split: if_splits)
      then show ?thesis by (intro that(1)) simp_all
    next
      case False
      then show ?thesis
        using run Some by (intro that(2) [of pt "min room (Buffer_size (pt_rx pt))"]) (auto simp: SimNetwork_read_def Let_def)
    qed
  next
    case None
    then have "w' = w \<and> received res = []" using run by (auto simp: SimNetwork_read_def)
    then show ?thesis by (intro that(1)) simp_all
  qed
  then show ?thesis
  proof cases
    case (some pt n)
    let ?pt = "pt\<lparr>pt_rx := Buffer_consume n (pt_rx pt)\<rparr>"
    note rx = carried_at [OF inv some(1,2)]
    have "n \<le> length (Buffer_slice (pt_rx pt))" using some(3) by (simp add: length_Buffer_slice)
    then have rest: "Buffer_ok (pt_rx ?pt)" "Buffer_slice (pt_rx ?pt) = drop n (Buffer_slice (pt_rx pt))"
      using rx(1) buf.drain_valid [of "pt_rx pt" n] buf.drain_contents [of "pt_rx pt" n] by simp_all
    have cat: "received res @ Buffer_slice (Buffer_consume n (pt_rx pt)) @ xs = Buffer_slice (pt_rx pt) @ xs" for xs
      using rest(2) by (simp add: some(4))
    have "paired (wr_fabric w')" "posted (wr_fabric w') (sc_now (wr_sched w')) (sc_queue (wr_sched w'))"
      using inv some(1) paired_put [of "wr_fabric w" conn pt ?pt] posted_put [of "wr_fabric w" "sc_now (wr_sched w)" "sc_queue (wr_sched w)" conn pt ?pt]
      by (simp_all add: some(5) stream_inv_def)
    moreover have "carried sent (got(conn := got conn @ received res)) (wr_fabric w') (sc_queue (wr_sched w))"
      unfolding carried_def
    proof (intro allI impI)
      fix c p assume p: "endpoint c (wr_fabric w') = Some p" "\<not> pt_listener p"
      show "Buffer_ok (pt_rx p) \<and> prefix ((got(conn := got conn @ received res)) c @ Buffer_slice (pt_rx p)) (sent (pt_peer p)) \<and>
          (alive p \<longrightarrow> (got(conn := got conn @ received res)) c @ Buffer_slice (pt_rx p) @ transit (pt_peer p) (sc_queue (wr_sched w)) = sent (pt_peer p))"
      proof (cases "c = conn")
        case True
        then have "p = ?pt" using p(1) some(1) by (simp add: some(5))
        then show ?thesis
          using True rx rest(1) cat [of "[]"] by (simp add: alive_def cat)
      next
        case False
        then show ?thesis using carried_at [OF inv, of c p] p by (simp add: some(5))
      qed
    qed
    moreover have "unborn sent (got(conn := got conn @ received res)) (wr_fabric w')"
      using inv some(1) by (auto simp: some(5) stream_inv_def unborn_def)
    ultimately show ?thesis using inv by (simp add: stream_inv_def some(5))
  qed (simp add: inv)
qed

text \<open>A write over a link that is up: dropped when the peer is reset, and otherwise posted behind all that was posted before.\<close>

lemma rng_self: "\<exists>rng. w = w\<lparr>wr_rng := rng\<rparr>"
  by (rule exI [of _ "wr_rng w"]) simp

lemma write_amount_rng: "write_amount rops k room w = Some (n, w') \<Longrightarrow> \<exists>rng. w' = w\<lparr>wr_rng := rng\<rparr>"
  by (auto simp: write_amount_def Let_def bind_eq_Some_conv intro: rng_self split: if_splits prod.splits)

lemma transit_snoc:
  assumes inv: "stream_inv sent got w" and pt: "endpoint conn (wr_fabric w) = Some pt"
    and at_time: "sint (pt_last_delivery pt) \<le> sint at_time" and room: "sc_next_id (wr_sched w) + 1 \<noteq> 0"
  shows "transit c (sc_queue (snd (schedule_at at_time tag (Some (Inl (Deliver conn b payload))) (wr_sched w)))) =
    transit c (sc_queue (wr_sched w)) @ (if c = conn then payload else [])"
proof -
  let ?s = "wr_sched w"
  let ?P = "\<lambda>ev. \<exists>b payload. ev_callback ev = Some (Inl (Deliver conn b payload))"
  let ?e = "\<lparr>ev_when = (if sint at_time < sint (sc_now ?s) then sc_now ?s else at_time), ev_id = sc_next_id ?s, ev_tag = tag,
    ev_callback = Some (Inl (Deliver conn b payload))\<rparr> :: (FabricCallback + 'a) Event"
  obtain fired where ok: "history_ok fired {} ?s" using inv by (auto simp: stream_inv_def sched_ok_def)
  have ord: "sched.in_order (sc_queue ?s)" using ok by (auto simp: history_ok_def sched.in_order_def sorted_wrt_append)
  have filt: "transit conn q = transit conn (filter ?P q)" for q :: "(FabricCallback + 'a) Event list"
  proof (induction q)
    case (Cons ev q)
    then show ?case by (cases "(conn, ev_callback ev)" rule: payload_of.cases) (simp_all add: transit_def)
  qed (simp add: transit_def)
  have other: "transit c (push_heap Event_LaterFirst ?e q) = transit c q" if "c \<noteq> conn" for q
    using that by (induction q) (auto simp: transit_def)
  have "\<not> Event_LaterFirst x ?e" if x: "x \<in> set (sc_queue ?s)" "?P x" for x
  proof -
    obtain b' payload' where "ev_callback x = Some (Inl (Deliver conn b' payload'))" using x(2) by blast
    from posted_at [OF inv x(1) this] pt have "sint (ev_when x) \<le> max (sint (pt_last_delivery pt)) (sint (sc_now ?s))"
      by (metis option.inject)
    then have "sint (ev_when x) \<le> sint (ev_when ?e)" using at_time by auto
    moreover have "ev_id x < ev_id ?e" using ok x(1) by (simp add: history_ok_def)
    ultimately show ?thesis by (auto simp: Event_LaterFirst_def)
  qed
  then have "filter ?P (push_heap Event_LaterFirst ?e (sc_queue ?s)) = filter ?P (sc_queue ?s) @ [?e]"
    by (intro sched.filter_push_last [OF ord]) auto
  then have "transit conn (push_heap Event_LaterFirst ?e (sc_queue ?s)) = transit conn (sc_queue ?s) @ payload"
    using filt [of "push_heap Event_LaterFirst ?e (sc_queue ?s)"] filt [of "sc_queue ?s"] by (simp add: transit_def)
  then show ?thesis using other by (simp add: schedule_at_def Let_def)
qed

lemma posted_push: "posted fb now (push_heap later ev q) \<longleftrightarrow> posted fb now [ev] \<and> posted fb now q"
  by (simp add: posted_def)

lemma send_inv:
  assumes inv: "stream_inv sent got w" and pt: "endpoint conn (wr_fabric w) = Some pt" "\<not> pt_listener pt"
    and at_time: "sint (pt_last_delivery pt) \<le> sint at_time" and room: "sc_next_id (wr_sched w) + 1 \<noteq> 0"
    and w': "w' = w\<lparr>wr_fabric := put_endpoint conn (pt\<lparr>pt_last_delivery := at_time, pt_in_flight := n\<rparr>) (wr_fabric w),
      wr_sched := snd (schedule_at at_time tag (Some (Inl (Deliver conn (pt_peer pt) payload))) (wr_sched w))\<rparr>"
  shows "stream_inv (sent(conn := sent conn @ payload)) got w'"
proof -
  let ?pt = "pt\<lparr>pt_last_delivery := at_time, pt_in_flight := n\<rparr>"
  have "sched_ok (wr_sched w')" using inv room by (simp add: w' stream_inv_def sched_ok_schedule)
  moreover have "paired (wr_fabric w')" using inv pt(1) paired_put [of "wr_fabric w" conn pt ?pt] by (simp add: w' stream_inv_def)
  moreover have "posted (put_endpoint conn ?pt (wr_fabric w)) (sc_now (wr_sched w)) (sc_queue (wr_sched w))"
    using inv pt(1) at_time posted_put [of "wr_fabric w" "sc_now (wr_sched w)" "sc_queue (wr_sched w)" conn pt ?pt] by (simp add: stream_inv_def)
  then have "posted (wr_fabric w') (sc_now (wr_sched w')) (sc_queue (wr_sched w'))"
    using pt by (simp add: w' schedule_at_def Let_def posted_push) (simp add: posted_def)
  moreover have "carried (sent(conn := sent conn @ payload)) got (wr_fabric w') (sc_queue (wr_sched w'))"
    unfolding carried_def
  proof (intro allI impI)
    fix c p' assume p': "endpoint c (wr_fabric w') = Some p'" "\<not> pt_listener p'"
    obtain p where p: "endpoint c (wr_fabric w) = Some p" "\<not> pt_listener p"
        "pt_peer p' = pt_peer p" "pt_rx p' = pt_rx p" "alive p' = alive p"
      using p' pt by (auto simp: w' alive_def split: if_splits)
    have "transit (pt_peer p) (sc_queue (wr_sched w')) = transit (pt_peer p) (sc_queue (wr_sched w)) @ (if pt_peer p = conn then payload else [])"
      using transit_snoc [OF inv pt(1) at_time room] by (simp add: w')
    then show "Buffer_ok (pt_rx p') \<and> prefix (got c @ Buffer_slice (pt_rx p')) ((sent(conn := sent conn @ payload)) (pt_peer p')) \<and>
        (alive p' \<longrightarrow> got c @ Buffer_slice (pt_rx p') @ transit (pt_peer p') (sc_queue (wr_sched w')) = (sent(conn := sent conn @ payload)) (pt_peer p'))"
      using carried_at [OF inv p(1,2)] unfolding p(3-5) by (auto intro: prefix_prefix)
  qed
  moreover have "unborn (sent(conn := sent conn @ payload)) got (wr_fabric w')"
    using inv pt(1) by (auto simp: w' stream_inv_def unborn_def)
  ultimately show ?thesis by (simp add: stream_inv_def)
qed

lemma lost_inv:
  assumes inv: "stream_inv sent got w" and pt: "endpoint conn (wr_fabric w) = Some pt"
    and dead: "\<not> pt_listener pt \<longrightarrow> (\<exists>peer. endpoint (pt_peer pt) (wr_fabric w) = Some peer \<and> pt_reset peer)"
  shows "stream_inv (sent(conn := sent conn @ payload)) got w"
proof -
  have "carried (sent(conn := sent conn @ payload)) got (wr_fabric w) (sc_queue (wr_sched w))"
    unfolding carried_def
  proof (intro allI impI)
    fix c p assume p: "endpoint c (wr_fabric w) = Some p" "\<not> pt_listener p"
    have "\<not> alive p" if "pt_peer p = conn"
      using paired_peer [OF inv p] pt that dead p by (auto simp: alive_def)
    then show "Buffer_ok (pt_rx p) \<and> prefix (got c @ Buffer_slice (pt_rx p)) ((sent(conn := sent conn @ payload)) (pt_peer p)) \<and>
        (alive p \<longrightarrow> got c @ Buffer_slice (pt_rx p) @ transit (pt_peer p) (sc_queue (wr_sched w)) = (sent(conn := sent conn @ payload)) (pt_peer p))"
      using carried_at [OF inv p] by (auto intro: prefix_prefix)
  qed
  moreover have "unborn (sent(conn := sent conn @ payload)) got (wr_fabric w)" using inv pt by (auto simp: stream_inv_def unborn_def)
  ultimately show ?thesis using inv by (simp add: stream_inv_def)
qed

lemma send_bytes_inv:
  assumes inv: "stream_inv sent got w" and pt: "endpoint conn (wr_fabric w) = Some pt" "\<not> pt_listener pt"
    and room: "sc_next_id (wr_sched w) + 1 \<noteq> 0" and run: "send_bytes rops node conn pt peer_node payload w = Some w'"
  shows "stream_inv (sent(conn := sent conn @ payload)) got w'"
proof -
  let ?n = "of_nat (length payload) :: u64"
  obtain latency v where draw: "draw_latency rops w = Some (latency, v)"
    using run by (auto simp: send_bytes_def Let_def bind_eq_Some_conv)
  then obtain rng where v: "v = w\<lparr>wr_rng := rng\<rparr>" using draw_calm by blast
  let ?at = "if sint (sc_now (wr_sched w) + latency) < sint (pt_last_delivery pt) then pt_last_delivery pt else sc_now (wr_sched w) + latency"
  let ?tag = "\<lparr>et_kind = kDeliver, et_node = peer_node, et_a = pt_peer pt, et_b = ?n\<rparr>"
  let ?v = "v\<lparr>wr_fabric := put_endpoint conn (pt\<lparr>pt_last_delivery := ?at, pt_in_flight := pt_in_flight pt + ?n\<rparr>) (wr_fabric v),
      wr_sched := snd (schedule_at ?at ?tag (Some (Inl (Deliver conn (pt_peer pt) payload))) (wr_sched v))\<rparr>"
  have "stream_inv sent got v" unfolding v by (rule calm_inv [OF inv calm_rng])
  then have "stream_inv (sent(conn := sent conn @ payload)) got ?v"
    by (rule send_inv [where tag = ?tag and pt = pt and n = "pt_in_flight pt + ?n" and at_time = ?at]) (use pt room in \<open>simp_all add: v\<close>)
  moreover have "w' = wr_record \<lparr>et_kind = kSend, et_node = node, et_a = conn, et_b = ?n\<rparr> ?v"
    using run draw by (simp add: send_bytes_def Let_def)
  ultimately show ?thesis using calm_inv [OF _ calm_record] by blast
qed

lemma write_inv:
  assumes inv: "stream_inv sent got w" and room: "roomy w" and up: "\<not> over_cut node conn (wr_fabric w)"
    and run: "SimNetwork_write rops node conn data w = Some (res, w')"
  shows "stream_inv (sent(conn := sent conn @ written data res)) got w'"
proof (cases "\<exists>n. res = Inr n \<and> data \<noteq> []")
  case False
  then have "w' = w" "written data res = []"
    using run by (auto simp: SimNetwork_write_def Let_def bind_eq_Some_conv split: option.splits if_splits prod.splits)
  then show ?thesis using inv by simp
next
  case True
  then obtain pt where pt: "endpoint conn (wr_fabric w) = Some pt" "\<not> pt_listener pt" "pt_node pt = node" "\<not> pt_reset pt" "pt_open pt"
      "\<not> ucast (nf_send_window_bytes (fb_config (wr_fabric w))) \<le> pt_in_flight pt"
    using run by (auto simp: SimNetwork_write_def Let_def split: option.splits if_splits)
  let ?room = "unat (ucast (nf_send_window_bytes (fb_config (wr_fabric w))) - pt_in_flight pt)"
  obtain n v where amount: "write_amount rops (length data) ?room w = Some (n, v)"
    using run pt True by (auto simp: SimNetwork_write_def Let_def bind_eq_Some_conv)
  obtain peer where peer: "endpoint (pt_peer pt) (wr_fabric w) = Some peer" using paired_peer [OF inv pt(1,2)] by blast
  obtain rng where v: "v = w\<lparr>wr_rng := rng\<rparr>" using amount write_amount_rng by blast
  have rest: "(if pt_reset peer then Some (Inr n, v\<lparr>wr_fabric := (wr_fabric v)\<lparr>fb_bytes_dropped := fb_bytes_dropped (wr_fabric v) + of_nat n\<rparr>\<rparr>)
      else map_option (\<lambda>v. (Inr n, v)) (send_bytes rops node conn pt (pt_node peer) (take n data) v)) = Some (res, w')"
    using run pt True amount peer up by (auto simp: SimNetwork_write_def Let_def over_cut_def v bind_eq_Some_conv)
  have inv_v: "stream_inv sent got v" unfolding v by (rule calm_inv [OF inv calm_rng])
  show ?thesis
  proof (cases "pt_reset peer")
    case True
    have "stream_inv (sent(conn := sent conn @ take n data)) got v"
      by (rule lost_inv [OF inv_v, of conn pt]) (use pt peer True in \<open>simp_all add: v\<close>)
    moreover have "calm v w'" using rest True by (auto intro!: calm_same)
    moreover have "res = Inr n" using rest True by simp
    ultimately show ?thesis using calm_inv [of _ got v w'] by simp
  next
    case False
    then have "send_bytes rops node conn pt (pt_node peer) (take n data) v = Some w'" "res = Inr n" using rest by auto
    then show ?thesis using send_bytes_inv [OF inv_v, of conn pt] pt room by (simp add: v roomy_def)
  qed
qed

text \<open>Events fire from the front of the queue; a delivery takes the oldest bytes on their way.\<close>

lemma fired_event:
  assumes "sched_ok s" and "run_next_before limit s = (Some ev, s')"
  shows "sc_queue s = ev # sc_queue s'" "sched_ok s'" "sint (sc_now s) \<le> sint (sc_now s')"
proof -
  obtain fired where ok: "history_ok fired {} s" using assms(1) by (auto simp: sched_ok_def)
  have none: "sc_cancelled s = {}" using assms(1) by (simp add: sched_ok_def)
  then have "drop_cancelled_from_top s = s" by (cases "sc_queue s") (simp_all add: drop_cancelled_from_top_def)
  then show q: "sc_queue s = ev # sc_queue s'"
    using assms(2) by (auto simp: run_next_before_def Let_def Scheduler_record_def advance_to_def split: list.splits if_splits)
  have "sc_cancelled s' = {}"
    using assms(2) none \<open>drop_cancelled_from_top s = s\<close>
    by (auto simp: run_next_before_def Let_def Scheduler_record_def advance_to_def split: list.splits if_splits)
  then show "sched_ok s'" "sint (sc_now s) \<le> sint (sc_now s')"
    using history_fire [OF ok assms(2)] by (auto simp: sched_ok_def)
qed

lemma delivered_inv:
  assumes inv: "stream_inv sent got w" and q: "sc_queue (wr_sched w) = ev # sc_queue s" and s: "sched_ok s" "sint (sc_now (wr_sched w)) \<le> sint (sc_now s)"
    and cb: "ev_callback ev = Some (Inl (Deliver a b payload))" and dst: "endpoint b (wr_fabric w) = Some dst"
  shows "stream_inv sent got (w\<lparr>wr_sched := s,
    wr_fabric := (if alive dst then put_endpoint b (dst\<lparr>pt_rx := Buffer_append payload (pt_rx dst)\<rparr>) (wr_fabric w) else wr_fabric w)\<rparr>)"
    (is "stream_inv sent got ?w")
proof -
  have "ev \<in> set (sc_queue (wr_sched w))" using q by simp
  then obtain src where src: "endpoint a (wr_fabric w) = Some src" "\<not> pt_listener src" "pt_peer src = b"
    using posted_at [OF inv _ cb] by blast
  have ret: "\<not> pt_listener dst" "pt_peer dst = a" using paired_peer [OF inv src(1,2)] src(3) dst by auto
  let ?dst = "dst\<lparr>pt_rx := Buffer_append payload (pt_rx dst)\<rparr>"
  have "posted (wr_fabric w) (sc_now s) (sc_queue s)"
    using inv s(2) unfolding stream_inv_def posted_def q by (meson list.set_intros(2) max.mono order_refl order_trans)
  then have "posted (wr_fabric ?w) (sc_now s) (sc_queue s)"
    using dst posted_put [of "wr_fabric w" "sc_now s" "sc_queue s" b dst ?dst] by simp
  moreover have "paired (wr_fabric ?w)" using inv dst paired_put [of "wr_fabric w" b dst ?dst] by (simp add: stream_inv_def)
  moreover have "carried sent got (wr_fabric ?w) (sc_queue s)"
    unfolding carried_def
  proof (intro allI impI)
    fix c p' assume p': "endpoint c (wr_fabric ?w) = Some p'" "\<not> pt_listener p'"
    show "Buffer_ok (pt_rx p') \<and> prefix (got c @ Buffer_slice (pt_rx p')) (sent (pt_peer p')) \<and>
        (alive p' \<longrightarrow> got c @ Buffer_slice (pt_rx p') @ transit (pt_peer p') (sc_queue s) = sent (pt_peer p'))"
    proof (cases "c = b")
      case True
      have full: "got b @ Buffer_slice (pt_rx dst) @ payload @ transit a (sc_queue s) = sent a" if "alive dst"
        using carried_at(3) [OF inv dst ret(1)] that cb ret(2) by (simp add: q transit_def)
      have "prefix (got b @ Buffer_slice (pt_rx dst) @ payload) (sent a)" if "alive dst"
        unfolding full [OF that, symmetric] by (simp add: prefix_def)
      then show ?thesis
        using True p' dst carried_at(1,2) [OF inv dst ret(1)] ret(2) full buf.put_valid buf.put_contents
        by (auto simp: alive_def split: if_splits)
    next
      case False
      then have p: "endpoint c (wr_fabric w) = Some p'" using p'(1) by (simp split: if_splits)
      have "pt_peer p' \<noteq> a" using paired_peer [OF inv p p'(2)] src False by auto
      then show ?thesis using carried_at [OF inv p p'(2)] cb by (simp add: q transit_def)
    qed
  qed
  moreover have "unborn sent got (wr_fabric ?w)" using inv dst by (auto simp: stream_inv_def unborn_def split: if_splits)
  ultimately show ?thesis using s(1) by (simp add: stream_inv_def)
qed

lemma fire_delivery_inv:
  assumes inv: "stream_inv sent got w" and run: "run_next_before limit (wr_sched w) = (Some ev, s)"
    and cb: "ev_callback ev = Some (Inl (Deliver a b payload))"
  shows "stream_inv sent got (w\<lparr>wr_sched := s, wr_fabric := Fabric_deliver a b payload (wr_fabric w)\<rparr>)"
proof -
  have ok: "sched_ok (wr_sched w)" using inv by (simp add: stream_inv_def)
  note fired = fired_event [OF ok run]
  have "ev \<in> set (sc_queue (wr_sched w))" using fired(1) by simp
  then obtain src where src: "endpoint a (wr_fabric w) = Some src" "\<not> pt_listener src" "pt_peer src = b"
    using posted_at [OF inv _ cb] by blast
  obtain d where d: "endpoint b (wr_fabric w) = Some d" using paired_peer [OF inv src(1,2)] src(3) by auto
  let ?n = "of_nat (length payload) :: u64"
  let ?src = "src\<lparr>pt_in_flight := pt_in_flight src - (if pt_in_flight src < ?n then pt_in_flight src else ?n)\<rparr>"
  let ?w = "w\<lparr>wr_fabric := put_endpoint a ?src (wr_fabric w)\<rparr>"
  let ?dst = "if b = a then ?src else d"
  have "stream_inv sent got ?w" by (rule calm_inv [OF inv calm_put [OF src(1)]]) (auto simp: keeps_def alive_def)
  then have "stream_inv sent got (?w\<lparr>wr_sched := s, wr_fabric := (if alive ?dst
      then put_endpoint b (?dst\<lparr>pt_rx := Buffer_append payload (pt_rx ?dst)\<rparr>) (wr_fabric ?w) else wr_fabric ?w)\<rparr>)"
    by (rule delivered_inv [where ev = ev and a = a]) (use fired cb d src in simp_all)
  moreover have "calm (?w\<lparr>wr_sched := s, wr_fabric := (if alive ?dst
      then put_endpoint b (?dst\<lparr>pt_rx := Buffer_append payload (pt_rx ?dst)\<rparr>) (wr_fabric ?w) else wr_fabric ?w)\<rparr>)
      (w\<lparr>wr_sched := s, wr_fabric := Fabric_deliver a b payload (wr_fabric w)\<rparr>)"
    using src d by (simp add: calm_def Fabric_deliver_def Let_def alive_def)
  ultimately show ?thesis using calm_inv by blast
qed

lemma fire_inv:
  assumes inv: "stream_inv sent got w" and run: "run_next_before limit (wr_sched w) = (Some ev, s)"
  shows "stream_inv sent got (fire_fabric ev (w\<lparr>wr_sched := s\<rparr>))"
proof (cases "is_delivery (ev_callback ev)")
  case True
  then obtain a b payload where cb: "ev_callback ev = Some (Inl (Deliver a b payload))"
    by (cases "ev_callback ev" rule: is_delivery.cases) auto
  then show ?thesis using fire_delivery_inv [OF inv run cb] by (simp add: fire_fabric_def)
next
  case False
  have ok: "sched_ok (wr_sched w)" using inv by (simp add: stream_inv_def)
  have "calm w (w\<lparr>wr_sched := s\<rparr>)"
    using fired_event [OF ok run] False by (simp add: calm_def deliveries_def)
  moreover have "calm v (fire_fabric ev v)" for v :: "('a, 'b) Wires"
    using False calm_partition_resets [of v] calm_accept_arrived [of v]
    by (cases "ev_callback ev" rule: is_delivery.cases) (simp_all add: fire_fabric_def split: FabricCallback.splits sum.splits option.splits)
  ultimately show ?thesis using calm_inv [OF inv] calm_trans by blast
qed

lemma sched_ok_new: "sched_ok (Scheduler_new trace)"
proof -
  have "history_ok [] {} (Scheduler_new trace)" by (rule history_holds) (rule history.fresh)
  moreover have "sc_cancelled (Scheduler_new trace) = {}" by (simp add: Scheduler_new_def)
  ultimately show ?thesis unfolding sched_ok_def by blast
qed

lemma stream_inv_run: "wire_run rops sent got w \<Longrightarrow> stream_inv sent got w"
proof (induction rule: wire_run.induct)
  case (start config trace rng)
  show ?case
    using sched_ok_new by (simp add: stream_inv_def) (simp add: Scheduler_new_def paired_def posted_def carried_def unborn_def)
next
  case (other sent got w when_at tag cb)
  have "\<not> is_delivery (map_option Inr cb)" by (cases cb) simp_all
  then show ?case using other by (intro calm_inv [OF other.IH] calm_schedule) (simp_all add: roomy_def)
next
  case (join sent got w node name)
  show ?case by (rule calm_inv [OF join.IH calm_same]) simp
next
  case (take_in sent got w node conn room res w')
  then show ?case using read_inv by blast
next
  case (put sent got w node conn data res w')
  then show ?case using write_inv by blast
qed (auto intro: calm_inv calm_accept calm_close calm_watch calm_cut calm_heal calm_kill calm_record calm_advance calm_rng
    listen_inv connect_inv fire_inv)

section \<open>Concrete runs\<close>

definition sample_net :: NetworkFaultConfig where
  "sample_net = \<lparr>nf_min_latency = 0, nf_max_latency = 0, nf_partial_write_probability = 0, nf_partition_reset_delay = 50,
     nf_send_window_bytes = 100\<rparr>"

definition fire_next :: "('x, 'r) Wires \<Rightarrow> ('x, 'r) Wires" where
  "fire_next w =
     (case run_next_before (sc_now (wr_sched w)) (wr_sched w) of
        (Some ev, s) \<Rightarrow> fire_fabric ev (w\<lparr>wr_sched := s\<rparr>)
      | (None, s) \<Rightarrow> w\<lparr>wr_sched := s\<rparr>)"

text \<open>Two nodes, the second listening; the first connects, and the connection is accepted.\<close>

definition sample_joined :: "(unit, SeededRandom) Wires" where
  "sample_joined =
     \<lparr>wr_fabric = add_node 2 ''b'' (add_node 1 ''a'' (Fabric_new sample_net)), wr_sched = Scheduler_new (Trace_new 1), wr_rng = reseed 1\<rparr>"

definition sample_connected :: "(ConnId result \<times> (unit, SeededRandom) Wires) option" where
  "sample_connected = SimNetwork_connect seeded_ops 1 ''b'' 9 (snd (SimNetwork_listen 2 9 sample_joined))"

lemmas run_defs = SimNetwork_connect_def SimNetwork_listen_def SimNetwork_write_def SimNetwork_read_def SimNetwork_close_def
  Fabric_cut_def Fabric_heal_def schedule_partition_resets_def fire_next_def fire_fabric_def run_next_before_def
  drop_cancelled_from_top_def schedule_after_def schedule_at_def Scheduler_record_def advance_to_def wr_record_def
  write_amount_def send_bytes_def shut_endpoint_def draw_latency_def next_in_range_def next_bool_with_probability_def
  accept_arrived_def Fabric_deliver_def pair_endpoints_def new_endpoint_def put_endpoint_def endpoint_def is_cut_def
  add_node_def Fabric_new_def Scheduler_new_def Endpoint_new_def sample_net_def kInvalidConn_def Event_LaterFirst_def
  Buffer_empty_def Buffer_size_def Buffer_slice_eq Buffer_append_def Buffer_new_def Let_def

lemma sample_run:
  obtains w sent got pt where "wire_run seeded_ops sent got (w :: (unit, SeededRandom) Wires)" "endpoint 2 (wr_fabric w) = Some pt"
    "\<not> pt_listener pt" "pt_peer pt = 1" "sent 1 = [7, 8]" "got 2 = [7]"
proof -
  have joined: "wire_run seeded_ops (\<lambda>_. []) (\<lambda>_. []) sample_joined"
    using wire_run.join [OF wire_run.join [OF wire_run.start [of seeded_ops sample_net "Trace_new 1" "reseed 1"], of 1 "''a''"], of 2 "''b''"]
    by (simp add: sample_joined_def)
  have listening: "wire_run seeded_ops (\<lambda>_. []) (\<lambda>_. []) (snd (SimNetwork_listen 2 9 sample_joined))"
    by (rule wire_run.listen [OF joined]) (simp add: roomy_def sample_joined_def run_defs)
  obtain v u where v: "sample_connected = Some (Inr 1, v)" "roomy v" "\<not> over_cut 1 1 (wr_fabric v)"
    and u: "SimNetwork_write seeded_ops 1 1 [7, 8] v = Some (Inr 2, u)"
    and w: "(case run_next_before 0 (wr_sched u) of (Some ev, s) \<Rightarrow>
       let u = fire_fabric ev (u\<lparr>wr_sched := s\<rparr>)
       in (case run_next_before 0 (wr_sched u) of (Some ev, s) \<Rightarrow>
             (case SimNetwork_read 2 2 1 (fire_fabric ev (u\<lparr>wr_sched := s\<rparr>)) of (res, w) \<Rightarrow>
                res = Inr [7] \<and> map_option (\<lambda>pt. (pt_listener pt, pt_peer pt)) (endpoint 2 (wr_fabric w)) = Some (False, 1))
           | _ \<Rightarrow> False)
     | _ \<Rightarrow> False)"
    by (simp add: sample_connected_def sample_joined_def run_defs roomy_def over_cut_def)
  have connected: "wire_run seeded_ops (\<lambda>_. []) (\<lambda>_. []) v"
    by (rule wire_run.connect [OF listening _ v(1) [unfolded sample_connected_def]]) (simp add: roomy_def sample_joined_def run_defs)
  note sent = wire_run.put [OF connected v(2,3) u]
  obtain ev s where ev: "run_next_before 0 (wr_sched u) = (Some ev, s)" using w by (auto split: prod.splits option.splits)
  note accepted = wire_run.fire [OF sent ev]
  obtain ev' s' where ev': "run_next_before 0 (wr_sched (fire_fabric ev (u\<lparr>wr_sched := s\<rparr>))) = (Some ev', s')"
    using w ev by (auto simp: Let_def split: prod.splits option.splits)
  note delivered = wire_run.fire [OF accepted ev']
  obtain w where w: "SimNetwork_read 2 2 1 (fire_fabric ev' ((fire_fabric ev (u\<lparr>wr_sched := s\<rparr>))\<lparr>wr_sched := s'\<rparr>)) = (Inr [7], w)"
      "\<exists>pt. endpoint 2 (wr_fabric w) = Some pt \<and> \<not> pt_listener pt \<and> pt_peer pt = 1"
    using w ev ev' by (auto simp: Let_def split: prod.splits)
  show thesis using wire_run.take_in [OF delivered w(1)] w(2) that by fastforce
qed

text \<open>C10. A simulated connection is a byte stream. In every run of the fabric in which nothing is written over
  a cut link, with any latencies, partial writes, partitions, resets, closings and crashes, what a node has
  read from a connection followed by what waits in its buffer is a prefix of what its peer has written to
  it; and while the connection is open and not reset, what is missing is exactly what is still on its way,
  in order.\<close>

theorem stream_in_order:
  assumes "wire_run rops sent got w" and "endpoint conn (wr_fabric w) = Some pt" and "\<not> pt_listener pt"
  shows "prefix (got conn @ Buffer_slice (pt_rx pt)) (sent (pt_peer pt)) \<and>
    (pt_open pt \<longrightarrow> \<not> pt_reset pt \<longrightarrow>
       got conn @ Buffer_slice (pt_rx pt) @ transit (pt_peer pt) (sc_queue (wr_sched w)) = sent (pt_peer pt))"
  using carried_at [OF stream_inv_run [OF assms(1)] assms(2,3)] by (simp add: alive_def)

theorem stream_in_order_witness:
  "\<exists>sent got w pt. wire_run seeded_ops sent got (w :: (unit, SeededRandom) Wires) \<and> endpoint 2 (wr_fabric w) = Some pt \<and>
     sent (pt_peer pt) = [7, 8] \<and> got 2 = [7] \<and> prefix (got 2 @ Buffer_slice (pt_rx pt)) [7, 8]"
proof -
  obtain w sent got pt where run: "wire_run seeded_ops sent got (w :: (unit, SeededRandom) Wires)" "endpoint 2 (wr_fabric w) = Some pt"
      "\<not> pt_listener pt" and ends: "pt_peer pt = 1" "sent 1 = [7, 8]" "got 2 = [7]"
    by (rule sample_run)
  have "prefix (got 2 @ Buffer_slice (pt_rx pt)) [7, 8]" using conjunct1 [OF stream_in_order [OF run]] by (simp add: ends)
  then show ?thesis using run(1,2) ends by (intro exI [of _ sent] exI [of _ got] exI [of _ w] exI [of _ pt]) simp
qed

text \<open>Bytes accepted while a link is cut are lost, but a connection survives a cut that heals before its
  reset: the reader then sees the later bytes without the earlier ones.\<close>

definition gap_run :: "(nat result \<times> nat result \<times> bytes result) option" where
  "gap_run = do {
     (_, w) \<leftarrow> sample_connected;
     (first, w) \<leftarrow> SimNetwork_write seeded_ops 1 1 [65] (Fabric_cut 1 2 w);
     (second, w) \<leftarrow> SimNetwork_write seeded_ops 1 1 [66] (Fabric_heal 1 2 w);
     let (got, _) = SimNetwork_read 2 2 10 (fire_next (fire_next w));
     Some (first, second, got)
   }"

theorem healed_cut_leaves_gap: "gap_run = Some (Inr 1, Inr 1, Inr [66])"
  by (simp add: gap_run_def sample_connected_def sample_joined_def run_defs)

text \<open>A reader with an empty buffer is told that the stream has ended as soon as its peer has closed, although
  bytes written before are still on their way.\<close>

definition eof_run :: "(nat result \<times> bytes result \<times> bytes) option" where
  "eof_run = do {
     (_, w) \<leftarrow> sample_connected;
     (n, w) \<leftarrow> SimNetwork_write seeded_ops 1 1 [65] w;
     let (got, w) = SimNetwork_read 2 2 10 (SimNetwork_close 1 1 (fire_next w));
     Some (n, got, transit 1 (sc_queue (wr_sched w)))
   }"

theorem close_overtakes_bytes: "eof_run = Some (Inr 1, Inr [], [65])"
  by (simp add: eof_run_def sample_connected_def sample_joined_def run_defs transit_def)

end
