(* ===== verification/Workload.thy ===== *)
theory Workload
  imports Broker Scheduler
begin

text \<open>
  \<^verbatim>\<open>src/src/sim/workload.h\<close> and \<^verbatim>\<open>workload.cpp\<close>: the oracle of the simulator, which remembers
  what the cluster promised, and the workload of a node: a broker, the load it is given and the observer
  that reports to the oracle. The workload acts on a state \<open>'w\<close> through the interfaces of the broker and
  a few more: the trace, the oracle and the timer of the next append. The theorems show that the oracle
  reports two leaders of a term exactly when there were two, and that no two offsets have the same payload.
\<close>

section \<open>The oracle\<close>

record AckedBatch =
  ab_base_offset :: u64
  ab_record_count :: u32

record Oracle =
  or_acked :: "AckedBatch list list"
  or_leader_by_term :: "Term \<rightharpoonup> NodeId"
  or_elections :: u64
  or_highest_term :: Term
  or_committed_end :: u64
  or_commits :: u64
  or_leaderless_since :: Nanos
  or_longest_gap :: Nanos
  or_gaps :: "Nanos list"
  or_gap_had_quorum :: bool
  or_leader_present :: bool
  or_invariant :: "string option"
  or_detail :: string

definition Oracle_new :: "u32 \<Rightarrow> Oracle" where
  "Oracle_new node_count =
     \<lparr>or_acked = replicate (unat node_count) [], or_leader_by_term = Map.empty, or_elections = 0, or_highest_term = 0,
      or_committed_end = 0, or_commits = 0, or_leaderless_since = 0, or_longest_gap = 0, or_gaps = [],
      or_gap_had_quorum = True, or_leader_present = False, or_invariant = None, or_detail = []\<rparr>"

definition record_ack :: "u32 \<Rightarrow> AckedBatch \<Rightarrow> Oracle \<Rightarrow> Oracle" where
  "record_ack node batch o1 = o1\<lparr>or_acked := (or_acked o1)[unat node := or_acked o1 ! unat node @ [batch]]\<rparr>"

definition acked_end :: "u32 \<Rightarrow> Oracle \<Rightarrow> u64" where
  "acked_end node o1 =
     (let acks = or_acked o1 ! unat node
      in if acks = [] then 0 else ab_base_offset (last acks) + ucast (ab_record_count (last acks)))"

definition total_batches :: "Oracle \<Rightarrow> u64" where
  "total_batches o1 = fold (\<lambda>per_node tot. tot + of_nat (length per_node)) (or_acked o1) 0"

definition total_records :: "Oracle \<Rightarrow> u64" where
  "total_records o1 = fold (\<lambda>per_node tot. fold (\<lambda>batch tot. tot + ucast (ab_record_count batch)) per_node tot) (or_acked o1) 0"

definition violation :: "string \<Rightarrow> string \<Rightarrow> Oracle \<Rightarrow> Oracle" where
  "violation invariant detail o1 =
     (if or_invariant o1 \<noteq> None then o1 else o1\<lparr>or_invariant := Some invariant, or_detail := detail\<rparr>)"

definition Oracle_ok :: "Oracle \<Rightarrow> bool" where
  "Oracle_ok o1 \<longleftrightarrow> or_invariant o1 = None"

definition record_commit :: "u64 \<Rightarrow> Oracle \<Rightarrow> Oracle" where
  "record_commit end_off o1 =
     (if end_off \<le> or_committed_end o1 then o1 else o1\<lparr>or_committed_end := end_off, or_commits := or_commits o1 + 1\<rparr>)"

definition note_leader_present :: "Nanos \<Rightarrow> Oracle \<Rightarrow> Oracle" where
  "note_leader_present at_time o1 =
     (if or_leader_present o1 then o1
      else let gap = at_time - or_leaderless_since o1;
               o1 = (if sint gap > sint (or_longest_gap o1) then o1\<lparr>or_longest_gap := gap\<rparr> else o1);
               o1 = (if or_gap_had_quorum o1 then o1\<lparr>or_gaps := or_gaps o1 @ [gap]\<rparr> else o1)
           in o1\<lparr>or_leader_present := True\<rparr>)"

definition note_leader_absent :: "Nanos \<Rightarrow> Oracle \<Rightarrow> Oracle" where
  "note_leader_absent at_time o1 =
     (if \<not> or_leader_present o1 then o1
      else o1\<lparr>or_leader_present := False, or_leaderless_since := at_time, or_gap_had_quorum := True\<rparr>)"

definition note_quorum_lost :: "Oracle \<Rightarrow> Oracle" where
  "note_quorum_lost o1 = o1\<lparr>or_gap_had_quorum := False\<rparr>"

definition observe_term :: "Term \<Rightarrow> Oracle \<Rightarrow> Oracle" where
  "observe_term t o1 = (if t > or_highest_term o1 then o1\<lparr>or_highest_term := t\<rparr> else o1)"

definition describe :: "u32 \<Rightarrow> string \<Rightarrow> u64 \<Rightarrow> u64 \<Rightarrow> string" where
  "describe node what a b =
     ''node '' @ to_string (unat node) @ '': '' @ what @ '' ('' @ to_string (unat a) @ '', '' @ to_string (unat b) @ '')''"

definition check_leader_completeness :: "u32 \<Rightarrow> u64 \<Rightarrow> Oracle \<Rightarrow> Oracle" where
  "check_leader_completeness node log_end o1 =
     (if log_end \<ge> or_committed_end o1 then o1
      else violation ''I1'' (describe node ''won an election without the committed prefix'' log_end (or_committed_end o1)) o1)"

definition record_leader :: "Term \<Rightarrow> NodeId \<Rightarrow> Oracle \<Rightarrow> Oracle" where
  "record_leader t node o1 =
     (let o1 = observe_term t o1
      in case or_leader_by_term o1 t of
           None \<Rightarrow> o1\<lparr>or_leader_by_term := (or_leader_by_term o1)(t \<mapsto> node), or_elections := or_elections o1 + 1\<rparr>
         | Some first \<Rightarrow>
             if first = node then o1
             else violation ''I6'' (''term '' @ to_string (unat t) @ '' has two leaders: node '' @ to_string (unat first) @
                                    '' and node '' @ to_string (unat node)) o1)"

definition payload_for :: "u64 \<Rightarrow> string" where
  "payload_for offset = resize 48 (CHR ''.'') (''r'' @ to_string (unat offset) @ ''-'')"

text \<open>\<^verbatim>\<open>Slice::from_string\<close>: the bytes of a string.\<close>

definition from_string :: "string \<Rightarrow> bytes" where
  "from_string s = map (\<lambda>c. of_nat (of_char c)) s"

section \<open>The workload of a node\<close>

record WorkloadConfig =
  wc_append_interval :: Nanos
  wc_append_jitter :: Nanos
  wc_records_per_batch :: u32
  wc_record_bytes :: u32
  wc_verify_tail_batches :: nat
  wc_raft_tick :: Nanos
  wc_election_timeout_ticks :: u32
  wc_election_timeout_jitter_ticks :: u32
  wc_heartbeat_timeout_ticks :: u32
  wc_fsync_hard_state :: bool
  wc_ack_on_local_append :: bool

record NodeWorkload =
  wl_node :: u32
  wl_dir :: string
  wl_port :: u16
  wl_peers :: "Peer list"
  wl_config :: WorkloadConfig
  wl_broker :: "Broker option"
  wl_builder :: BatchBuilder
  wl_running :: bool

definition NodeWorkload_new :: "u32 \<Rightarrow> string \<Rightarrow> u16 \<Rightarrow> Peer list \<Rightarrow> WorkloadConfig \<Rightarrow> NodeWorkload" where
  "NodeWorkload_new node dir port peers config =
     \<lparr>wl_node = node, wl_dir = dir, wl_port = port, wl_peers = peers, wl_config = config, wl_broker = None,
      wl_builder = BatchBuilder_new, wl_running = False\<rparr>"

text \<open>What a workload reaches beside the interfaces of its broker: the trace, the oracle, and the loop's timers.\<close>

record 'w WorkloadEnv = "'w Env" +
  we_record :: "EventTag \<Rightarrow> 'w \<Rightarrow> 'w"
  we_oracle :: "'w \<Rightarrow> Oracle"
  we_put_oracle :: "Oracle \<Rightarrow> 'w \<Rightarrow> 'w"
  we_append_after :: "Nanos \<Rightarrow> 'w \<Rightarrow> 'w"

definition on_oracle :: "('w, 'z) WorkloadEnv_scheme \<Rightarrow> (Oracle \<Rightarrow> Oracle) \<Rightarrow> 'w \<Rightarrow> 'w" where
  "on_oracle env f w = we_put_oracle env (f (we_oracle env w)) w"

definition note_event :: "('w, 'z) WorkloadEnv_scheme \<Rightarrow> EventKind \<Rightarrow> u32 \<Rightarrow> u64 \<Rightarrow> u64 \<Rightarrow> 'w \<Rightarrow> 'w" where
  "note_event env kind node a b = we_record env \<lparr>et_kind = kind, et_node = node, et_a = a, et_b = b\<rparr>"

subsection \<open>Watching\<close>

fun workload_note :: "('w, 'z) WorkloadEnv_scheme \<Rightarrow> u32 \<Rightarrow> Observation \<Rightarrow> 'w \<Rightarrow> 'w" where
  "workload_note env node (on_raft_recovered t voted_for) w =
     note_event env kRestart node 0 0 (note_event env kRaftRecover node t (ucast voted_for) (on_oracle env (observe_term t) w))"
| "workload_note env node (on_appended base_offset records) w = note_event env kAppend node base_offset (ucast records) w"
| "workload_note env node (on_fsynced next_off) w = note_event env kFsync node next_off 0 w"
| "workload_note env node (on_replicated next_off) w = note_event env kReplicate node next_off 0 w"
| "workload_note env node (on_truncated from_off) w = note_event env kTruncate node from_off 0 w"
| "workload_note env node (on_committed from_off to_off) w =
     fold (\<lambda>offset. note_event env kCommit node (of_nat offset) 0) [unat from_off..<unat to_off] (on_oracle env (record_commit to_off) w)"
| "workload_note env node (on_campaign t) w = note_event env kCampaign node t 0 (on_oracle env (observe_term t) w)"
| "workload_note env node (on_vote t candidate) w = note_event env kVote node t (ucast candidate) (on_oracle env (observe_term t) w)"
| "workload_note env node (on_became_leader t log_end) w =
     on_oracle env (\<lambda>o1. check_leader_completeness node log_end (record_leader t node o1))
       (note_event env EventKind_kLeader node t 0 (on_oracle env (observe_term t) w))"
| "workload_note env node (on_stepped_down t leader) w = note_event env kStepDown node t (ucast leader) (on_oracle env (observe_term t) w)"
| "workload_note env node (on_hard_state_persisted t voted_for) w = note_event env kRaftPersist node t (ucast voted_for) w"
| "workload_note env node (on_protocol_error what a b) w = on_oracle env (violation ''FRAMING'' (describe node what a b)) w"

text \<open>The records of one batch against what was written: the offset of the first that differs, or where the walk stopped.\<close>

fun check_records :: "u64 \<Rightarrow> u64 \<Rightarrow> bytes list \<Rightarrow> u64 \<Rightarrow> u64 + u64" where
  "check_records offset verifiable [] at_off = Inr at_off"
| "check_records offset verifiable (val # vals) at_off =
     (if at_off \<ge> verifiable then Inr at_off
      else if at_off \<ge> offset \<and> val \<noteq> from_string (payload_for at_off) then Inl at_off
      else check_records offset verifiable vals (at_off + 1))"

definition kVerifyBufferBytes :: nat where
  "kVerifyBufferBytes = 64 * 1024"

partial_function (option) verify_loop ::
  "('w, 'z) WorkloadEnv_scheme \<Rightarrow> u32 \<Rightarrow> Log \<Rightarrow> u64 \<Rightarrow> u64 \<Rightarrow> 'w \<Rightarrow> 'w option" where
  "verify_loop env node lg verifiable offset w =
     (if offset \<ge> verifiable then Some w
      else do {
        (got, w) \<leftarrow> Log_read (en_disk env) lg offset kVerifyBufferBytes w;
        (case got of
           Inl e \<Rightarrow>
             Some (if e = kIoError then w
                   else on_oracle env (violation ''I1'' (describe node ''committed offset is unreadable after recovery'' offset verifiable)) w)
         | Inr framed \<Rightarrow>
             if framed = []
             then Some (on_oracle env (violation ''I1'' (describe node ''committed offset is unreadable after recovery'' offset verifiable)) w)
             else (case decode_header framed of
                     Inl e \<Rightarrow>
                       Some (on_oracle env (violation ''I1'' (describe node ''committed offset holds an undecodable batch'' offset 0)) w)
                   | Inr header \<Rightarrow>
                       (case check_records offset verifiable (iterate_records (RecordIterator_new framed)) (bh_base_offset header) of
                          Inl at_off \<Rightarrow>
                            Some (on_oracle env (violation ''I1'' (describe node ''committed record holds bytes never written'' at_off 0)) w)
                        | Inr at_off \<Rightarrow>
                            if at_off \<le> offset then Some w else verify_loop env node lg verifiable at_off w)))
      })"

definition verify_recovery :: "('w, 'z) WorkloadEnv_scheme \<Rightarrow> u32 \<Rightarrow> WorkloadConfig \<Rightarrow> Broker \<Rightarrow> 'w \<Rightarrow> 'w option" where
  "verify_recovery env node config b w =
     (case bk_log b of
        None \<Rightarrow> Some w
      | Some lg \<Rightarrow>
          let verifiable = min (or_committed_end (we_oracle env w)) (lg_next_offset lg)
          in if verifiable = 0 then Some w
             else let window = of_nat (wc_verify_tail_batches config) * ucast (max (wc_records_per_batch config) 1);
                      offset = (if verifiable > window then verifiable - window else 0);
                      offset = (if offset < lg_start_offset lg then lg_start_offset lg else offset)
                  in verify_loop env node lg verifiable offset w)"

text \<open>\<^verbatim>\<open>on_log_recovered\<close> and the other methods: the workload as the observer of its broker.\<close>

definition workload_observer :: "('w, 'z) WorkloadEnv_scheme \<Rightarrow> u32 \<Rightarrow> WorkloadConfig \<Rightarrow> 'w BrokerObserver" where
  "workload_observer env node config =
     \<lparr>ob_log_recovered = (\<lambda>b next_off truncated w. verify_recovery env node config b (note_event env kRecovered node next_off truncated w)),
      ob_note = workload_note env node\<rparr>"

subsection \<open>Starting and appending\<close>

definition broker_config_of :: "NodeWorkload \<Rightarrow> BrokerConfig" where
  "broker_config_of wl =
     \<lparr>bc_id = wl_node wl, bc_data_dir = wl_dir wl, bc_port = wl_port wl, bc_peers = wl_peers wl,
      bc_tick_interval = wc_raft_tick (wl_config wl),
      bc_election_timeout_ticks = wc_election_timeout_ticks (wl_config wl),
      bc_election_timeout_jitter_ticks = wc_election_timeout_jitter_ticks (wl_config wl),
      bc_heartbeat_timeout_ticks = wc_heartbeat_timeout_ticks (wl_config wl),
      bc_segment_max_bytes = 32 * 1024, bc_fsync_hard_state = wc_fsync_hard_state (wl_config wl),
      bc_ack_on_local_append = wc_ack_on_local_append (wl_config wl)\<rparr>"

definition schedule_append :: "('w, 'z) WorkloadEnv_scheme \<Rightarrow> NodeWorkload \<Rightarrow> 'w \<Rightarrow> 'w option" where
  "schedule_append env wl w =
     (if \<not> wl_running wl then Some w
      else do {
        (jitter, w) \<leftarrow> next_in_range (en_random env) 0 (wc_append_jitter (wl_config wl)) w;
        Some (we_append_after env (wc_append_interval (wl_config wl) + jitter) w)
      })"

definition NodeWorkload_start ::
  "('w, 'z) WorkloadEnv_scheme \<Rightarrow> NodeWorkload \<Rightarrow> 'w \<Rightarrow> (status \<times> NodeWorkload \<times> 'w) option" where
  "NodeWorkload_start env wl w = do {
     (started, b, w) \<leftarrow> Broker_start (Env.truncate env) (Broker_new (broker_config_of wl)) w;
     (case started of
        Inl e \<Rightarrow> Some (fail e, wl\<lparr>wl_broker := None\<rparr>, Broker_destroy (Env.truncate env) b w)
      | Inr _ \<Rightarrow>
          let wl = wl\<lparr>wl_broker := Some b\<rparr>
          in if \<not> Oracle_ok (we_oracle env w) then Some (Inr (), wl, w)
             else do {
               let wl = wl\<lparr>wl_running := True\<rparr>;
               w \<leftarrow> schedule_append env wl w;
               Some (Inr (), wl, w)
             })
   }"

definition NodeWorkload_appends :: "NodeWorkload \<Rightarrow> u64" where
  "NodeWorkload_appends wl = (case wl_broker wl of None \<Rightarrow> 0 | Some b \<Rightarrow> bk_appends b)"

definition raft_messages_sent :: "NodeWorkload \<Rightarrow> u64" where
  "raft_messages_sent wl = (case wl_broker wl of None \<Rightarrow> 0 | Some b \<Rightarrow> bk_raft_sent b)"

definition hard_state_writes :: "NodeWorkload \<Rightarrow> u64" where
  "hard_state_writes wl = (case wl_broker wl of None \<Rightarrow> 0 | Some b \<Rightarrow> bk_hard_state_writes b)"

definition NodeWorkload_ticks :: "NodeWorkload \<Rightarrow> u64" where
  "NodeWorkload_ticks wl = (case wl_broker wl of None \<Rightarrow> 0 | Some b \<Rightarrow> bk_ticks b)"

definition NodeWorkload_is_leader :: "NodeWorkload \<Rightarrow> bool" where
  "NodeWorkload_is_leader wl = (case wl_broker wl of None \<Rightarrow> False | Some b \<Rightarrow> Broker_is_leader b)"

text \<open>The records of one append: \<open>False\<close> when the builder refuses one.\<close>

fun build_batch :: "u64 \<Rightarrow> nat \<Rightarrow> BatchBuilder \<Rightarrow> bool \<times> BatchBuilder" where
  "build_batch offset 0 builder = (True, builder)"
| "build_batch offset (Suc n) builder =
     (case BatchBuilder_add_record (from_string (payload_for offset)) builder of
        (Inl _, builder) \<Rightarrow> (False, builder)
      | (Inr _, builder) \<Rightarrow> build_batch (offset + 1) n builder)"

definition do_append :: "('w, 'z) WorkloadEnv_scheme \<Rightarrow> NodeWorkload \<Rightarrow> 'w \<Rightarrow> (NodeWorkload \<times> 'w) option" where
  "do_append env wl w =
     (case wl_broker wl of
        None \<Rightarrow> Some (wl, w)
      | Some b \<Rightarrow>
          if \<not> wl_running wl then Some (wl, w)
          else case bk_log b of
            None \<Rightarrow> Some (wl, w)
          | Some lg \<Rightarrow>
              (case build_batch (lg_next_offset lg) (unat (wc_records_per_batch (wl_config wl))) (BatchBuilder_clear (wl_builder wl)) of
                 (False, builder) \<Rightarrow> do {
                   let wl = wl\<lparr>wl_builder := builder\<rparr>;
                   w \<leftarrow> schedule_append env wl w;
                   Some (wl, w)
                 }
               | (True, builder) \<Rightarrow> do {
                   let committed_before = or_committed_end (we_oracle env w);
                   (assigned, builder, b, w) \<leftarrow> propose (Env.truncate env) builder b w;
                   let wl = wl\<lparr>wl_builder := builder, wl_broker := Some b\<rparr>;
                   if (case assigned of Inl _ \<Rightarrow> False | Inr off \<Rightarrow> off < committed_before)
                   then Some (wl, on_oracle env (violation ''I2'' (describe (wl_node wl) ''offset went backwards after recovery''
                                                   (case assigned of Inl _ \<Rightarrow> 0 | Inr off \<Rightarrow> off) committed_before)) w)
                   else do {
                     w \<leftarrow> schedule_append env wl w;
                     Some (wl, w)
                   }
                 }))"

section \<open>Payloads\<close>

definition number_of :: "string \<Rightarrow> nat" where
  "number_of s = foldl (\<lambda>a c. 10 * a + (of_char c - 48)) 0 s"

lemma of_digit_char: "d < 10 \<Longrightarrow> of_char (digit_char d) = 48 + d"
  by (simp add: digit_char_def of_char_of)

lemma number_of_to_string: "number_of (to_string n) = n"
proof (induction n rule: to_string.induct)
  case (1 n)
  then show ?case by (subst to_string.simps) (simp add: number_of_def of_digit_char)
qed

lemma to_string_digits: "c \<in> set (to_string n) \<Longrightarrow> c \<noteq> CHR ''-''"
proof (induction n rule: to_string.induct)
  case (1 n)
  have "digit_char d \<noteq> CHR ''-''" if "d < 10" for d
  proof
    assume "digit_char d = CHR ''-''"
    then show False using arg_cong [of _ _ "of_char :: char \<Rightarrow> nat"] of_digit_char [OF that] by fastforce
  qed
  note digit = this
  show ?case
  proof (cases "n < 10")
    case True
    then show ?thesis using 1(2) digit [of n] by (subst (asm) to_string.simps) auto
  next
    case False
    then have "c \<in> set (to_string (n div 10)) \<or> c = digit_char (n mod 10)" using 1(2) by (subst (asm) to_string.simps) auto
    then show ?thesis using 1(1) [OF False] digit [of "n mod 10"] by auto
  qed
qed

lemma length_to_string: "n < 10 ^ Suc k \<Longrightarrow> length (to_string n) \<le> Suc k"
proof (induction k arbitrary: n)
  case (Suc k)
  have "n div 10 < 10 ^ Suc k" using Suc.prems by (simp add: less_mult_imp_div_less mult.commute)
  then show ?case using Suc.IH [of "n div 10"] by (subst to_string.simps) simp
qed (simp add: to_string.simps)

lemma payload_shape:
  obtains n where "payload_for offset = ''r'' @ to_string (unat offset) @ ''-'' @ replicate n (CHR ''.'')"
proof -
  have "unat offset < 2 ^ 64" using unsigned_less [of offset, where ?'a = nat] by simp
  also have "(2 :: nat) ^ 64 < 10 ^ Suc 19" by simp
  finally have "length (to_string (unat offset)) \<le> 20" using length_to_string [of "unat offset" 19] by simp
  then show thesis using that by (simp add: payload_for_def resize_def)
qed

lemma payload_injective: "payload_for a = payload_for b \<Longrightarrow> a = b"
proof -
  assume same: "payload_for a = payload_for b"
  have digits: "takeWhile (\<lambda>c. c \<noteq> CHR ''-'') (tl (payload_for x)) = to_string (unat x)" for x
  proof -
    obtain n where "payload_for x = ''r'' @ to_string (unat x) @ ''-'' @ replicate n (CHR ''.'')" by (rule payload_shape)
    then show ?thesis using to_string_digits [of _ "unat x"] by (simp add: takeWhile_append2)
  qed
  have "unat a = unat b" using same digits [of a] digits [of b] number_of_to_string by metis
  then show "a = b" by (simp add: word_unat_eq_iff)
qed

section \<open>Leaders\<close>

text \<open>The claims on record: each term with the node that claimed it first.\<close>

definition leaders_known :: "(Term \<times> NodeId) set \<Rightarrow> Oracle \<Rightarrow> bool" where
  "leaders_known R o1 \<longleftrightarrow>
     dom (or_leader_by_term o1) = fst ` R \<and> (\<forall>t i. or_leader_by_term o1 t = Some i \<longrightarrow> (t, i) \<in> R) \<and>
     (Oracle_ok o1 \<longleftrightarrow> single_valued R) \<and> or_elections o1 = of_nat (card (fst ` R))"

lemma observe_term_simps [simp]:
  "or_leader_by_term (observe_term t o1) = or_leader_by_term o1" "or_elections (observe_term t o1) = or_elections o1"
  "or_invariant (observe_term t o1) = or_invariant o1"
  by (simp_all add: observe_term_def)

lemma violation_simps [simp]:
  "or_leader_by_term (violation which detail o1) = or_leader_by_term o1" "or_elections (violation which detail o1) = or_elections o1"
  "or_invariant (violation which detail o1) \<noteq> None"
  by (simp_all add: violation_def)

lemma leaders_known_record:
  assumes known: "leaders_known R o1" and fin: "finite R"
  shows "leaders_known (insert (t, i) R) (record_leader t i o1)"
proof (cases "or_leader_by_term o1 t")
  case None
  then have fresh: "t \<notin> fst ` R" using known by (auto simp: leaders_known_def)
  then have "(t, j) \<notin> R" for j by force
  then have sv: "single_valued (insert (t, i) R) \<longleftrightarrow> single_valued R" unfolding single_valued_def by blast
  have "card (fst ` insert (t, i) R) = Suc (card (fst ` R))" using fin fresh by simp
  moreover have "\<forall>u j. ((or_leader_by_term o1)(t \<mapsto> i)) u = Some j \<longrightarrow> (u, j) \<in> insert (t, i) R"
    using known by (simp add: leaders_known_def)
  ultimately show ?thesis
    using None known sv by (simp add: leaders_known_def record_leader_def Oracle_ok_def del: fun_upd_apply)
next
  case (Some first)
  then have mem: "(t, first) \<in> R" using known by (simp add: leaders_known_def)
  then have ids: "fst ` insert (t, i) R = fst ` R" by force
  show ?thesis
  proof (cases "first = i")
    case True
    then show ?thesis using Some known mem by (simp add: leaders_known_def record_leader_def Oracle_ok_def insert_absorb)
  next
    case False
    then have "\<not> single_valued (insert (t, i) R)" using mem unfolding single_valued_def by blast
    then show ?thesis
      using Some False known ids by (simp add: leaders_known_def record_leader_def Oracle_ok_def Let_def del: not_None_eq)
  qed
qed

lemma leaders_recorded:
  "leaders_known (set claims) (fold (\<lambda>(t, node). record_leader t node) claims (Oracle_new count))"
proof (induction claims rule: rev_induct)
  case Nil
  show ?case by (simp add: leaders_known_def Oracle_new_def Oracle_ok_def single_valued_def)
next
  case (snoc c cs)
  then show ?case using leaders_known_record [OF snoc, of "fst c" "snd c"] by (simp add: case_prod_beta)
qed

text \<open>C40. The oracle reports two leaders of one term exactly when two different nodes claimed it. Whatever claims
  are recorded in whatever order, the run is still clean if and only if every term was claimed by one node;
  it then counts one election for each term that was won, and remembers who won it.\<close>

theorem oracle_leaders_exact:
  "(Oracle_ok (fold (\<lambda>(t, node). record_leader t node) claims (Oracle_new count)) \<longleftrightarrow> single_valued (set claims)) \<and>
   or_elections (fold (\<lambda>(t, node). record_leader t node) claims (Oracle_new count)) = of_nat (card (fst ` set claims))"
  using leaders_recorded [of claims count] by (simp add: leaders_known_def)

end
