(* ===== verification/Event_Loop.thy ===== *)
theory Event_Loop
  imports Heap_Queue Base "HOL-Library.Monad_Syntax"
begin

text \<open>
  \<^verbatim>\<open>src/src/runtime/event_loop.h\<close> and \<^verbatim>\<open>event_loop.cpp\<close>: the callback loop over a clock and
  a network. A task is a value of the type \<open>'t\<close>. Running one acts on a state \<open>'s\<close> that holds the loop
  among other things, so the operations that run tasks are given the owner of that state: how to reach
  the loop in it, the clock, the poll of the network, and what a task does. The lemmas show that the
  timers fire in the order of their deadline and of their number, and that a round over the expired
  timers ends when no task arms a timer that is due at once.
\<close>

section \<open>State (\<^verbatim>\<open>event_loop.h\<close>)\<close>

type_synonym TimerId = u64

definition kInvalidTimer :: TimerId where
  "kInvalidTimer = 0"

record 't Timer =
  tm_deadline :: Nanos
  tm_id :: TimerId
  tm_task :: 't

record 't EventLoop =
  el_timers :: "'t Timer list"
  el_pending :: "'t list"
  el_draining :: "'t list"
  el_next_timer_id :: TimerId
  el_running :: bool

definition EventLoop_new :: "'t EventLoop" where
  "EventLoop_new = \<lparr>el_timers = [], el_pending = [], el_draining = [], el_next_timer_id = 1, el_running = False\<rparr>"

definition Timer_LaterFirst :: "'t Timer \<Rightarrow> 't Timer \<Rightarrow> bool" where
  "Timer_LaterFirst a b =
     (if tm_deadline a \<noteq> tm_deadline b then sint (tm_deadline a) > sint (tm_deadline b) else tm_id a > tm_id b)"

text \<open>The clock, the network and the meaning of a task, over the state the loop is part of.\<close>

record ('t, 's) loop_owner =
  lh_get :: "'s \<Rightarrow> 't EventLoop"
  lh_put :: "'t EventLoop \<Rightarrow> 's \<Rightarrow> 's"
  lh_now :: "'s \<Rightarrow> Nanos"
  lh_poll :: "Nanos \<Rightarrow> 's \<Rightarrow> (nat \<times> 's) option"
  lh_task :: "'t \<Rightarrow> 's \<Rightarrow> 's option"

section \<open>Operations (\<^verbatim>\<open>event_loop.cpp\<close>)\<close>

definition EventLoop_post :: "'t \<Rightarrow> 't EventLoop \<Rightarrow> 't EventLoop" where
  "EventLoop_post task el = el\<lparr>el_pending := el_pending el @ [task]\<rparr>"

definition add_timer_after :: "Nanos \<Rightarrow> Nanos \<Rightarrow> 't \<Rightarrow> 't EventLoop \<Rightarrow> TimerId \<times> 't EventLoop" where
  "add_timer_after now delay task el =
     (let tid = el_next_timer_id el;
          tm = \<lparr>tm_deadline = now + (if sint delay > 0 then delay else 0), tm_id = tid, tm_task = task\<rparr>
      in (tid, el\<lparr>el_next_timer_id := tid + 1, el_timers := push_heap Timer_LaterFirst tm (el_timers el)\<rparr>))"

fun erase_timer :: "TimerId \<Rightarrow> 't Timer list \<Rightarrow> 't Timer list option" where
  "erase_timer tid [] = None"
| "erase_timer tid (t # ts) = (if tm_id t = tid then Some ts else map_option ((#) t) (erase_timer tid ts))"

definition cancel_timer :: "TimerId \<Rightarrow> 't EventLoop \<Rightarrow> bool \<times> 't EventLoop" where
  "cancel_timer tid el =
     (case erase_timer tid (el_timers el) of
        None \<Rightarrow> (False, el)
      | Some ts \<Rightarrow> (True, el\<lparr>el_timers := make_heap Timer_LaterFirst ts\<rparr>))"

definition EventLoop_next_deadline :: "'t EventLoop \<Rightarrow> Nanos" where
  "EventLoop_next_deadline el = (case el_timers el of [] \<Rightarrow> kNoTimeout | t # _ \<Rightarrow> tm_deadline t)"

definition pending_timer_count :: "'t EventLoop \<Rightarrow> nat" where
  "pending_timer_count el = length (el_timers el)"

definition has_pending_tasks :: "'t EventLoop \<Rightarrow> bool" where
  "has_pending_tasks el \<longleftrightarrow> el_pending el \<noteq> []"

fun run_tasks :: "('t, 's) loop_owner \<Rightarrow> 't list \<Rightarrow> 's \<Rightarrow> 's option" where
  "run_tasks own [] s = Some s"
| "run_tasks own (t # ts) s = do { s \<leftarrow> lh_task own t s; run_tasks own ts s }"

definition drain_pending :: "('t, 's) loop_owner \<Rightarrow> 's \<Rightarrow> (nat \<times> 's) option" where
  "drain_pending own s =
     (let el = lh_get own s
      in if el_pending el = [] then Some (0, s)
         else do {
           let batch = el_pending el;
           s \<leftarrow> run_tasks own batch (lh_put own (el\<lparr>el_draining := batch, el_pending := []\<rparr>) s);
           let count = length (el_draining (lh_get own s));
           Some (count, lh_put own ((lh_get own s)\<lparr>el_draining := []\<rparr>) s)
         })"

text \<open>The loop over the expired timers: the clock was read once, before it.\<close>

partial_function (option) fire_loop :: "('t, 's) loop_owner \<Rightarrow> Nanos \<Rightarrow> nat \<Rightarrow> 's \<Rightarrow> (nat \<times> 's) option" where
  "fire_loop own now fired s =
     (case el_timers (lh_get own s) of
        [] \<Rightarrow> Some (fired, s)
      | t # ts \<Rightarrow>
          if sint (tm_deadline t) > sint now then Some (fired, s)
          else do {
            s \<leftarrow> lh_task own (tm_task t) (lh_put own ((lh_get own s)\<lparr>el_timers := ts\<rparr>) s);
            fire_loop own now (fired + 1) s
          })"

definition fire_expired_timers :: "('t, 's) loop_owner \<Rightarrow> 's \<Rightarrow> (nat \<times> 's) option" where
  "fire_expired_timers own s = fire_loop own (lh_now own s) 0 s"

text \<open>How long the poll may block.\<close>

definition poll_timeout :: "('t, 's) loop_owner \<Rightarrow> Nanos \<Rightarrow> 's \<Rightarrow> Nanos" where
  "poll_timeout own max_block s =
     (if has_pending_tasks (lh_get own s) then 0
      else let deadline = EventLoop_next_deadline (lh_get own s)
           in if deadline \<noteq> kNoTimeout
              then let until = deadline - lh_now own s;
                       capped = (if sint until > 0 then until else 0)
                   in if max_block = kNoTimeout then capped
                      else if sint capped < sint max_block then capped else max_block
              else max_block)"

definition run_once :: "('t, 's) loop_owner \<Rightarrow> Nanos \<Rightarrow> 's \<Rightarrow> (nat \<times> 's) option" where
  "run_once own max_block s = do {
     (work, s) \<leftarrow> drain_pending own s;
     (polled, s) \<leftarrow> lh_poll own (poll_timeout own max_block s) s;
     (fired, s) \<leftarrow> fire_expired_timers own s;
     Some (work + polled + fired, s)
   }"

definition EventLoop_stop :: "'t EventLoop \<Rightarrow> 't EventLoop" where
  "EventLoop_stop el = el\<lparr>el_running := False\<rparr>"

partial_function (option) run_while :: "('t, 's) loop_owner \<Rightarrow> 's \<Rightarrow> 's option" where
  "run_while own s =
     (if \<not> el_running (lh_get own s) then Some s
      else do { (_, s) \<leftarrow> run_once own kNoTimeout s; run_while own s })"

definition EventLoop_run :: "('t, 's) loop_owner \<Rightarrow> 's \<Rightarrow> 's option" where
  "EventLoop_run own s = run_while own (lh_put own ((lh_get own s)\<lparr>el_running := True\<rparr>) s)"

section \<open>The order of timers\<close>

lemma sint_apart: "a \<noteq> b \<Longrightarrow> sint (a :: i64) < sint b \<or> sint b < sint a"
  using signed_word_eqI [of a b, where ?'a = int] by force

interpretation timers: fire_order Timer_LaterFirst tm_id
proof unfold_locales
  show "tm_id a \<noteq> tm_id b \<Longrightarrow> Timer_LaterFirst a b \<or> Timer_LaterFirst b a" for a b :: "'a Timer"
    using sint_apart [of "tm_deadline a" "tm_deadline b"] by (auto simp: Timer_LaterFirst_def)
qed (auto simp: Timer_LaterFirst_def split: if_splits)

definition loop_ok :: "'t EventLoop \<Rightarrow> bool" where
  "loop_ok el \<longleftrightarrow> timers.in_order (el_timers el) \<and> (\<forall>t \<in> set (el_timers el). tm_id t < el_next_timer_id el)"

lemma loop_ok_new [simp]: "loop_ok EventLoop_new"
  by (simp add: loop_ok_def EventLoop_new_def timers.in_order_def)

lemma loop_ok_add:
  assumes "loop_ok el" and "el_next_timer_id el + 1 \<noteq> 0"
  shows "loop_ok (snd (add_timer_after now delay task el))"
proof -
  have lt: "el_next_timer_id el < el_next_timer_id el + 1"
    using unatSuc [of "el_next_timer_id el"] assms(2) by (simp add: word_less_nat_alt add.commute)
  have "el_next_timer_id el \<notin> tm_id ` set (el_timers el)" using assms(1) by (force simp: loop_ok_def)
  then show ?thesis
    using assms(1) lt timers.push_in_order [of "el_timers el"]
    by (force simp: loop_ok_def add_timer_after_def Let_def intro: less_trans)
qed

lemma erase_in_order:
  "erase_timer tid ts = Some ts' \<Longrightarrow> timers.in_order ts \<Longrightarrow> timers.in_order ts' \<and> set ts' \<subseteq> set ts"
proof (induction ts arbitrary: ts')
  case (Cons t ts)
  show ?case
  proof (cases "tm_id t = tid")
    case True
    then show ?thesis using Cons.prems by (auto simp: timers.in_order_def)
  next
    case False
    then obtain us where us: "erase_timer tid ts = Some us" "ts' = t # us" using Cons.prems by auto
    then show ?thesis using Cons.IH [OF us(1)] Cons.prems by (auto simp: timers.in_order_def)
  qed
qed simp

lemma loop_ok_cancel: "loop_ok el \<Longrightarrow> loop_ok (snd (cancel_timer tid el))"
proof (cases "erase_timer tid (el_timers el)")
  case (Some ts)
  assume ok: "loop_ok el"
  then have "timers.in_order ts \<and> set ts \<subseteq> set (el_timers el)" using erase_in_order [OF Some] by (simp add: loop_ok_def)
  then show ?thesis using ok Some timers.make_heap_in_order [of ts] by (auto simp: loop_ok_def cancel_timer_def)
qed (simp add: cancel_timer_def)

section \<open>A round over the expired timers\<close>

text \<open>The laws of an owner: the loop can be read and replaced in every state it considers sound.\<close>

locale loop_state =
  fixes own :: "('t, 's) loop_owner" and sound :: "'s \<Rightarrow> bool"
  assumes put_sound: "sound s \<Longrightarrow> sound (lh_put own el s)"
    and get_put: "sound s \<Longrightarrow> lh_get own (lh_put own el s) = el"
begin

definition due :: "Nanos \<Rightarrow> 's \<Rightarrow> 't Timer list" where
  "due now s = filter (\<lambda>t. sint (tm_deadline t) \<le> sint now) (el_timers (lh_get own s))"

text \<open>A task that returns and leaves the timers that are due as they were: it arms none that is due already.\<close>

definition patient :: "Nanos \<Rightarrow> bool" where
  "patient now \<longleftrightarrow>
     (\<forall>task s. sound s \<longrightarrow> timers.in_order (el_timers (lh_get own s)) \<longrightarrow>
        (\<exists>s'. lh_task own task s = Some s' \<and> sound s' \<and> timers.in_order (el_timers (lh_get own s')) \<and> due now s' = due now s))"

lemma due_first:
  assumes "timers.in_order ts" and "filter (\<lambda>t. sint (tm_deadline t) \<le> sint now) ts = d # ds"
  obtains us where "ts = d # us" "filter (\<lambda>t. sint (tm_deadline t) \<le> sint now) us = ds" "sint (tm_deadline d) \<le> sint now"
proof (cases ts)
  case (Cons t us)
  have "sint (tm_deadline t) \<le> sint now"
  proof (rule ccontr)
    assume late: "\<not> sint (tm_deadline t) \<le> sint now"
    have "\<not> sint (tm_deadline u) \<le> sint now" if "u \<in> set us" for u
      using assms(1) that late unfolding Cons timers.in_order_def by (auto simp: Timer_LaterFirst_def split: if_splits)
    then have "filter (\<lambda>t. sint (tm_deadline t) \<le> sint now) us = []" by (simp add: filter_empty_conv)
    then show False using assms(2) Cons late by simp
  qed
  then show thesis using that [of us] assms(2) Cons by auto
qed (use assms(2) in simp)

lemma fire_loop_done:
  "due now s = [] \<Longrightarrow> fire_loop own now fired s = Some (fired, s)"
  by (subst fire_loop.simps) (auto simp: due_def filter_empty_conv split: list.splits)

text \<open>The round runs the tasks of the timers that were due, in their order, and none is left.\<close>

lemma fire_loop_returns:
  assumes "patient now" and "sound s" and "timers.in_order (el_timers (lh_get own s))" and "due now s = ds"
  shows "\<exists>s'. fire_loop own now fired s = Some (fired + length ds, s') \<and> sound s' \<and> due now s' = []"
  using assms(2-4)
proof (induction ds arbitrary: s fired)
  case Nil
  then show ?case using fire_loop_done by auto
next
  case (Cons d ds)
  obtain us where us: "el_timers (lh_get own s) = d # us" "filter (\<lambda>t. sint (tm_deadline t) \<le> sint now) us = ds"
      "sint (tm_deadline d) \<le> sint now"
    using due_first [OF Cons.prems(2)] Cons.prems(3) by (metis due_def)
  let ?s = "lh_put own ((lh_get own s)\<lparr>el_timers := us\<rparr>) s"
  have "timers.in_order us" using Cons.prems(2) us(1) timers.in_order_tl by metis
  then have "timers.in_order (el_timers (lh_get own ?s))" using get_put [OF Cons.prems(1)] by simp
  then obtain s1 where s1: "lh_task own (tm_task d) ?s = Some s1" "sound s1" "timers.in_order (el_timers (lh_get own s1))"
      "due now s1 = due now ?s"
    using assms(1) put_sound [OF Cons.prems(1)] unfolding patient_def by blast
  have "due now s1 = ds" using s1(4) us(2) get_put [OF Cons.prems(1)] by (simp add: due_def)
  from Cons.IH [OF s1(2,3) this, of "fired + 1"] show ?case
    using us s1(1) by (subst fire_loop.simps) simp
qed

end

end
