(* ===== verification/Simulation.thy ===== *)
theory Simulation
  imports Workload Event_Loop Sim_Network Sim_Disk
begin

text \<open>
  \<^verbatim>\<open>src/src/sim/simulation.h\<close> and \<^verbatim>\<open>simulation.cpp\<close>: one run of one seed. Everything the nodes
  share is one state: the wires with the scheduler and the generator, the oracle, and the machines with
  their disks, clocks, loops and workloads. The interfaces a node is given are the simulated ones, acting
  on their part of that state, so a run executes the broker of \<open>Broker\<close> on the disk of \<open>Sim_Disk\<close>, the
  network of \<open>Sim_Network\<close> and the loop of \<open>Event_Loop\<close>. The theorem shows that the clock never jumps
  over anything.
\<close>

section \<open>State (\<^verbatim>\<open>simulation.h\<close>)\<close>

record FaultConfig =
  fc_disk :: DiskFaultConfig
  fc_network :: NetworkFaultConfig
  fc_crash_interval :: Nanos
  fc_restart_delay_min :: Nanos
  fc_restart_delay_max :: Nanos
  fc_partition_interval :: Nanos
  fc_partition_duration_min :: Nanos
  fc_partition_duration_max :: Nanos
  fc_asymmetric_partition_probability :: double
  fc_clock_jump_interval :: Nanos
  fc_clock_jump_max_ms :: i64
  fc_corruption_interval :: Nanos

record SimulationConfig =
  sf_seed :: u64
  sf_node_count :: u32
  sf_duration :: Nanos
  sf_faults :: FaultConfig
  sf_workload :: WorkloadConfig
  sf_capture_trace :: bool
  sf_max_events :: u64

record SimulationResult =
  rs_seed :: u64
  rs_trace_hash :: u64
  rs_trace_events :: u64
  rs_scheduler_events :: u64
  rs_simulated_time :: Nanos
  rs_node_count :: u32
  rs_records_acked :: u64
  rs_appends :: u64
  rs_ticks_per_node :: "u64 list"
  rs_raft_messages :: u64
  rs_hard_state_writes :: u64
  rs_elections :: u64
  rs_highest_term :: u64
  rs_leaders_at_end :: u32
  rs_longest_leaderless :: Nanos
  rs_leaderless_gaps :: "Nanos list"
  rs_crashes :: u64
  rs_partitions :: u64
  rs_bytes_lost_to_crashes :: u64
  rs_bytes_delivered :: u64
  rs_connections_reset :: u64
  rs_ok :: bool
  rs_invariant :: "string option"
  rs_detail :: string
  rs_tail :: "TraceEvent list"

text \<open>The settings a run has when the caller changes none.\<close>

definition NetworkFaultConfig_default :: NetworkFaultConfig where
  "NetworkFaultConfig_default =
     \<lparr>nf_min_latency = micros 50, nf_max_latency = millis 2, nf_partial_write_probability = round_double (1 / 10),
      nf_partition_reset_delay = millis 50, nf_send_window_bytes = 64 * 1024\<rparr>"

definition DiskFaultConfig_default :: DiskFaultConfig where
  "DiskFaultConfig_default =
     \<lparr>torn_write_probability = round_double (15 / 100), keep_unflushed_probability = round_double (3 / 10),
      io_error_probability = 0\<rparr>"

definition WorkloadConfig_default :: WorkloadConfig where
  "WorkloadConfig_default =
     \<lparr>wc_append_interval = millis 40, wc_append_jitter = millis 20, wc_records_per_batch = 2, wc_record_bytes = 48,
      wc_verify_tail_batches = 32, wc_raft_tick = millis 10, wc_election_timeout_ticks = 15,
      wc_election_timeout_jitter_ticks = 15, wc_heartbeat_timeout_ticks = 5, wc_fsync_hard_state = True,
      wc_ack_on_local_append = False\<rparr>"

definition FaultConfig_default :: FaultConfig where
  "FaultConfig_default =
     \<lparr>fc_disk = DiskFaultConfig_default, fc_network = NetworkFaultConfig_default, fc_crash_interval = seconds 20,
      fc_restart_delay_min = millis 50, fc_restart_delay_max = seconds 3, fc_partition_interval = seconds 30,
      fc_partition_duration_min = millis 200, fc_partition_duration_max = seconds 5,
      fc_asymmetric_partition_probability = round_double (35 / 100), fc_clock_jump_interval = seconds 90,
      fc_clock_jump_max_ms = 5000, fc_corruption_interval = 0\<rparr>"

definition SimulationConfig_default :: SimulationConfig where
  "SimulationConfig_default =
     \<lparr>sf_seed = 1, sf_node_count = 3, sf_duration = seconds 60, sf_faults = FaultConfig_default,
      sf_workload = WorkloadConfig_default, sf_capture_trace = False, sf_max_events = 0\<rparr>"

text \<open>The tasks a node gives its loop, and the callbacks the simulation gives the scheduler.\<close>

datatype LoopTask = OnTick | DoAppend

datatype SimCallback =
    Restart u32
  | CrashNode u32
  | StartPartition
  | HealPartition u32 u32 bool
  | JumpClock

record SimNode =
  sn_id :: u32
  sn_dir :: string
  sn_port :: u16
  sn_disk :: SimDisk
  sn_clock :: SimClock
  sn_loop :: "LoopTask EventLoop option"
  sn_workload :: "NodeWorkload option"
  sn_up :: bool

record Simulation =
  sm_config :: SimulationConfig
  sm_wires :: "(SimCallback, SeededRandom) Wires"
  sm_oracle :: Oracle
  sm_nodes :: "SimNode list"
  sm_crashes :: u64
  sm_partitions :: u64
  sm_raft_messages :: u64
  sm_hard_state_writes :: u64

definition kServicePort :: u16 where
  "kServicePort = 7000"

definition kMaxDrainIterations :: nat where
  "kMaxDrainIterations = 64"

definition kMaxEventsPerInstant :: nat where
  "kMaxEventsPerInstant = 100000"

definition node_name :: "u32 \<Rightarrow> string" where
  "node_name node = ''n'' @ to_string (unat node)"

section \<open>Reaching the parts\<close>

text \<open>The interfaces of a part of the state as interfaces of the whole.\<close>

definition focus :: "('w \<Rightarrow> 'd) \<Rightarrow> ('d \<Rightarrow> 'w \<Rightarrow> 'w) \<Rightarrow> ('d \<Rightarrow> 'a \<times> 'd) \<Rightarrow> 'w \<Rightarrow> 'a \<times> 'w" where
  "focus get put f w = (case f (get w) of (x, d) \<Rightarrow> (x, put d w))"

definition focus_option ::
  "('w \<Rightarrow> 'd) \<Rightarrow> ('d \<Rightarrow> 'w \<Rightarrow> 'w) \<Rightarrow> ('d \<Rightarrow> ('a \<times> 'd) option) \<Rightarrow> 'w \<Rightarrow> ('a \<times> 'w) option" where
  "focus_option get put f w = map_option (\<lambda>(x, d). (x, put d w)) (f (get w))"

definition lift_disk :: "('w \<Rightarrow> 'd) \<Rightarrow> ('d \<Rightarrow> 'w \<Rightarrow> 'w) \<Rightarrow> 'd disk_ops \<Rightarrow> 'w disk_ops" where
  "lift_disk get put ops =
     \<lparr>dk_open = (\<lambda>path mode. focus get put (dk_open ops path mode)),
      dk_close = (\<lambda>f w. put (dk_close ops f (get w)) w),
      dk_pwrite = (\<lambda>f data off. focus get put (dk_pwrite ops f data off)),
      dk_pread = (\<lambda>f room off. focus get put (dk_pread ops f room off)),
      dk_fsync = (\<lambda>f. focus get put (dk_fsync ops f)),
      dk_truncate = (\<lambda>f len. focus get put (dk_truncate ops f len)),
      dk_size = (\<lambda>f. focus get put (dk_size ops f)),
      dk_remove = (\<lambda>path. focus get put (dk_remove ops path)),
      dk_make_directories = (\<lambda>path. focus get put (dk_make_directories ops path)),
      dk_list_directory = (\<lambda>path. focus get put (dk_list_directory ops path))\<rparr>"

definition lift_random :: "('w \<Rightarrow> 'r) \<Rightarrow> ('r \<Rightarrow> 'w \<Rightarrow> 'w) \<Rightarrow> 'r random_ops \<Rightarrow> 'w random_ops" where
  "lift_random get put ops =
     \<lparr>rnd_next_u64 = focus get put (rnd_next_u64 ops), rnd_next_below = (\<lambda>bound. focus_option get put (rnd_next_below ops bound))\<rparr>"

definition put_wires :: "(SimCallback, SeededRandom) Wires \<Rightarrow> Simulation \<Rightarrow> Simulation" where
  "put_wires v s = s\<lparr>sm_wires := v\<rparr>"

definition sim_rng :: "Simulation \<Rightarrow> SeededRandom" where
  "sim_rng s = wr_rng (sm_wires s)"

definition put_rng :: "SeededRandom \<Rightarrow> Simulation \<Rightarrow> Simulation" where
  "put_rng r s = put_wires ((sm_wires s)\<lparr>wr_rng := r\<rparr>) s"

definition sim_random :: "Simulation random_ops" where
  "sim_random = lift_random sim_rng put_rng seeded_ops"

definition sim_now :: "Simulation \<Rightarrow> Nanos" where
  "sim_now s = sc_now (wr_sched (sm_wires s))"

definition sim_record :: "EventTag \<Rightarrow> Simulation \<Rightarrow> Simulation" where
  "sim_record tag s = put_wires (wr_record tag (sm_wires s)) s"

definition sim_schedule :: "Nanos \<Rightarrow> EventTag \<Rightarrow> SimCallback \<Rightarrow> Simulation \<Rightarrow> Simulation" where
  "sim_schedule delay tag cb s =
     put_wires ((sm_wires s)\<lparr>wr_sched := snd (schedule_after delay tag (Some (Inr cb)) (wr_sched (sm_wires s)))\<rparr>) s"

definition sim_violation :: "string \<Rightarrow> string \<Rightarrow> Simulation \<Rightarrow> Simulation" where
  "sim_violation invariant detail s = s\<lparr>sm_oracle := violation invariant detail (sm_oracle s)\<rparr>"

definition upd_node :: "nat \<Rightarrow> (SimNode \<Rightarrow> SimNode) \<Rightarrow> Simulation \<Rightarrow> Simulation" where
  "upd_node i f s = s\<lparr>sm_nodes := (sm_nodes s)[i := f (sm_nodes s ! i)]\<rparr>"

section \<open>A node on its interfaces\<close>

definition node_disk :: "nat \<Rightarrow> Simulation \<Rightarrow> SeededRandom sim_disk" where
  "node_disk i s = (sn_disk (sm_nodes s ! i), sim_rng s)"

definition put_node_disk :: "nat \<Rightarrow> SeededRandom sim_disk \<Rightarrow> Simulation \<Rightarrow> Simulation" where
  "put_node_disk i d s = put_rng (snd d) (upd_node i (\<lambda>node. node\<lparr>sn_disk := fst d\<rparr>) s)"

definition node_loop :: "nat \<Rightarrow> Simulation \<Rightarrow> LoopTask EventLoop" where
  "node_loop i s = (case sn_loop (sm_nodes s ! i) of None \<Rightarrow> EventLoop_new | Some el \<Rightarrow> el)"

definition put_node_loop :: "nat \<Rightarrow> LoopTask EventLoop \<Rightarrow> Simulation \<Rightarrow> Simulation" where
  "put_node_loop i el = upd_node i (\<lambda>node. node\<lparr>sn_loop := Some el\<rparr>)"

definition node_now :: "nat \<Rightarrow> Simulation \<Rightarrow> Nanos" where
  "node_now i s = monotonic_now (wr_sched (sm_wires s)) (sn_clock (sm_nodes s ! i))"

definition node_add_timer :: "nat \<Rightarrow> LoopTask \<Rightarrow> Nanos \<Rightarrow> Simulation \<Rightarrow> Simulation" where
  "node_add_timer i task delay s = put_node_loop i (snd (add_timer_after (node_now i s) delay task (node_loop i s))) s"

definition node_net :: "nat \<Rightarrow> Simulation loop_ops" where
  "node_net i =
     (let node = of_nat i
      in \<lparr>nw_listen = (\<lambda>port. focus sm_wires put_wires (SimNetwork_listen node port)),
          nw_local_port = (\<lambda>conn s. (SimNetwork_local_port node conn (sm_wires s), s)),
          nw_accept = (\<lambda>conn. focus sm_wires put_wires (SimNetwork_accept node conn)),
          nw_connect = (\<lambda>host port. focus_option sm_wires put_wires (SimNetwork_connect seeded_ops node host port)),
          nw_read = (\<lambda>conn room. focus sm_wires put_wires (SimNetwork_read node conn room)),
          nw_write = (\<lambda>conn data. focus_option sm_wires put_wires (SimNetwork_write seeded_ops node conn data)),
          nw_close = (\<lambda>conn s. put_wires (SimNetwork_close node conn (sm_wires s)) s),
          nw_watch = (\<lambda>conn interest handler s. put_wires (SimNetwork_watch node conn interest handler (sm_wires s)) s),
          lp_add_timer_after = node_add_timer i OnTick\<rparr>)"

definition node_env :: "WorkloadConfig \<Rightarrow> nat \<Rightarrow> Simulation WorkloadEnv" where
  "node_env config i =
     (let env = \<lparr>en_disk = lift_disk (node_disk i) (put_node_disk i) (sim_disk_ops seeded_ops), en_random = sim_random,
                 en_loop = node_net i, en_observer = null_observer, we_record = sim_record, we_oracle = sm_oracle,
                 we_put_oracle = (\<lambda>o1 s. s\<lparr>sm_oracle := o1\<rparr>), we_append_after = node_add_timer i DoAppend\<rparr>
      in env\<lparr>en_observer := workload_observer env (of_nat i) config\<rparr>)"

text \<open>A call on the broker of a node, which is taken out of the state for it. There is none only for a pointer that dangles.\<close>

definition with_broker ::
  "nat \<Rightarrow> (Simulation Env \<Rightarrow> Broker \<Rightarrow> Simulation \<Rightarrow> (Broker \<times> Simulation) option) \<Rightarrow> Simulation \<Rightarrow> Simulation option" where
  "with_broker i call s =
     (case Option.bind (sn_workload (sm_nodes s ! i)) wl_broker of
        None \<Rightarrow> None
      | Some b \<Rightarrow> do {
          (b, s) \<leftarrow> call (Env.truncate (node_env (sf_workload (sm_config s)) i)) b s;
          Some (upd_node i (\<lambda>node. node\<lparr>sn_workload := map_option (\<lambda>wl. wl\<lparr>wl_broker := Some b\<rparr>) (sn_workload node)\<rparr>) s)
        })"

definition handle_ready :: "ConnHandler \<Rightarrow> Readiness \<Rightarrow> ConnId \<Rightarrow> Simulation \<Rightarrow> Simulation option" where
  "handle_ready handler ready conn =
     with_broker handler (\<lambda>env b s.
       case ready of
         Readable \<Rightarrow> on_readable env conn b s
       | Writable \<Rightarrow> on_writable env conn b s
       | Hangup \<Rightarrow> Some (on_hangup env conn b s))"

definition sim_poll_host :: "Simulation poll_host" where
  "sim_poll_host =
     \<lparr>ph_get = (\<lambda>s. wr_fabric (sm_wires s)), ph_put = (\<lambda>fb s. put_wires ((sm_wires s)\<lparr>wr_fabric := fb\<rparr>) s),
      ph_dispatch = handle_ready\<rparr>"

fun run_loop_task :: "nat \<Rightarrow> LoopTask \<Rightarrow> Simulation \<Rightarrow> Simulation option" where
  "run_loop_task i OnTick s = with_broker i on_tick s"
| "run_loop_task i DoAppend s =
     (case sn_workload (sm_nodes s ! i) of
        None \<Rightarrow> None
      | Some wl \<Rightarrow> do {
          (wl, s) \<leftarrow> do_append (node_env (sf_workload (sm_config s)) i) wl s;
          Some (upd_node i (\<lambda>node. node\<lparr>sn_workload := Some wl\<rparr>) s)
        })"

definition node_owner :: "nat \<Rightarrow> (LoopTask, Simulation) loop_owner" where
  "node_owner i =
     \<lparr>lh_get = node_loop i, lh_put = put_node_loop i, lh_now = node_now i,
      lh_poll = (\<lambda>timeout. SimNetwork_poll sim_poll_host (of_nat i)), lh_task = run_loop_task i\<rparr>"

section \<open>Machines that come and go (\<^verbatim>\<open>simulation.cpp\<close>)\<close>

definition SimNode_new :: "DiskFaultConfig \<Rightarrow> u32 \<Rightarrow> SimNode" where
  "SimNode_new faults node =
     \<lparr>sn_id = node, sn_dir = ''/data/'' @ node_name node, sn_port = kServicePort, sn_disk = SimDisk_new faults,
      sn_clock = SimClock_new (millis (ucast node * 137)) 1700000000000, sn_loop = None, sn_workload = None, sn_up = False\<rparr>"

definition Simulation_new :: "SimulationConfig \<Rightarrow> Simulation" where
  "Simulation_new config =
     (let ids = map of_nat [0..<unat (sf_node_count config)];
          trace = Trace_set_capture_all (sf_capture_trace config) (Trace_new 64);
          fabric = fold (\<lambda>node. add_node node (node_name node)) ids (Fabric_new (fc_network (sf_faults config)))
      in \<lparr>sm_config = config,
          sm_wires = \<lparr>wr_fabric = fabric, wr_sched = Scheduler_new trace, wr_rng = reseed (sf_seed config)\<rparr>,
          sm_oracle = Oracle_new (sf_node_count config), sm_nodes = map (SimNode_new (fc_disk (sf_faults config))) ids,
          sm_crashes = 0, sm_partitions = 0, sm_raft_messages = 0, sm_hard_state_writes = 0\<rparr>)"

definition peers_of :: "nat \<Rightarrow> Simulation \<Rightarrow> Peer list" where
  "peers_of i s =
     map (\<lambda>other. \<lparr>pr_host = node_name (sn_id other), pr_port = sn_port other, pr_id = sn_id other\<rparr>)
       (filter (\<lambda>other. sn_id other \<noteq> sn_id (sm_nodes s ! i)) (sm_nodes s))"

definition boot_node :: "nat \<Rightarrow> Simulation \<Rightarrow> Simulation option" where
  "boot_node i s = do {
     let s = upd_node i (\<lambda>node. node\<lparr>sn_disk := SimDisk_power_on (sn_disk node), sn_loop := Some EventLoop_new\<rparr>) s;
     let node = sm_nodes s ! i;
     let wl = NodeWorkload_new (sn_id node) (sn_dir node) (sn_port node) (peers_of i s) (sf_workload (sm_config s));
     (started, wl, s) \<leftarrow> NodeWorkload_start (node_env (sf_workload (sm_config s)) i) wl s;
     Some (case started of
             Inl _ \<Rightarrow> upd_node i (\<lambda>node. node\<lparr>sn_workload := None, sn_loop := None, sn_up := False\<rparr>) s
           | Inr _ \<Rightarrow>
               sim_record \<lparr>et_kind = kRestart, et_node = sn_id node, et_a = 0, et_b = 0\<rparr>
                 (upd_node i (\<lambda>node. node\<lparr>sn_workload := Some wl, sn_up := True\<rparr>) s))
   }"

definition schedule_restart :: "nat \<Rightarrow> Simulation \<Rightarrow> Simulation option" where
  "schedule_restart i s = do {
     let faults = sf_faults (sm_config s);
     (delay, s) \<leftarrow> next_in_range sim_random (fc_restart_delay_min faults) (fc_restart_delay_max faults) s;
     Some (sim_schedule delay \<lparr>et_kind = kRestart, et_node = of_nat i, et_a = 0, et_b = 0\<rparr> (Restart (of_nat i)) s)
   }"

text \<open>\<^verbatim>\<open>mean / 2\<close> to \<^verbatim>\<open>mean * 3 / 2\<close>, as the three schedules draw it.\<close>

definition draw_around :: "Nanos \<Rightarrow> Simulation \<Rightarrow> (Nanos \<times> Simulation) option" where
  "draw_around mean s = next_in_range sim_random (sdiv_i64 mean 2) (sdiv_i64 (mean * 3) 2) s"

definition schedule_crash :: "nat \<Rightarrow> Simulation \<Rightarrow> Simulation option" where
  "schedule_crash i s =
     (let mean = fc_crash_interval (sf_faults (sm_config s))
      in if sint mean \<le> 0 then Some s
         else do {
           (delay, s) \<leftarrow> draw_around mean s;
           Some (sim_schedule delay \<lparr>et_kind = kTimer, et_node = of_nat i, et_a = 0, et_b = 0\<rparr> (CrashNode (of_nat i)) s)
         })"

text \<open>The process goes with its objects: the destructor of the broker runs against a disk without power.\<close>

definition destroy_workload :: "nat \<Rightarrow> NodeWorkload option \<Rightarrow> Simulation \<Rightarrow> Simulation" where
  "destroy_workload i wl s =
     (case Option.bind wl wl_broker of
        None \<Rightarrow> s
      | Some b \<Rightarrow> Broker_destroy (Env.truncate (node_env (sf_workload (sm_config s)) i)) b s)"

definition crash_node :: "nat \<Rightarrow> Simulation \<Rightarrow> Simulation option" where
  "crash_node i s =
     (if \<not> sn_up (sm_nodes s ! i) then Some s
      else do {
        let unflushed = SimDisk_unflushed_bytes (sn_disk (sm_nodes s ! i));
        let s = put_wires (kill_node_connections (of_nat i) (sm_wires s)) s;
        d \<leftarrow> SimDisk_crash seeded_ops (node_disk i s);
        let s = put_node_disk i d s;
        let wl = sn_workload (sm_nodes s ! i);
        let s = s\<lparr>sm_raft_messages := sm_raft_messages s + (case wl of None \<Rightarrow> 0 | Some wl \<Rightarrow> raft_messages_sent wl),
                  sm_hard_state_writes := sm_hard_state_writes s + (case wl of None \<Rightarrow> 0 | Some wl \<Rightarrow> hard_state_writes wl)\<rparr>;
        let s = destroy_workload i wl s;
        let s = upd_node i (\<lambda>node. node\<lparr>sn_workload := None, sn_loop := None, sn_up := False\<rparr>) s;
        let s = sim_record \<lparr>et_kind = kCrash, et_node = of_nat i, et_a = unflushed, et_b = 0\<rparr> (s\<lparr>sm_crashes := sm_crashes s + 1\<rparr>);
        schedule_restart i s
      })"

definition restarted :: "nat \<Rightarrow> Simulation \<Rightarrow> Simulation option" where
  "restarted i s = do {
     s \<leftarrow> boot_node i s;
     if sn_up (sm_nodes s ! i) then schedule_crash i s else schedule_restart i s
   }"

section \<open>Faults\<close>

definition schedule_partition :: "Simulation \<Rightarrow> Simulation option" where
  "schedule_partition s =
     (let mean = fc_partition_interval (sf_faults (sm_config s))
      in if sint mean \<le> 0 \<or> length (sm_nodes s) < 2 then Some s
         else do {
           (delay, s) \<leftarrow> draw_around mean s;
           Some (sim_schedule delay \<lparr>et_kind = kTimer, et_node = 0, et_a = 0, et_b = 0\<rparr> StartPartition s)
         })"

definition start_partition :: "Simulation \<Rightarrow> Simulation option" where
  "start_partition s = do {
     let faults = sf_faults (sm_config s);
     let count = of_nat (length (sm_nodes s));
     (x, s) \<leftarrow> rnd_next_below sim_random count s;
     let from_node = ucast x;
     (y, s) \<leftarrow> rnd_next_below sim_random (count - 1) s;
     let to_node = (if ucast y \<ge> from_node then ucast y + 1 else ucast y);
     let (asymmetric, s) = next_bool_with_probability sim_random (fc_asymmetric_partition_probability faults) s;
     let s = put_wires (if asymmetric then Fabric_cut from_node to_node (sm_wires s) else cut_both from_node to_node (sm_wires s)) s;
     let s = s\<lparr>sm_partitions := sm_partitions s + 1\<rparr>;
     (duration, s) \<leftarrow> next_in_range sim_random (fc_partition_duration_min faults) (fc_partition_duration_max faults) s;
     schedule_partition
       (sim_schedule duration \<lparr>et_kind = kTimer, et_node = from_node, et_a = ucast to_node, et_b = 0\<rparr>
          (HealPartition from_node to_node asymmetric) s)
   }"

definition heal_partition :: "u32 \<Rightarrow> u32 \<Rightarrow> bool \<Rightarrow> Simulation \<Rightarrow> Simulation" where
  "heal_partition from_node to_node asymmetric s =
     put_wires (if asymmetric then Fabric_heal from_node to_node (sm_wires s) else heal_both from_node to_node (sm_wires s)) s"

definition schedule_clock_jump :: "Simulation \<Rightarrow> Simulation option" where
  "schedule_clock_jump s =
     (let mean = fc_clock_jump_interval (sf_faults (sm_config s))
      in if sint mean \<le> 0 then Some s
         else do {
           (delay, s) \<leftarrow> draw_around mean s;
           Some (sim_schedule delay \<lparr>et_kind = kTimer, et_node = 0, et_a = 0, et_b = 0\<rparr> JumpClock s)
         })"

definition clock_jumps :: "Simulation \<Rightarrow> Simulation option" where
  "clock_jumps s = do {
     let most = fc_clock_jump_max_ms (sf_faults (sm_config s));
     (x, s) \<leftarrow> rnd_next_below sim_random (of_nat (length (sm_nodes s))) s;
     (jump, s) \<leftarrow> next_in_range sim_random (- most) most s;
     schedule_clock_jump (upd_node (unat (ucast x :: u32)) (\<lambda>node. node\<lparr>sn_clock := jump_wall_clock jump (sn_clock node)\<rparr>) s)
   }"

fun run_sim_callback :: "SimCallback \<Rightarrow> Simulation \<Rightarrow> Simulation option" where
  "run_sim_callback (Restart node) s = restarted (unat node) s"
| "run_sim_callback (CrashNode node) s = crash_node (unat node) s"
| "run_sim_callback StartPartition s = start_partition s"
| "run_sim_callback (HealPartition from_node to_node asymmetric) s = Some (heal_partition from_node to_node asymmetric s)"
| "run_sim_callback JumpClock s = clock_jumps s"

section \<open>The run\<close>

fun node_deadline :: "Nanos \<Rightarrow> SimNode list \<Rightarrow> Nanos \<Rightarrow> Nanos" where
  "node_deadline now [] best = best"
| "node_deadline now (node # nodes) best =
     (case sn_loop node of
        None \<Rightarrow> node_deadline now nodes best
      | Some el \<Rightarrow>
          if \<not> sn_up node then node_deadline now nodes best
          else if has_pending_tasks el then now
          else if EventLoop_next_deadline el = kNoTimeout then node_deadline now nodes best
          else node_deadline now nodes (earlier_deadline best (EventLoop_next_deadline el - ck_boot_offset (sn_clock node))))"

definition next_node_deadline :: "Simulation \<Rightarrow> Nanos" where
  "next_node_deadline s = node_deadline (sim_now s) (sm_nodes s) kNoTimeout"

text \<open>One node until it is quiet: \<open>False\<close> when it never is.\<close>

partial_function (option) drain_node :: "nat \<Rightarrow> nat \<Rightarrow> Simulation \<Rightarrow> (bool \<times> Simulation) option" where
  "drain_node i guard s = do {
     (work, s) \<leftarrow> run_once (node_owner i) 0 s;
     if work = 0 then Some (True, s)
     else if guard + 1 \<ge> kMaxDrainIterations
     then Some (False, sim_violation ''LIVELOCK''
                         (''node '' @ to_string (unat (sn_id (sm_nodes s ! i))) @ '' never went quiet at a single instant'') s)
     else if \<not> sn_up (sm_nodes s ! i) \<or> sn_loop (sm_nodes s ! i) = None then Some (True, s)
     else drain_node i (guard + 1) s
   }"

fun drain_each :: "nat list \<Rightarrow> Simulation \<Rightarrow> Simulation option" where
  "drain_each [] s = Some s"
| "drain_each (i # is) s =
     (if \<not> sn_up (sm_nodes s ! i) \<or> sn_loop (sm_nodes s ! i) = None then drain_each is s
      else do {
        (quiet, s) \<leftarrow> drain_node i 0 s;
        if quiet then drain_each is s else Some s
      })"

definition drain_nodes :: "Simulation \<Rightarrow> Simulation option" where
  "drain_nodes s =
     (let count = length (sm_nodes s)
      in if count = 0 then Some s
         else do {
           (start, s) \<leftarrow> rnd_next_below sim_random (of_nat count) s;
           drain_each (map (\<lambda>k. (unat start + k) mod count) [0..<count]) s
         })"

text \<open>The events of one instant, and those they schedule for it.\<close>

definition run_callback :: "(FabricCallback + SimCallback) option \<Rightarrow> Simulation \<Rightarrow> Simulation option" where
  "run_callback cb s =
     (case cb of
        None \<Rightarrow> Some s
      | Some (Inl fabric_cb) \<Rightarrow> Some (put_wires (run_fabric_callback fabric_cb (sm_wires s)) s)
      | Some (Inr sim_cb) \<Rightarrow> run_sim_callback sim_cb s)"

partial_function (option) run_instant :: "nat \<Rightarrow> Simulation \<Rightarrow> Simulation option" where
  "run_instant same_instant s =
     (if \<not> Oracle_ok (sm_oracle s) then Some s
      else case run_next_before (sim_now s) (wr_sched (sm_wires s)) of
             (None, sch) \<Rightarrow> Some (put_wires ((sm_wires s)\<lparr>wr_sched := sch\<rparr>) s)
           | (Some ev, sch) \<Rightarrow> do {
               s \<leftarrow> run_callback (ev_callback ev) (put_wires ((sm_wires s)\<lparr>wr_sched := sch\<rparr>) s);
               if same_instant + 1 \<ge> kMaxEventsPerInstant
               then Some (sim_violation ''LIVELOCK''
                            (''virtual time stopped advancing: '' @ to_string (same_instant + 1) @ '' events scheduled at a single instant'') s)
               else run_instant (same_instant + 1) s
             })"

definition alive_nodes :: "Simulation \<Rightarrow> SimNode list" where
  "alive_nodes s = filter (\<lambda>node. sn_up node \<and> sn_workload node \<noteq> None) (sm_nodes s)"

definition sample_leader :: "Simulation \<Rightarrow> Simulation" where
  "sample_leader s =
     (let any_leader = (\<exists>node \<in> set (alive_nodes s). case sn_workload node of None \<Rightarrow> False | Some wl \<Rightarrow> NodeWorkload_is_leader wl)
      in if any_leader then s\<lparr>sm_oracle := note_leader_present (sim_now s) (sm_oracle s)\<rparr>
         else let o1 = note_leader_absent (sim_now s) (sm_oracle s)
              in s\<lparr>sm_oracle := (if length (alive_nodes s) < length (sm_nodes s) div 2 + 1 then note_quorum_lost o1 else o1)\<rparr>)"

text \<open>The time to jump to; looking at the scheduler's queue drops what was cancelled.\<close>

definition next_time :: "Simulation \<Rightarrow> Nanos \<times> Simulation" where
  "next_time s =
     (case Scheduler_next_deadline (wr_sched (sm_wires s)) of
        (deadline, sch) \<Rightarrow>
          let s = put_wires ((sm_wires s)\<lparr>wr_sched := sch\<rparr>) s in (earlier_deadline deadline (next_node_deadline s), s))"

definition advance_clock :: "Nanos \<Rightarrow> Simulation \<Rightarrow> Simulation" where
  "advance_clock when_at s = put_wires ((sm_wires s)\<lparr>wr_sched := advance_to when_at (wr_sched (sm_wires s))\<rparr>) s"

partial_function (option) run_rounds :: "Simulation \<Rightarrow> (bool \<times> Simulation) option" where
  "run_rounds s =
     (if \<not> Oracle_ok (sm_oracle s) then Some (False, s)
      else case next_time s of
        (next_at, s) \<Rightarrow>
          if next_at = kNoTimeout \<or> sint next_at > sint (sf_duration (sm_config s)) then Some (True, s)
          else do {
            s \<leftarrow> run_instant 0 (advance_clock next_at s);
            if \<not> Oracle_ok (sm_oracle s) then Some (False, s)
            else do {
              s \<leftarrow> drain_nodes s;
              let s = sample_leader s;
              if sf_max_events (sm_config s) \<noteq> 0 \<and> sc_events_run (wr_sched (sm_wires s)) \<ge> sf_max_events (sm_config s)
              then Some (False, s)
              else run_rounds s
            }
          })"

fun snapshot_node :: "SimNode \<Rightarrow> SimulationResult \<Rightarrow> SimulationResult" where
  "snapshot_node node res =
     (let res = (case sn_workload node of
                   None \<Rightarrow> res
                 | Some wl \<Rightarrow>
                     res\<lparr>rs_raft_messages := rs_raft_messages res + raft_messages_sent wl,
                         rs_hard_state_writes := rs_hard_state_writes res + hard_state_writes wl,
                         rs_ticks_per_node := (rs_ticks_per_node res)
                           [unat (sn_id node) := rs_ticks_per_node res ! unat (sn_id node) + NodeWorkload_ticks wl],
                         rs_leaders_at_end := rs_leaders_at_end res + (if NodeWorkload_is_leader wl then 1 else 0)\<rparr>)
      in res\<lparr>rs_bytes_lost_to_crashes := rs_bytes_lost_to_crashes res + sd_bytes_lost (sn_disk node)\<rparr>)"

definition snapshot :: "bool \<Rightarrow> Simulation \<Rightarrow> SimulationResult" where
  "snapshot completed s =
     (let config = sm_config s; sch = wr_sched (sm_wires s); o1 = sm_oracle s; fb = wr_fabric (sm_wires s);
          res = \<lparr>rs_seed = sf_seed config, rs_trace_hash = tr_hash (sc_trace sch), rs_trace_events = tr_count (sc_trace sch),
                 rs_scheduler_events = sc_events_run sch,
                 rs_simulated_time = (if completed then sf_duration config else sc_now sch), rs_node_count = sf_node_count config,
                 rs_records_acked = or_committed_end o1, rs_appends = or_commits o1,
                 rs_ticks_per_node = replicate (unat (sf_node_count config)) 0,
                 rs_raft_messages = sm_raft_messages s, rs_hard_state_writes = sm_hard_state_writes s,
                 rs_elections = or_elections o1, rs_highest_term = or_highest_term o1, rs_leaders_at_end = 0,
                 rs_longest_leaderless = or_longest_gap o1, rs_leaderless_gaps = or_gaps o1,
                 rs_crashes = sm_crashes s, rs_partitions = sm_partitions s, rs_bytes_lost_to_crashes = 0,
                 rs_bytes_delivered = fb_bytes_delivered fb, rs_connections_reset = fb_connections_reset fb,
                 rs_ok = Oracle_ok o1, rs_invariant = or_invariant o1, rs_detail = or_detail o1,
                 rs_tail = (if Oracle_ok o1 then [] else Trace_recent (sc_trace sch))\<rparr>
      in fold snapshot_node (sm_nodes s) res)"

fun fold_option :: "('a \<Rightarrow> 's \<Rightarrow> 's option) \<Rightarrow> 'a list \<Rightarrow> 's \<Rightarrow> 's option" where
  "fold_option f [] s = Some s"
| "fold_option f (x # xs) s = do { s \<leftarrow> f x s; fold_option f xs s }"

definition Simulation_run :: "Simulation \<Rightarrow> SimulationResult option" where
  "Simulation_run s = do {
     s \<leftarrow> fold_option boot_node [0..<length (sm_nodes s)] s;
     s \<leftarrow> fold_option schedule_crash [0..<length (sm_nodes s)] s;
     s \<leftarrow> schedule_partition s;
     s \<leftarrow> schedule_clock_jump s;
     (completed, s) \<leftarrow> run_rounds s;
     Some (snapshot completed (if completed then advance_clock (sf_duration (sm_config s)) s else s))
   }"

definition run_simulation :: "SimulationConfig \<Rightarrow> SimulationResult option" where
  "run_simulation config = Simulation_run (Simulation_new config)"

definition simulated_node_hours :: "SimulationResult \<Rightarrow> double" where
  "simulated_node_hours res =
     (let secs = round_double (round_double (of_int (sint (rs_simulated_time res))) / round_double (of_int (sint kNanosPerSecond)))
      in round_double (round_double (secs * of_nat (unat (rs_node_count res))) / 3600))"

section \<open>The loop of a node\<close>

interpretation node_loops: loop_state "node_owner i" "\<lambda>s. i < length (sm_nodes s)" for i
  by unfold_locales (simp_all add: node_owner_def put_node_loop_def upd_node_def node_loop_def)

text \<open>A node none of whose timers is due fires none and is left as it was.\<close>

lemma quiet_node_fires_nothing:
  assumes "\<forall>t \<in> set (el_timers (node_loop i s)). sint (node_now i s) < sint (tm_deadline t)"
  shows "fire_expired_timers (node_owner i) s = Some (0, s)"
proof -
  have "node_loops.due i (node_now i s) s = []"
    using assms unfolding node_loops.due_def by (auto simp: filter_empty_conv node_owner_def)
  from node_loops.fire_loop_done [OF this, where fired = 0] show ?thesis by (simp add: fire_expired_timers_def node_owner_def)
qed

section \<open>The next instant\<close>

text \<open>Deadlines are never the sentinel, events and timers are in order, and the deadlines of a node are
  readings of its own clock.\<close>

definition node_times_ok :: "SimNode \<Rightarrow> bool" where
  "node_times_ok node \<longleftrightarrow>
     0 \<le> sint (ck_boot_offset (sn_clock node)) \<and>
     (case sn_loop node of
        None \<Rightarrow> True
      | Some el \<Rightarrow> loop_ok el \<and> (\<forall>t \<in> set (el_timers el). sint (ck_boot_offset (sn_clock node)) \<le> sint (tm_deadline t)))"

definition times_ok :: "Simulation \<Rightarrow> bool" where
  "times_ok s \<longleftrightarrow>
     (\<exists>fired gone. history_ok fired gone (wr_sched (sm_wires s))) \<and> 0 \<le> sint (sim_now s) \<and>
     (\<forall>ev \<in> set (sc_queue (wr_sched (sm_wires s))). 0 \<le> sint (ev_when ev)) \<and> (\<forall>node \<in> set (sm_nodes s). node_times_ok node)"

definition live_events :: "Simulation \<Rightarrow> (FabricCallback + SimCallback) Event set" where
  "live_events s = {ev \<in> set (sc_queue (wr_sched (sm_wires s))). ev_id ev \<notin> sc_cancelled (wr_sched (sm_wires s))}"

text \<open>The loops that run, with their machines, and a deadline of a machine on the shared clock.\<close>

definition running :: "Simulation \<Rightarrow> (SimNode \<times> LoopTask EventLoop) set" where
  "running s = {(node, el). node \<in> set (sm_nodes s) \<and> sn_up node \<and> sn_loop node = Some el}"

definition shared_deadline :: "SimNode \<Rightarrow> LoopTask Timer \<Rightarrow> int" where
  "shared_deadline node t = sint (tm_deadline t) - sint (ck_boot_offset (sn_clock node))"

lemma sint_not_sentinel: "0 \<le> sint a \<Longrightarrow> a \<noteq> kNoTimeout"
  by (auto simp: kNoTimeout_def)

lemma sint_deadline_diff:
  assumes "0 \<le> sint b" and "sint b \<le> sint (a :: i64)"
  shows "sint (a - b) = sint a - sint b"
  using assms sint_lt [of a] by (simp add: sint_word_ariths(2) signed_take_bit_int_eq_self)

lemma earlier_none [simp]: "earlier_deadline a b = kNoTimeout \<longleftrightarrow> a = kNoTimeout \<and> b = kNoTimeout"
  by (simp add: earlier_deadline_def)

lemma earlier_fst: "a \<noteq> kNoTimeout \<Longrightarrow> sint (earlier_deadline a b) \<le> sint a"
  by (simp add: earlier_deadline_def)

lemma earlier_snd: "b \<noteq> kNoTimeout \<Longrightarrow> sint (earlier_deadline a b) \<le> sint b"
  by (simp add: earlier_deadline_def)

lemma earlier_either: "earlier_deadline a b = a \<or> earlier_deadline a b = b"
  by (simp add: earlier_deadline_def)

lemma first_timer_earliest:
  assumes "loop_ok el" and "t \<in> set (el_timers el)"
  shows "sint (EventLoop_next_deadline el) \<le> sint (tm_deadline t)"
proof (cases "el_timers el")
  case (Cons u us)
  then have "t = u \<or> Timer_LaterFirst t u" using assms by (auto simp: loop_ok_def timers.in_order_def)
  then show ?thesis using Cons by (auto simp: EventLoop_next_deadline_def Timer_LaterFirst_def split: if_splits)
qed (use assms in simp)

lemma next_deadline_timer:
  assumes "el_timers el \<noteq> []"
  obtains t where "t \<in> set (el_timers el)" "EventLoop_next_deadline el = tm_deadline t"
  using assms by (cases "el_timers el") (auto simp: EventLoop_next_deadline_def)

text \<open>The walk over the machines: it stays below what it had, reaches every timer, and returns the time
  of something that waits.\<close>

lemma node_deadline_best:
  assumes "now \<noteq> kNoTimeout" and "best \<noteq> kNoTimeout"
  shows "node_deadline now nodes best \<noteq> kNoTimeout \<and> sint (node_deadline now nodes best) \<le> max (sint now) (sint best)"
  using assms
proof (induction now nodes best rule: node_deadline.induct)
  case (2 now node nodes best)
  then show ?case
    using earlier_fst [of best]
    by (auto simp: le_max_iff_disj split: option.split) (meson order_trans)+
qed simp

lemma node_deadline_reaches:
  assumes "0 \<le> sint now" and "node_times_ok node" and "node \<in> set nodes" and "sn_up node" and "sn_loop node = Some el"
    and "t \<in> set (el_timers el)"
  shows "node_deadline now nodes best \<noteq> kNoTimeout \<and>
    sint (node_deadline now nodes best) \<le> max (sint now) (shared_deadline node t)"
proof -
  note now = sint_not_sentinel [OF assms(1)]
  have el: "loop_ok el" and off: "0 \<le> sint (ck_boot_offset (sn_clock node))"
    and late: "\<forall>u \<in> set (el_timers el). sint (ck_boot_offset (sn_clock node)) \<le> sint (tm_deadline u)"
    using assms(2,5) by (auto simp: node_times_ok_def)
  have "el_timers el \<noteq> []" using assms(6) by auto
  then obtain u where u: "u \<in> set (el_timers el)" "EventLoop_next_deadline el = tm_deadline u"
    by (rule next_deadline_timer)
  let ?d = "EventLoop_next_deadline el - ck_boot_offset (sn_clock node)"
  have d: "sint ?d = shared_deadline node u" using sint_deadline_diff [OF off] late u by (simp add: shared_deadline_def)
  then have "0 \<le> sint ?d" using late u(1) by (simp add: shared_deadline_def)
  then have some: "?d \<noteq> kNoTimeout" by (rule sint_not_sentinel)
  have "0 \<le> sint (tm_deadline u)" using late u(1) off by force
  then have raw: "EventLoop_next_deadline el \<noteq> kNoTimeout" unfolding u(2) by (rule sint_not_sentinel)
  have le: "sint ?d \<le> shared_deadline node t"
    using d first_timer_earliest [OF el assms(6)] u(2) by (simp add: shared_deadline_def)
  have head: "node_deadline now (node # rest) best \<noteq> kNoTimeout \<and>
      sint (node_deadline now (node # rest) best) \<le> max (sint now) (shared_deadline node t)" for rest best
  proof (cases "has_pending_tasks el")
    case True
    then show ?thesis using assms(4,5) now by simp
  next
    case False
    then have step: "node_deadline now (node # rest) best = node_deadline now rest (earlier_deadline best ?d)"
      using assms(4,5) raw by simp
    have "earlier_deadline best ?d \<noteq> kNoTimeout" "sint (earlier_deadline best ?d) \<le> sint ?d" using some earlier_snd by simp_all
    then show ?thesis using node_deadline_best [OF now, where nodes = rest] le unfolding step by fastforce
  qed
  show ?thesis using assms(3)
  proof (induction nodes arbitrary: best)
    case (Cons other rest)
    show ?case
    proof (cases "other = node")
      case True
      then show ?thesis using head by blast
    next
      case False
      then have "node \<in> set rest" using Cons.prems by simp
      from Cons.IH [OF this] show ?thesis using now by (auto split: option.split)
    qed
  qed simp
qed

lemma node_deadline_pending:
  "node \<in> set nodes \<Longrightarrow> sn_up node \<Longrightarrow> sn_loop node = Some el \<Longrightarrow> has_pending_tasks el \<Longrightarrow> node_deadline now nodes best = now"
  by (induction now nodes best rule: node_deadline.induct) (auto split: option.split)

text \<open>What waits at an instant: a live event, a task that was posted, or a timer.\<close>

definition waits_at :: "Simulation \<Rightarrow> int \<Rightarrow> bool" where
  "waits_at s time \<longleftrightarrow>
     (\<exists>ev \<in> live_events s. sint (ev_when ev) \<le> time) \<or>
     (\<exists>(node, el) \<in> running s. has_pending_tasks el \<or> (\<exists>t \<in> set (el_timers el). shared_deadline node t \<le> time))"

definition node_waits :: "int \<Rightarrow> SimNode \<Rightarrow> bool" where
  "node_waits time node \<longleftrightarrow>
     (\<exists>el. sn_up node \<and> sn_loop node = Some el \<and> (has_pending_tasks el \<or> (\<exists>t \<in> set (el_timers el). shared_deadline node t = time)))"

lemma own_deadline_waits:
  assumes "node_times_ok node" and "sn_up node" and "sn_loop node = Some el" and "EventLoop_next_deadline el \<noteq> kNoTimeout"
  shows "node_waits (sint (EventLoop_next_deadline el - ck_boot_offset (sn_clock node))) node"
proof -
  obtain t where t: "t \<in> set (el_timers el)" "EventLoop_next_deadline el = tm_deadline t"
    using assms(4) by (cases "el_timers el") (auto simp: EventLoop_next_deadline_def)
  then have "sint (EventLoop_next_deadline el - ck_boot_offset (sn_clock node)) = shared_deadline node t"
    using assms(1,3) sint_deadline_diff by (auto simp: node_times_ok_def shared_deadline_def)
  then show ?thesis using assms t(1) by (auto simp: node_waits_def)
qed

lemma node_deadline_waits:
  "\<forall>node \<in> set nodes. node_times_ok node \<Longrightarrow>
   node_deadline now nodes best = best \<or> (\<exists>node \<in> set nodes. node_waits (sint (node_deadline now nodes best)) node)"
proof (induction nodes arbitrary: best)
  case (Cons node nodes)
  have ok: "node_times_ok node" and IH: "node_deadline now nodes b = b \<or> (\<exists>n \<in> set nodes. node_waits (sint (node_deadline now nodes b)) n)" for b
    using Cons by auto
  show ?case
  proof (cases "sn_loop node")
    case None
    then show ?thesis using IH [of best] by auto
  next
    case (Some el)
    let ?d = "EventLoop_next_deadline el - ck_boot_offset (sn_clock node)"
    consider "\<not> sn_up node" | "sn_up node" "has_pending_tasks el" | "sn_up node" "\<not> has_pending_tasks el" "EventLoop_next_deadline el = kNoTimeout"
      | "sn_up node" "\<not> has_pending_tasks el" "EventLoop_next_deadline el \<noteq> kNoTimeout" by blast
    then show ?thesis
    proof cases
      case 4
      then have step: "node_deadline now (node # nodes) best = node_deadline now nodes (earlier_deadline best ?d)" using Some by simp
      have w: "node_waits (sint ?d) node" using own_deadline_waits [OF ok 4(1) Some 4(3)] .
      show ?thesis using IH [of "earlier_deadline best ?d"] earlier_either [of best ?d] w unfolding step by auto
    qed (use Some IH [of best] in \<open>auto simp: node_waits_def\<close>)
  qed
qed simp

text \<open>The events: the first live one bounds them all.\<close>

lemma scheduler_first:
  assumes "history_ok fired gone sch" and "Scheduler_next_deadline sch = (deadline, sch')"
  shows "sc_now sch' = sc_now sch"
    and "ev \<in> set (sc_queue sch) \<Longrightarrow> ev_id ev \<notin> sc_cancelled sch \<Longrightarrow>
      \<forall>x \<in> set (sc_queue sch). 0 \<le> sint (ev_when x) \<Longrightarrow> deadline \<noteq> kNoTimeout \<and> sint deadline \<le> sint (ev_when ev)"
    and "deadline \<noteq> kNoTimeout \<Longrightarrow> \<exists>ev \<in> set (sc_queue sch). ev_id ev \<notin> sc_cancelled sch \<and> ev_when ev = deadline"
proof -
  let ?s = "drop_cancelled_from_top sch"
  have d: "distinct (map ev_id (sc_queue sch))" using assms(1) by (simp add: history_ok_def)
  obtain xs where xs: "sc_queue sch = xs @ sc_queue ?s" "\<forall>x \<in> set xs. ev_id x \<in> sc_cancelled sch"
      "sc_queue ?s \<noteq> [] \<longrightarrow> ev_id (hd (sc_queue ?s)) \<notin> sc_cancelled sch"
    using drop_top_spec [OF d] by metis
  have deadline: "deadline = (case sc_queue ?s of [] \<Rightarrow> kNoTimeout | ev # _ \<Rightarrow> ev_when ev)" and "sch' = ?s"
    using assms(2) by (auto simp: Scheduler_next_deadline_def Let_def)
  then show "sc_now sch' = sc_now sch" by simp
  show "\<exists>ev \<in> set (sc_queue sch). ev_id ev \<notin> sc_cancelled sch \<and> ev_when ev = deadline" if "deadline \<noteq> kNoTimeout"
  proof (cases "sc_queue ?s")
    case (Cons x q)
    then have "x \<in> set (sc_queue sch)" using xs(1) by simp
    then show ?thesis using Cons xs(3) deadline by auto
  qed (use that deadline in simp)
  show "deadline \<noteq> kNoTimeout \<and> sint deadline \<le> sint (ev_when ev)"
    if "ev \<in> set (sc_queue sch)" "ev_id ev \<notin> sc_cancelled sch" "\<forall>x \<in> set (sc_queue sch). 0 \<le> sint (ev_when x)"
  proof -
    have "ev \<in> set (sc_queue ?s)" using xs that by (metis Un_iff set_append)
    then obtain x q where q: "sc_queue ?s = x # q" "ev \<in> set (x # q)" by (cases "sc_queue ?s") auto
    have "x \<in> set (sc_queue sch)" using xs(1) q(1) by simp
    then have "ev_when x \<noteq> kNoTimeout" using that(3) sint_not_sentinel by blast
    moreover have "sched.in_order (x # q)"
      using history_peek [OF assms(1)] q(1) by (auto simp: history_ok_def sched.in_order_def sorted_wrt_append)
    then have "ev = x \<or> Event_LaterFirst ev x" using q(2) by (auto simp: sched.in_order_def)
    then have "sint (ev_when x) \<le> sint (ev_when ev)" by (auto simp: Event_LaterFirst_def split: if_splits)
    ultimately show ?thesis using deadline q(1) by simp
  qed
qed

lemma sint_advance_clock [simp]: "sint (sim_now (advance_clock when_at s)) = max (sint (sim_now s)) (sint when_at)"
  by (simp add: sim_now_def advance_clock_def advance_to_def put_wires_def max_def)

lemma next_time_parts:
  assumes "next_time s = (next_at, s')"
  obtains deadline sch where "Scheduler_next_deadline (wr_sched (sm_wires s)) = (deadline, sch)"
    "s' = put_wires ((sm_wires s)\<lparr>wr_sched := sch\<rparr>) s" "next_at = earlier_deadline deadline (next_node_deadline s')"
  using assms by (auto simp: next_time_def Let_def split: prod.splits)

lemma next_time_state:
  assumes "times_ok s" and "next_time s = (next_at, s')"
  shows "sim_now s' = sim_now s \<and> sm_nodes s' = sm_nodes s"
  using assms by (elim next_time_parts) (auto simp: times_ok_def sim_now_def put_wires_def dest: scheduler_first(1))

lemma next_time_event:
  assumes "times_ok s" and "next_time s = (next_at, s')" and "ev \<in> live_events s"
  shows "next_at \<noteq> kNoTimeout \<and> sint next_at \<le> sint (ev_when ev)"
proof -
  obtain deadline sch where n: "Scheduler_next_deadline (wr_sched (sm_wires s)) = (deadline, sch)"
      "next_at = earlier_deadline deadline (next_node_deadline s')"
    using next_time_parts [OF assms(2)] by metis
  obtain fired gone where h: "history_ok fired gone (wr_sched (sm_wires s))" using assms(1) by (auto simp: times_ok_def)
  have "deadline \<noteq> kNoTimeout \<and> sint deadline \<le> sint (ev_when ev)"
    using scheduler_first(2) [OF h n(1), of ev] assms(1,3) by (simp add: live_events_def times_ok_def)
  then show ?thesis using n(2) earlier_fst [of deadline "next_node_deadline s'"] by simp
qed

lemma next_time_nodes:
  assumes "times_ok s" and "next_time s = (next_at, s')" and "next_node_deadline s \<noteq> kNoTimeout"
  shows "next_at \<noteq> kNoTimeout \<and> sint next_at \<le> sint (next_node_deadline s)"
proof -
  have "next_node_deadline s' = next_node_deadline s" using next_time_state [OF assms(1,2)] by (simp add: next_node_deadline_def)
  then show ?thesis using next_time_parts [OF assms(2)] assms(3) earlier_snd by (metis earlier_none)
qed

lemma next_time_timer:
  assumes "times_ok s" and "next_time s = (next_at, s')" and "(node, el) \<in> running s" and "t \<in> set (el_timers el)"
  shows "next_at \<noteq> kNoTimeout \<and> sint next_at \<le> max (sint (sim_now s)) (shared_deadline node t)"
proof -
  have "0 \<le> sint (sim_now s)" "node_times_ok node" "node \<in> set (sm_nodes s)" "sn_up node" "sn_loop node = Some el"
    using assms(1,3) by (auto simp: times_ok_def running_def)
  from node_deadline_reaches [OF this assms(4), of kNoTimeout] next_time_nodes [OF assms(1,2)] show ?thesis
    by (force simp: next_node_deadline_def)
qed

lemma next_time_pending:
  assumes "times_ok s" and "next_time s = (next_at, s')" and "(node, el) \<in> running s" and "has_pending_tasks el"
  shows "next_at \<noteq> kNoTimeout \<and> sint next_at \<le> sint (sim_now s)"
proof -
  have "next_node_deadline s = sim_now s"
    using assms(3,4) node_deadline_pending [of node "sm_nodes s" el] by (simp add: running_def next_node_deadline_def)
  moreover have "sim_now s \<noteq> kNoTimeout" using assms(1) sint_not_sentinel by (simp add: times_ok_def)
  ultimately show ?thesis using next_time_nodes [OF assms(1,2)] by simp
qed

lemma next_time_waits:
  assumes "times_ok s" and "next_time s = (next_at, s')" and "next_at \<noteq> kNoTimeout"
  shows "waits_at s (sint next_at)"
proof -
  obtain deadline sch where n: "Scheduler_next_deadline (wr_sched (sm_wires s)) = (deadline, sch)"
      "next_at = earlier_deadline deadline (next_node_deadline s')"
    using next_time_parts [OF assms(2)] by metis
  have same: "next_node_deadline s' = next_node_deadline s" using next_time_state [OF assms(1,2)] by (simp add: next_node_deadline_def)
  obtain fired gone where h: "history_ok fired gone (wr_sched (sm_wires s))" using assms(1) by (auto simp: times_ok_def)
  consider "next_at = deadline" | "next_at = next_node_deadline s" using earlier_either n(2) same by metis
  then show ?thesis
  proof cases
    case 1
    then obtain ev where "ev \<in> live_events s" "ev_when ev = next_at"
      using scheduler_first(3) [OF h n(1)] assms(3) by (auto simp: live_events_def)
    then show ?thesis by (auto simp: waits_at_def)
  next
    case 2
    then obtain node where "node \<in> set (sm_nodes s)" "node_waits (sint next_at) node"
      using node_deadline_waits [of "sm_nodes s" "sim_now s" kNoTimeout] assms(1,3) by (auto simp: next_node_deadline_def times_ok_def)
    then show ?thesis by (force simp: waits_at_def running_def node_waits_def)
  qed
qed

section \<open>What keeps the times in order\<close>

lemma sint_boot_offset: "sint (millis (ucast (node :: u32) * 137)) = uint node * 137000000"
proof -
  have eq: "millis (ucast node * 137) = word_of_int (uint node * 137000000)"
    unfolding millis_def kNanosPerMilli_def ucast_eq of_int_mult of_int_numeral mult.assoc by simp
  have "sint (word_of_int k :: i64) = k" if "0 \<le> k" "k < 2 ^ 63" for k
    using that by (simp add: sint_sbintrunc' signed_take_bit_int_eq_self)
  from this [of "uint node * 137000000"] show ?thesis using uint_bounded [of node] unfolding eq by simp
qed

lemma new_scheduler [simp]:
  "\<exists>fired gone. history_ok fired gone (Scheduler_new t)" "sc_now (Scheduler_new t) = 0" "sc_queue (Scheduler_new t) = []"
  using history_holds [OF history.fresh] by (blast, simp_all add: Scheduler_new_def)

lemma times_ok_new: "times_ok (Simulation_new config)"
proof -
  have "node_times_ok (SimNode_new faults node)" for faults node
    by (simp add: node_times_ok_def SimNode_new_def SimClock_new_def sint_boot_offset)
  then show ?thesis by (auto simp: times_ok_def Simulation_new_def Let_def sim_now_def)
qed

lemma times_ok_schedule:
  assumes "times_ok s" and "sc_next_id (wr_sched (sm_wires s)) + 1 \<noteq> 0"
  shows "times_ok (sim_schedule delay tag cb s)"
proof -
  obtain fired gone where "history_ok fired gone (wr_sched (sm_wires s))" using assms(1) by (auto simp: times_ok_def)
  then have "history_ok fired gone (snd (schedule_at when_at tag (Some (Inr cb)) (wr_sched (sm_wires s))))" for when_at
    using history_schedule assms(2) by blast
  then show ?thesis
    using assms(1) by (auto simp: times_ok_def sim_schedule_def schedule_after_def put_wires_def sim_now_def) (auto simp: schedule_at_def Let_def)
qed

lemma times_ok_advance: "times_ok s \<Longrightarrow> times_ok (advance_clock when_at s)"
  by (fastforce simp: times_ok_def advance_clock_def put_wires_def sim_now_def advance_to_def history_ok_def)

lemma run_next_queue:
  assumes "history_ok fired gone sch" and "run_next_before limit sch = (fires, sch')"
  shows "(\<exists>fired' gone'. history_ok fired' gone' sch') \<and> set (sc_queue sch') \<subseteq> set (sc_queue sch) \<and> sint (sc_now sch) \<le> sint (sc_now sch')"
proof -
  have d: "distinct (map ev_id (sc_queue sch))" using assms(1) by (simp add: history_ok_def)
  have sub: "set (sc_queue (drop_cancelled_from_top sch)) \<subseteq> set (sc_queue sch)"
    by (rule drop_top_spec [OF d]) (metis Un_upper2 set_append)
  show ?thesis
  proof (cases fires)
    case None
    then have "sch' = drop_cancelled_from_top sch" using assms(2) by (auto simp: run_next_before_def Let_def split: list.splits if_splits)
    then show ?thesis using sub history_peek [OF assms(1)] by auto
  next
    case (Some ev)
    then have "set (sc_queue sch') \<subseteq> set (sc_queue (drop_cancelled_from_top sch))"
      using assms(2) by (auto simp: run_next_before_def Let_def Scheduler_record_def advance_to_def split: list.splits if_splits)
    then show ?thesis using sub history_fire [OF assms(1)] assms(2) Some by blast
  qed
qed

lemma times_ok_fire:
  assumes "times_ok s" and "run_next_before limit (wr_sched (sm_wires s)) = (fires, sch)"
  shows "times_ok (put_wires ((sm_wires s)\<lparr>wr_sched := sch\<rparr>) s)"
proof -
  obtain fired gone where "history_ok fired gone (wr_sched (sm_wires s))" using assms(1) by (auto simp: times_ok_def)
  from run_next_queue [OF this assms(2)] show ?thesis using assms(1) by (auto simp: times_ok_def put_wires_def sim_now_def)
qed

lemma times_ok_add_timer:
  assumes "times_ok s" and "i < length (sm_nodes s)" and "el_next_timer_id (node_loop i s) + 1 \<noteq> 0" and "0 \<le> sint delay"
    and "sint (sim_now s) + sint (ck_boot_offset (sn_clock (sm_nodes s ! i))) + sint delay < 2 ^ 63"
  shows "times_ok (node_add_timer i task delay s)"
proof -
  let ?node = "sm_nodes s ! i"
  let ?el = "snd (add_timer_after (node_now i s) delay task (node_loop i s))"
  have node: "node_times_ok ?node" and now: "0 \<le> sint (sim_now s)" using assms(1,2) by (auto simp: times_ok_def)
  have old: "loop_ok (node_loop i s)" "\<forall>t \<in> set (el_timers (node_loop i s)). sint (ck_boot_offset (sn_clock ?node)) \<le> sint (tm_deadline t)"
    using node loop_ok_new by (auto simp: node_times_ok_def node_loop_def EventLoop_new_def split: option.splits)
  have "sint (sim_now s + ck_boot_offset (sn_clock ?node) + delay) = sint (sim_now s) + sint (ck_boot_offset (sn_clock ?node)) + sint delay"
    using node now assms(4,5) by (simp add: node_times_ok_def sint_word_ariths(1) signed_take_bit_int_eq_self)
  moreover have "delay = 0" if "\<not> 0 < sint delay" using that assms(4) by (intro signed_word_eqI [where ?'a = int]) simp
  ultimately have "sint (ck_boot_offset (sn_clock ?node)) \<le> sint (node_now i s + (if sint delay > 0 then delay else 0))"
    using now assms(4) by (auto simp: node_now_def monotonic_now_def sim_now_def)
  then have "node_times_ok (?node\<lparr>sn_loop := Some ?el\<rparr>)"
    using node old loop_ok_add [OF old(1) assms(3)] by (auto simp: node_times_ok_def add_timer_after_def Let_def)
  then show ?thesis
    using assms(1) set_update_subset_insert [of "sm_nodes s" i "?node\<lparr>sn_loop := Some ?el\<rparr>"]
    by (auto simp: times_ok_def node_add_timer_def put_node_loop_def upd_node_def sim_now_def)
qed

section \<open>The clock\<close>

text \<open>C11. The clock never jumps over anything. In a state whose events and timers are in order, the time a
  round moves the clock to is not before the present one; it is past no live event of the scheduler and past
  no timer of a machine that runs, translated out of the clock of that machine, unless that was overdue
  already; it stays where it is while a machine has a task to run; something that waits is due at it; and
  the run finds nothing to move to only when no event, no timer and no task is left.\<close>

theorem clock_never_skips:
  assumes "times_ok s" and "next_time s = (next_at, s')"
  shows "sint (sim_now s) \<le> sint (sim_now (advance_clock next_at s')) \<and>
    (\<forall>ev \<in> live_events s.
       next_at \<noteq> kNoTimeout \<and> sint (sim_now (advance_clock next_at s')) \<le> max (sint (sim_now s)) (sint (ev_when ev))) \<and>
    (\<forall>(node, el) \<in> running s. \<forall>t \<in> set (el_timers el).
       next_at \<noteq> kNoTimeout \<and> sint (sim_now (advance_clock next_at s')) \<le> max (sint (sim_now s)) (shared_deadline node t)) \<and>
    (\<forall>(node, el) \<in> running s. has_pending_tasks el \<longrightarrow>
       next_at \<noteq> kNoTimeout \<and> sim_now (advance_clock next_at s') = sim_now s) \<and>
    (next_at \<noteq> kNoTimeout \<longrightarrow> waits_at s (sint next_at))"
proof -
  let ?now = "sim_now (advance_clock next_at s')"
  have now: "sim_now s' = sim_now s" using next_time_state [OF assms] by simp
  have bound: "sint ?now \<le> max (sint (sim_now s)) x" if "sint next_at \<le> max (sint (sim_now s)) x" for x
    using that now by simp
  have ev: "next_at \<noteq> kNoTimeout \<and> sint ?now \<le> max (sint (sim_now s)) (sint (ev_when ev))" if "ev \<in> live_events s" for ev
    using next_time_event [OF assms that] bound max.coboundedI2 by blast
  have tm: "next_at \<noteq> kNoTimeout \<and> sint ?now \<le> max (sint (sim_now s)) (shared_deadline node t)"
    if "(node, el) \<in> running s" "t \<in> set (el_timers el)" for node el t
    using next_time_timer [OF assms that] bound by blast
  have pending: "next_at \<noteq> kNoTimeout \<and> ?now = sim_now s" if "(node, el) \<in> running s" "has_pending_tasks el" for node el
    using next_time_pending [OF assms that] now by (auto intro: signed_word_eqI [where ?'a = int])
  have "sint (sim_now s) \<le> sint ?now" using now by simp
  then show ?thesis using ev tm pending next_time_waits [OF assms] by blast
qed

text \<open>The second machine, whose clock is 137 ms ahead, runs; its timer is the next thing, although the reading
  of its own clock it is set for is later than the event of the scheduler.\<close>

definition sample_simulation :: Simulation where
  "sample_simulation =
     node_add_timer 1 OnTick (millis 20)
       (sim_schedule (millis 100) sample_tag StartPartition
         (upd_node 1 (\<lambda>node. node\<lparr>sn_up := True\<rparr>) (Simulation_new SimulationConfig_default)))"

lemma node_times_up [simp]: "node_times_ok (node\<lparr>sn_up := up\<rparr>) \<longleftrightarrow> node_times_ok node"
  by (simp add: node_times_ok_def split: option.split)

lemma times_ok_up:
  "times_ok s \<Longrightarrow> i < length (sm_nodes s) \<Longrightarrow> times_ok (upd_node i (\<lambda>node. node\<lparr>sn_up := up\<rparr>) s)"
  using set_update_subset_insert [of "sm_nodes s" i "(sm_nodes s ! i)\<lparr>sn_up := up\<rparr>"]
  by (auto simp: times_ok_def upd_node_def sim_now_def)

lemmas sample_defs =
  Simulation_new_def SimulationConfig_default_def FaultConfig_default_def SimNode_new_def SimClock_new_def Scheduler_new_def
  upd_node_def sim_schedule_def schedule_after_def schedule_at_def put_wires_def node_add_timer_def put_node_loop_def node_loop_def
  add_timer_after_def EventLoop_new_def node_now_def monotonic_now_def sim_now_def millis_def kNanosPerMilli_def

lemma sample_ok: "times_ok sample_simulation"
  unfolding sample_simulation_def
  by (intro times_ok_add_timer times_ok_schedule times_ok_up times_ok_new) (simp_all add: sample_defs Let_def)

lemma sample_next: "fst (next_time sample_simulation) = millis 20"
proof -
  have "[0..<3] = [0, 1, 2 :: nat]" by (simp add: upt_rec)
  then show ?thesis
    by (simp add: next_time_def Scheduler_next_deadline_def drop_cancelled_from_top_def next_node_deadline_def
      EventLoop_next_deadline_def has_pending_tasks_def earlier_deadline_def kNoTimeout_def sample_simulation_def sample_defs Let_def)
qed

theorem clock_never_skips_witness:
  "times_ok sample_simulation \<and> fst (next_time sample_simulation) = millis 20 \<and>
   waits_at sample_simulation (sint (fst (next_time sample_simulation)))"
proof -
  have "next_time sample_simulation = (millis 20, snd (next_time sample_simulation))" using sample_next by (metis prod.collapse)
  moreover have "millis 20 \<noteq> kNoTimeout" by (simp add: millis_def kNanosPerMilli_def kNoTimeout_def)
  ultimately show ?thesis using clock_never_skips [OF sample_ok] sample_ok sample_next by metis
qed

end
