(* ===== verification/Spec2Isabelle.thy ===== *)
theory Spec2Isabelle
  imports Log_Spec Hard_State Raft_Election Raft_Divergence Sim_Stream Simulation
begin

text \<open>
  A verification library for the replicated log engine under \<^verbatim>\<open>src/src\<close>: a broker that
  stores record batches in segmented files, replicates them with Raft over framed TCP streams, and is
  tested by a deterministic simulator that runs the same broker on a simulated disk, network and clock.

  \<^bold>\<open>Conventions.\<close> Integers keep their width (\<open>u8\<close> to \<open>u64\<close>, \<open>i64\<close>), so wrap-around is that of the code;
  a \<^verbatim>\<open>size_t\<close> is a \<open>nat\<close>; bytes are lists of \<open>u8\<close>. \<^verbatim>\<open>Result<T>\<close> is a sum whose left side is an
  error code. A class is a record of its members, an operation a function from the old object to the new
  one. An abstract class (disk, random, network, loop) is a record of operations on a state of any type,
  so the code above it is modelled once and runs over every implementation. A \<^verbatim>\<open>double\<close> is a rational
  rounded to 53 bits after every operation. A callback or a task is a value of a datatype that its owner
  runs. A loop whose end is not evident is a \<open>partial_function\<close> into \<open>option\<close>, where \<open>None\<close> is not
  returning; no fuel is used anywhere.

  \<^bold>\<open>Base and wire.\<close> \<open>Prelude\<close> has the types, the byte operations and the collections \<open>layout\<close>, \<open>widths\<close>
  and \<open>consts_of\<close>. \<open>Base\<close> models \<^verbatim>\<open>base/\<close>: error codes, results, time, slices, endian loads and stores.
  \<open>Buffer\<close> (\<^verbatim>\<open>base/buffer.h\<close>) implements the contract \<open>byte_stream\<close>. \<open>Crc32c\<close> (\<^verbatim>\<open>base/crc32c.cpp\<close>): the
  hardware path equals the table loop for any pair of instructions that compute what their manual says
  (\<open>crc_intrinsics\<close>), and one changed byte changes the checksum. \<open>Wire\<close> (\<^verbatim>\<open>wire/\<close>): frames survive every
  way a stream is cut into reads, and hostile lengths are refused.

  \<^bold>\<open>Storage.\<close> \<open>Record_Batch\<close> (\<^verbatim>\<open>storage/record_batch\<close>): what validation accepts, exactly; the round trip
  of the builder; damaged and torn batches are refused. \<open>Sparse_Index\<close>: the lookup, decoding of arbitrary
  bytes, the round trip. \<open>Segment\<close> models \<^verbatim>\<open>storage/segment\<close> over any disk; \<open>Segment_Names\<close>, \<open>Batch_Log\<close>,
  \<open>Segment_Recovery\<close> and \<open>Segment_Ops\<close> prove it against a chain of batches under the contract of a disk, and
  \<open>Segment_Durability\<close> concludes on the simulated disk: recovery finds exactly the valid prefix of whatever
  a file holds, flushed batches survive a power cut, and truncation is described at every offset, also
  below the base, where it leaves a segment that expects an offset before its own. \<open>Log_Store\<close> models \<^verbatim>\<open>storage/log\<close>, \<open>Log_Ops\<close> proves
  one chain across its segments, \<open>Log_Spec\<close> states what appends, reads, truncations and scans do.

  \<^bold>\<open>Interfaces.\<close> \<open>Io_Random\<close> (\<^verbatim>\<open>io/random.h\<close>, \<^verbatim>\<open>io/seeded_random.h\<close>): draws are unbiased, in range and
  return. \<open>Io_Disk\<close> (\<^verbatim>\<open>io/disk.h\<close>) has the contracts \<open>disk\<close> and \<open>reliable_disk\<close>, which \<open>Log_Ops\<close> extends to
  \<open>log_disk\<close>; \<open>Sim_Disk\<close> (\<^verbatim>\<open>io/sim/sim_disk\<close>) interprets them and shows what a power cut may take. \<open>Omap\<close> is
  \<^verbatim>\<open>std::map\<close> where its order is observed. \<open>Io_Network\<close> is \<^verbatim>\<open>io/network.h\<close>. \<open>Event_Loop\<close> models
  \<^verbatim>\<open>runtime/event_loop\<close>; its timers, like the events of \<open>Scheduler\<close>, are a queue of \<open>Heap_Queue\<close>, whose
  contract \<open>fire_order\<close> makes a heap a list in firing order.

  \<^bold>\<open>Consensus.\<close> \<open>Raft_Types\<close>, \<open>Raft_Node\<close>, \<open>Raft_Codec\<close> and \<open>State_File\<close> model \<^verbatim>\<open>raft/\<close>; \<open>Broker\<close> models
  \<^verbatim>\<open>server/broker\<close>, which stores what a node orders before it sends what the node says. \<open>Raft_Steps\<close>
  characterises what each handler does to terms, votes and messages. \<open>Raft_Cluster\<close> is a step relation of
  nodes with their drivers and disks, in which messages are lost, repeated, delayed and reordered and nodes
  crash; \<open>Raft_Election\<close> proves by an invariant over it that a term has at most one leader.
  \<open>Raft_Divergence\<close> computes, from the nodes' own handlers, a run after which two members have committed
  different entries at one offset: state machine safety does not hold of this code, because of how a
  follower adopts a commit index. \<open>Hard_State\<close> shows that writing the term and the vote refines a store of
  one record, also across power cuts. \<open>Raft_Sample\<close> is the run the theorems are instantiated at.

  \<^bold>\<open>Simulator.\<close> \<open>Trace\<close> and \<open>Scheduler\<close> (\<^verbatim>\<open>sim/trace\<close>, \<^verbatim>\<open>sim/scheduler\<close>, \<^verbatim>\<open>io/sim/sim_clock.h\<close>): the hash tells
  traces apart, events fire in one total order. \<open>Sim_Network\<close> models \<^verbatim>\<open>io/sim/sim_network\<close>; \<open>Sim_Stream\<close> shows
  that a connection is a byte stream while nothing is written over a cut link, with two runs that mark the
  limits. \<open>Workload\<close> (\<^verbatim>\<open>sim/workload\<close>): the oracle flags a run exactly when two nodes claim one term.
  \<open>Simulation\<close> (\<^verbatim>\<open>sim/simulation\<close>) puts the machines on one state, each broker over its simulated disk,
  network and loop (an instance of \<open>loop_state\<close>), and shows that the clock passes no event and no timer.

  \<^bold>\<open>Assumptions.\<close> The hypotheses of the theorems say that counters have room: the event and connection
  numbers do not wrap, files stay below the largest size of a segment, and offsets below the end of the
  64-bit range. Theorems on the simulated disk that promise success assume that it injects no errors; those
  on power cuts do not assume anything about which writes survive. What recovery concludes rests on the
  index sidecar: it skips the batches before the newest entry whose header looks right, so the theorems on
  recovery assume that an entry which passes this check names a batch boundary (\<open>hints_checked\<close>,
  \<open>sidecar_checked\<close>); entries that fail it may be arbitrary. A missing sidecar satisfies it, so does one that an
  index flush wrote, and appends and flushes keep it (\<open>sidecar_ok\<close> and its lemmas); a truncation or a power
  cut leaves stale entries behind, for which it remains an assumption. The theorem on the images of a file
  admits rotting bytes only while no write is pending. The cluster has the state file flushed,
  which is the default of the configuration, terms below \<open>2 ^ 32\<close>, and a broker whose disk refused a log
  write restarted before it handles anything else. The state that \<open>Simulation\<close> starts a round
  from is assumed to have its deadlines in order; creating a simulation, scheduling, firing, advancing and
  arming timers are shown to keep that, the handlers of the broker are not followed through.

  \<^bold>\<open>Not modelled.\<close> The kernel-backed interfaces of \<^verbatim>\<open>io/real\<close> are calls of the operating system, whose
  state is outside the program. The entry point \<^verbatim>\<open>main/logengine.cpp\<close>, the tools and the benchmarks parse
  flags, build these interfaces and print measurements. Allocation, \<^verbatim>\<open>reserve\<close> and capacity have no
  observable effect and are left out.
\<close>

end
